(* ===== verification/Prelude.thy ===== *)
theory Prelude
  imports Main "HOL-Library.Word" "HOL-Library.List_Lexorder"
begin

text \<open>
  The shared base of the development: the machine types of the Go code, the sentinel errors
  of every package as one datatype, the error result and the state-and-error computations the
  stateful components are written in, and the generic lemmas on words, lists and byte strings
  the components share.

  A Go \<open>[]byte\<close> or \<open>string\<close> is a list of 8-bit words; \<open>bytes.Compare\<close> and Go's string order
  are the lexicographic order of \<open>HOL-Library.List_Lexorder\<close>. A Go function that returns
  \<open>(T, error)\<close> returns \<open>err + T\<close>; one that also writes a store is a function from the store to
  the result and the new store.
\<close>

unbundle bit_operations_syntax

type_synonym byte = "8 word"
type_synonym bytes = "8 word list"
type_synonym u16 = "16 word"
type_synonym u32 = "32 word"
type_synonym u64 = "64 word"

named_theorems result_simps \<open>unfolding of the error and state-and-error combinators\<close>
named_theorems wire_simps \<open>reading back what the wire writer wrote\<close>
named_theorems wire_dests \<open>what a successful wire read consumed\<close>

section \<open>Go values\<close>

text \<open>A Go string literal as bytes.\<close>

definition ascii :: "string \<Rightarrow> bytes" where
  "ascii s = map of_char s"

lemma length_ascii [simp]: "length (ascii s) = length s"
  by (simp add: ascii_def)

text \<open>\<open>copy(dst[:], src)\<close> into a zeroed array of \<open>n\<close> bytes.\<close>

definition copy_into :: "nat \<Rightarrow> bytes \<Rightarrow> bytes" where
  "copy_into n bs = take n (bs @ replicate n 0)"

lemma length_copy_into [simp]: "length (copy_into n bs) = n"
  by (simp add: copy_into_def)

lemma copy_into_exact [simp]: "length bs = n \<Longrightarrow> copy_into n bs = bs"
  by (simp add: copy_into_def)

text \<open>\<^verbatim>\<open>strings.Split\<close> and \<^verbatim>\<open>strings.SplitSeq\<close> by one byte.\<close>

fun split_at :: "byte \<Rightarrow> bytes \<Rightarrow> bytes list" where
  "split_at c [] = [[]]"
| "split_at c (b # bs) =
     (if b = c then [] # split_at c bs
      else case split_at c bs of [] \<Rightarrow> [[b]] | s # ss \<Rightarrow> (b # s) # ss)"

lemma split_at_ne [simp]: "split_at c bs \<noteq> []"
  by (cases bs) (auto split: list.splits)

lemma split_at_join: "concat (map (\<lambda>s. c # s) (split_at c bs)) = c # bs"
  by (induction bs) (auto split: list.splits)

lemma split_at_free: "s \<in> set (split_at c bs) \<Longrightarrow> c \<notin> set s"
  by (induction bs arbitrary: s) (auto split: list.splits if_splits)

section \<open>Readers\<close>

text \<open>
  An \<^verbatim>\<open>io.Reader\<close> is the list of what its reads return; a read of a buffer shorter than the next
  block returns the part that fits.
\<close>

datatype read_err = EOF | ErrNoProgress | ReadErr string

type_synonym rdr = "(bytes \<times> read_err option) list"

text \<open>\<^verbatim>\<open>r.Read(p)\<close> with \<open>k\<close> bytes of room: past its last block the reader is at its end.\<close>

fun rdr_Read :: "nat \<Rightarrow> rdr \<Rightarrow> (bytes \<times> read_err option) \<times> rdr" where
  "rdr_Read k [] = (([], Some EOF), [])"
| "rdr_Read k ((d, e) # rs) =
     (if length d \<le> k then ((d, e), rs) else ((take k d, None), (drop k d, e) # rs))"

text \<open>\<^verbatim>\<open>bytes.NewReader\<close>, which knows its length.\<close>

definition bytes_rdr :: "bytes \<Rightarrow> rdr" where
  "bytes_rdr b = (if b = [] then [] else [(b, None)])"

lemma rdr_Read_work:
  "rdr_Read k r = ((d, e), r') \<Longrightarrow>
   length d + sum_list (map (\<lambda>(d, e). Suc (length d)) r') \<le> sum_list (map (\<lambda>(d, e). Suc (length d)) r)"
  by (induction k r rule: rdr_Read.induct) (auto split: if_splits)

text \<open>
  Reading at most \<open>n\<close> bytes to the end, which is \<^verbatim>\<open>io.ReadAll\<close> or a copy of \<^verbatim>\<open>io.LimitReader(r, n)\<close>: what
  was read, the error that ended it (an end of file is none), and the reader left over. \<open>rdr_copy\<close> is
  the loop itself, over buffers of any sizes.
\<close>

fun rdr_upto :: "nat \<Rightarrow> rdr \<Rightarrow> (bytes \<times> read_err option) \<times> rdr" where
  "rdr_upto n [] = (([], None), [])"
| "rdr_upto n ((d, e) # rs) =
     (if n = 0 then (([], None), (d, e) # rs)
      else if length d > n then ((take n d, None), (drop n d, e) # rs)
      else case e of
        Some x \<Rightarrow> ((d, if x = EOF then None else Some x), rs)
      | None \<Rightarrow> let ((b, x), r) = rdr_upto (n - length d) rs in ((d @ b, x), r))"

lemma rdr_upto_more:
  assumes "1 \<le> k" and "k \<le> n" and "k < length d"
  shows "(case rdr_upto (n - k) ((drop k d, e) # rs) of ((b, x), r') \<Rightarrow> ((acc @ take k d @ b, x), r')) =
    (case rdr_upto n ((d, e) # rs) of ((b, x), r') \<Rightarrow> ((acc @ b, x), r'))"
proof (cases "n < length d")
  case True
  then have "take k d @ take (n - k) (drop k d) = take n d" using assms(2) by (simp add: take_add[symmetric])
  then show ?thesis using assms True by (auto simp: take_add[symmetric])
next
  case False
  then have "n - k - (length d - k) = n - length d" "n \<noteq> k" using assms by auto
  then show ?thesis using assms False by (auto split: option.splits prod.splits)
qed

function rdr_copy :: "(nat \<Rightarrow> nat) \<Rightarrow> nat \<Rightarrow> bytes \<Rightarrow> rdr \<Rightarrow> (bytes \<times> read_err option) \<times> rdr" where
  "rdr_copy room n acc r =
     (if n = 0 then ((acc, None), r)
      else case rdr_Read (min n (max 1 (room (length acc)))) r of (de, r') \<Rightarrow>
        case snd de of
          Some x \<Rightarrow> ((acc @ fst de, if x = EOF then None else Some x), r')
        | None \<Rightarrow> rdr_copy room (n - length (fst de)) (acc @ fst de) r')"
  by pat_completeness auto
termination rdr_copy
proof (relation "measure (\<lambda>(room, n, acc, r). sum_list (map (\<lambda>(d, e). Suc (length d)) r))", goal_cases)
  case (2 room n acc r de r')
  then show ?case by (cases r) (auto split: if_splits)
qed simp

declare rdr_copy.simps [simp del]

lemma rdr_copy_upto: "rdr_copy room n acc r = (case rdr_upto n r of ((b, e), r') \<Rightarrow> ((acc @ b, e), r'))"
proof (induction room n acc r rule: rdr_copy.induct)
  case (1 room n acc r)
  let ?k = "min n (max 1 (room (length acc)))"
  consider "n = 0" | "r = []" | d e rs where "0 < n" "r = (d, e) # rs" by (cases r) auto
  then show ?case
  proof cases
    case (3 d e rs)
    have IH: "rdr_copy room (n - length d') (acc @ d') r' = (case rdr_upto (n - length d') r' of ((b, e), r') \<Rightarrow> ((acc @ d' @ b, e), r'))"
      if "rdr_Read ?k r = ((d', None), r')" for d' r'
      using 1[of "(d', None)" r'] that 3(1) by (auto split: prod.splits)
    show ?thesis
    proof (cases "length d \<le> ?k")
      case True
      then have "length d \<le> n" by simp
      then show ?thesis using 3 True IH[of d rs] by (subst rdr_copy.simps) (auto split: option.splits prod.splits)
    next
      case False
      have k: "1 \<le> ?k" "?k \<le> n" "?k < length d" using 3(1) False by auto
      have rd: "rdr_Read ?k r = ((take ?k d, None), (drop ?k d, e) # rs)" using 3(2) False by simp
      have "rdr_copy room n acc r = rdr_copy room (n - ?k) (acc @ take ?k d) ((drop ?k d, e) # rs)"
        using 3(1) rd k(3) by (subst rdr_copy.simps) simp
      also have "\<dots> = (case rdr_upto (n - ?k) ((drop ?k d, e) # rs) of ((b, e), r') \<Rightarrow> ((acc @ take ?k d @ b, e), r'))"
        using IH[OF rd] k(3) by simp
      also have "\<dots> = (case rdr_upto n r of ((b, e), r') \<Rightarrow> ((acc @ b, e), r'))" using rdr_upto_more[OF k] 3(2) by simp
      finally show ?thesis .
    qed
  next
    case 1
    then show ?thesis by (cases r) (auto simp: rdr_copy.simps)
  next
    case 2
    then show ?thesis by (subst rdr_copy.simps) simp
  qed
qed

text \<open>\<^verbatim>\<open>io.ReadFull\<close> of one byte.\<close>

fun rdr_one :: "rdr \<Rightarrow> bytes \<times> read_err option" where
  "rdr_one [] = ([], Some EOF)"
| "rdr_one ((d, e) # rs) =
     (if d \<noteq> [] then (take 1 d, None)
      else case e of None \<Rightarrow> rdr_one rs | Some x \<Rightarrow> ([], Some x))"

section \<open>Errors and results\<close>

text \<open>
  The sentinel errors of the packages. An error the code builds without a sentinel
  (\<open>errors.New\<close> inside a function) is \<open>ErrOther\<close> with a tag for the place. A run-time panic, which
  no code here recovers from, is \<open>Panic\<close>.
\<close>

datatype err =
    ErrChunkNotFound | ErrChunkCorrupt | ErrChunkTooLarge | ErrChunkRootConflict
  | ErrChunkRootMissing | ErrChunkClosed | ErrSessionLost
  | ErrHashInvalid
  | ErrGeometry
  | ErrStreamTooLarge
  | ErrKeyTooLarge | ErrValueTooLarge
  | ErrUnknownModel | ErrInvalidPath | ErrNotWalkable
  | ErrTooManyConflicts
  | ErrDenied | ErrInvalidPrincipal
  | ErrExists | ErrNoRepo | ErrConflict | ErrBranchExists | ErrBranchNotFound | ErrBranchInUse
  | ErrTagExists | ErrTagNotFound | ErrInvalidName | ErrInvalidLimit | ErrUnresolvedConflicts
  | ErrMergeState | ErrNoMerge | ErrConflictTooLarge
  | ErrPackCorrupt | ErrPackTooLarge | ErrPackFull | ErrPackDup
  | ErrDedupCorrupt | ErrManifest | ErrMoved
  | ErrBlobNotFound | ErrBlobExists | ErrBlobRootConflict | ErrBlobInvalidName
  | ErrBlobInvalidRange | ErrBlobInvalidLimit | ErrBlobSizeMismatch | ErrBlobTooLarge
  | ErrBlobEmptyRoot | ErrBlobReadOnly | ErrDeleteForbidden | ErrNoRoot
  | ErrJournalBusy | ErrJournalClosed | ErrJournalConflict
  | ErrAuth | ErrWrongPassphrase | ErrWrongKey | ErrKeyCorrupt | ErrDomain | ErrKeyExhausted
  | ErrParams | ErrPassphrase | ErrDestroyed | ErrWrapOnly | ErrUntagged
  | ErrOther string | Panic string

type_synonym 'a result = "err + 'a"

definition rbind :: "'e + 'a \<Rightarrow> ('a \<Rightarrow> 'e + 'b) \<Rightarrow> 'e + 'b" where
  "rbind m f = (case m of Inl e \<Rightarrow> Inl e | Inr x \<Rightarrow> f x)"

text \<open>\<open>if err := check; err != nil { return err }\<close>\<close>

definition guard :: "bool \<Rightarrow> 'e \<Rightarrow> 'e + unit" where
  "guard b e = (if b then Inr () else Inl e)"

lemma rbind_simps [simp]:
  "rbind (Inl e) f = Inl e"
  "rbind (Inr x) f = f x"
  by (simp_all add: rbind_def)

lemma rbind_Inr_iff [result_simps]: "rbind m f = Inr y \<longleftrightarrow> (\<exists>x. m = Inr x \<and> f x = Inr y)"
  by (cases m) auto

lemma rbind_Inl_iff [result_simps]:
  "rbind m f = Inl e \<longleftrightarrow> m = Inl e \<or> (\<exists>x. m = Inr x \<and> f x = Inl e)"
  by (cases m) auto

text \<open>A recursive call after a step is made only when the step succeeded.\<close>

lemma rbind_cong [fundef_cong]:
  "m = m' \<Longrightarrow> (\<And>x. m' = Inr x \<Longrightarrow> f x = g x) \<Longrightarrow> rbind m f = rbind m' g"
  by (cases m') auto

lemma guard_Inr_iff [result_simps]: "guard b e = Inr u \<longleftrightarrow> b"
  by (simp add: guard_def)

lemma guard_simps [simp]: "guard True e = Inr ()" "guard False e = Inl e"
  by (simp_all add: guard_def)

section \<open>Computations over a store\<close>

text \<open>
  A computation reads and writes a store of type \<open>'s\<close> and fails with an error; what it wrote
  before it failed stays written, as in the source.
\<close>

type_synonym ('s, 'a) comp = "'s \<Rightarrow> 'a result \<times> 's"

definition sret :: "'a \<Rightarrow> ('s, 'a) comp" where
  "sret x s = (Inr x, s)"

definition sfail :: "err \<Rightarrow> ('s, 'a) comp" where
  "sfail e s = (Inl e, s)"

definition sbind :: "('s, 'a) comp \<Rightarrow> ('a \<Rightarrow> ('s, 'b) comp) \<Rightarrow> ('s, 'b) comp" where
  "sbind m f s = (case m s of (Inl e, s') \<Rightarrow> (Inl e, s') | (Inr x, s') \<Rightarrow> f x s')"

definition slift :: "'a result \<Rightarrow> ('s, 'a) comp" where
  "slift r s = (r, s)"

text \<open>Go's \<open>for _, x := range xs { if err := f(x); err != nil { return err } }\<close> with a carried
  value.\<close>

fun sfold :: "('a \<Rightarrow> 'b \<Rightarrow> ('s, 'b) comp) \<Rightarrow> 'a list \<Rightarrow> 'b \<Rightarrow> ('s, 'b) comp" where
  "sfold f [] y = sret y"
| "sfold f (x # xs) y = sbind (f x y) (sfold f xs)"

lemma sret_apply [simp]: "sret x s = (Inr x, s)"
  by (simp add: sret_def)

lemma sfail_apply [simp]: "sfail e s = (Inl e, s)"
  by (simp add: sfail_def)

lemma slift_apply [simp]: "slift r s = (r, s)"
  by (simp add: slift_def)

lemma case_Inl_fail: "(case r of Inl _ \<Rightarrow> Inl e | Inr x \<Rightarrow> f x) = Inr y \<longleftrightarrow> (\<exists>x. r = Inr x \<and> f x = Inr y)"
  by (cases r) auto

lemma sbind_Inr_iff [result_simps]:
  "sbind m f s = (Inr y, t) \<longleftrightarrow> (\<exists>x u. m s = (Inr x, u) \<and> f x u = (Inr y, t))"
  by (auto simp: sbind_def split: prod.splits sum.splits)

lemma sbind_Inl_iff [result_simps]:
  "sbind m f s = (Inl e, t) \<longleftrightarrow>
     m s = (Inl e, t) \<or> (\<exists>x u. m s = (Inr x, u) \<and> f x u = (Inl e, t))"
  by (auto simp: sbind_def split: prod.splits sum.splits)

text \<open>A recursive call after a step sees only what the step returned.\<close>

lemma sbind_cong [fundef_cong]:
  "m = m' \<Longrightarrow> s = s' \<Longrightarrow> (\<And>x u. m' s' = (Inr x, u) \<Longrightarrow> f x u = g x u) \<Longrightarrow> sbind m f s = sbind m' g s'"
  by (auto simp: sbind_def split: prod.splits sum.splits)

lemma sbind_eval: "m s = (Inr x, u) \<Longrightarrow> sbind m f s = f x u"
  by (simp add: sbind_def)

lemma sbind_eval_err: "m s = (Inl e, u) \<Longrightarrow> sbind m f s = (Inl e, u)"
  by (simp add: sbind_def)

lemma sbind_sret [simp]: "sbind (sret x) f = f x"
  by (rule ext) (simp add: sbind_def)

lemma sbind_sfail [simp]: "sbind (sfail e) f = sfail e"
  by (rule ext) (simp add: sbind_def)

lemma sbind_slift [simp]:
  "sbind (slift (Inr x)) f = f x"
  "sbind (slift (Inl e)) f = sfail e"
  by (rule ext, simp add: sbind_def)+

section \<open>Words\<close>

lemma take_bit_self_iff: "take_bit k w = w \<longleftrightarrow> unat w < 2 ^ k"
proof -
  have "take_bit k w = w \<longleftrightarrow> unat (take_bit k w) = unat w"
    by (rule word_unat_eq_iff)
  also have "\<dots> \<longleftrightarrow> take_bit k (unat w) = unat w" by (simp only: unsigned_take_bit_eq)
  finally show ?thesis by (simp add: take_bit_nat_eq_self_iff)
qed

lemma take_bit_self_bit: "take_bit k w = w \<Longrightarrow> k \<le> n \<Longrightarrow> \<not> bit (w :: 'a::len word) n"
  by (metis bit_take_bit_iff not_less)

lemma unat_ucast_small: "unat w < 2 ^ LENGTH('b) \<Longrightarrow> unat (ucast w :: 'b::len word) = unat w"
  by (simp add: unsigned_ucast_eq take_bit_nat_eq_self_iff)

lemma unat_of_nat_small: "n < 2 ^ LENGTH('a) \<Longrightarrow> unat (of_nat n :: 'a::len word) = n"
  by (simp add: unsigned_of_nat take_bit_nat_eq_self_iff)

lemma unat_add_small:
  "unat (a :: 'a::len word) + unat b < 2 ^ LENGTH('a) \<Longrightarrow> unat (a + b) = unat a + unat b"
  by (simp add: unat_word_ariths)

lemma uint_of_nat_small: "n < 2 ^ LENGTH('a) \<Longrightarrow> uint (of_nat n :: 'a::len word) = int n"
  using unat_of_nat_small [of n, where ?'a = 'a] by (metis uint_nat)

lemma unat_lt2p: "unat (w :: 'a::len word) < 2 ^ LENGTH('a)"
  by (rule unsigned_less)

section \<open>Strictly increasing lists\<close>

abbreviation strictly_sorted :: "'a::linorder list \<Rightarrow> bool" where
  "strictly_sorted \<equiv> sorted_wrt (<)"

lemma strictly_sorted_distinct: "strictly_sorted xs \<Longrightarrow> distinct xs"
  by (induction xs) auto

lemma strictly_sorted_append:
  "strictly_sorted (xs @ ys) \<longleftrightarrow>
     strictly_sorted xs \<and> strictly_sorted ys \<and> (\<forall>x \<in> set xs. \<forall>y \<in> set ys. x < y)"
  by (simp add: sorted_wrt_append)

section \<open>sort.Search\<close>

text \<open>The standard library's binary search, between \<open>i\<close> and \<open>j\<close>.\<close>

function search_from :: "(nat \<Rightarrow> bool) \<Rightarrow> nat \<Rightarrow> nat \<Rightarrow> nat" where
  "search_from f i j =
     (if i < j then let h = (i + j) div 2 in if \<not> f h then search_from f (h + 1) j else search_from f i h
      else i)"
  by pat_completeness auto
termination
  by (relation "measure (\<lambda>(f, i, j). j - i)") auto

declare search_from.simps [simp del]

definition sort_Search :: "nat \<Rightarrow> (nat \<Rightarrow> bool) \<Rightarrow> nat" where
  "sort_Search n f = search_from f 0 n"

lemma search_from_least:
  assumes "i \<le> j" and "\<And>a b. a \<le> b \<Longrightarrow> b < n \<Longrightarrow> f a \<Longrightarrow> f b" and "j \<le> n"
    and "\<And>k. k < i \<Longrightarrow> \<not> f k" and "j < n \<Longrightarrow> f j"
  shows "search_from f i j \<le> n \<and> (\<forall>k < search_from f i j. \<not> f k) \<and> (search_from f i j < n \<longrightarrow> f (search_from f i j))"
  using assms
proof (induction f i j rule: search_from.induct)
  case (1 f i j)
  show ?case
  proof (cases "i < j")
    case False
    then show ?thesis using "1.prems" by (simp add: search_from.simps)
  next
    case True
    let ?h = "(i + j) div 2"
    have h: "i \<le> ?h" "?h < j" using True by auto
    have eq: "search_from f i j = (if \<not> f ?h then search_from f (?h + 1) j else search_from f i ?h)"
      using True by (subst search_from.simps) (simp add: Let_def)
    show ?thesis
    proof (cases "f ?h")
      case f: True
      have "search_from f i j = search_from f i ?h" using eq f by simp
      then show ?thesis
        using "1.IH"(2)[OF True refl _ h(1) "1.prems"(2) _ "1.prems"(4)] f h(2) "1.prems"(3) by simp
    next
      case f: False
      have lo: "\<not> f k" if "k < ?h + 1" for k
        using "1.prems"(2)[of k ?h] that f h(2) "1.prems"(3) by linarith
      have "search_from f i j = search_from f (?h + 1) j" using eq f by simp
      then show ?thesis
        using "1.IH"(1)[OF True refl f _ "1.prems"(2,3) lo "1.prems"(5)] h(2) by simp
    qed
  qed
qed

text \<open>On a predicate that stays true once it is, the least place it holds at, or the end.\<close>

lemma sort_Search_least:
  assumes "\<And>a b. a \<le> b \<Longrightarrow> b < n \<Longrightarrow> f a \<Longrightarrow> f b"
  shows "sort_Search n f \<le> n" and "\<And>k. k < sort_Search n f \<Longrightarrow> \<not> f k"
    and "sort_Search n f < n \<Longrightarrow> f (sort_Search n f)"
  using search_from_least[of 0 n n f] assms by (auto simp: sort_Search_def)

lemma sort_Search_eq:
  assumes "\<And>a b. a \<le> b \<Longrightarrow> b < n \<Longrightarrow> f a \<Longrightarrow> f b" and "i \<le> n" and "\<And>k. k < i \<Longrightarrow> \<not> f k" and "i < n \<Longrightarrow> f i"
  shows "sort_Search n f = i"
proof -
  have l: "sort_Search n f \<le> n" "\<And>k. k < sort_Search n f \<Longrightarrow> \<not> f k" "sort_Search n f < n \<Longrightarrow> f (sort_Search n f)"
    using assms(1) by (rule sort_Search_least; blast)+
  show ?thesis
  proof (rule linorder_cases[of "sort_Search n f" i])
    assume "sort_Search n f < i"
    with l(3) assms(2) assms(3)[of "sort_Search n f"] show ?thesis by simp
  next
    assume "i < sort_Search n f"
    with l(1) l(2)[of i] assms(4) show ?thesis by simp
  qed
qed

end
