(* ===== verification/Wire.thy ===== *)
theory Wire
  imports Prelude
begin

text \<open>
  \<^verbatim>\<open>core/wire\<close>: the one place stored bytes are written and taken apart. A
  \<^verbatim>\<open>wire.Writer\<close> is the bytes appended so far, so each of its methods is the bytes it appends
  (\<open>put_...\<close>); a \<^verbatim>\<open>wire.Reader\<close> is a record of the buffer, the offset and the sticky first
  error (\<open>rd_...\<close>). The standard library's little-endian integers and unsigned varints are
  modelled with the Go definitions of \<^verbatim>\<open>encoding/binary\<close>.

  Two families of lemmas carry every decoder of the development: \<open>wire_simps\<close> rewrite a read of
  what the writer just wrote (\<open>rd_at pre (put_X v @ rest)\<close> is a reader standing after \<open>pre\<close>),
  and \<open>wire_dests\<close> say what a successful read consumed, byte for byte.
\<close>

section \<open>Fixed-width integers, little-endian\<close>

text \<open>\<^verbatim>\<open>binary.LittleEndian.AppendUint16/32/64\<close>: the low byte first.\<close>

primrec le_bytes :: "nat \<Rightarrow> 'a::len word \<Rightarrow> bytes" where
  "le_bytes 0 v = []"
| "le_bytes (Suc k) v = ucast v # le_bytes k (drop_bit 8 v)"

text \<open>\<^verbatim>\<open>binary.LittleEndian.Uint16/32/64\<close>.\<close>

primrec le_word :: "bytes \<Rightarrow> 'a::len word" where
  "le_word [] = 0"
| "le_word (b # bs) = ucast b OR push_bit 8 (le_word bs)"

lemma length_le_bytes [simp]: "length (le_bytes k v) = k"
  by (induction k arbitrary: v) auto

lemma le_word_le_bytes:
  "le_word (le_bytes k (v :: 'a::len word)) = take_bit (8 * k) v"
proof (induction k arbitrary: v)
  case 0
  show ?case by simp
next
  case (Suc k)
  show ?case
    by (rule bit_word_eqI) (auto simp: Suc.IH bit_simps not_less)
qed

lemma le_word_le_bytes_exact:
  "8 * k = LENGTH('a) \<Longrightarrow> le_word (le_bytes k (v :: 'a::len word)) = v"
  by (simp add: le_word_le_bytes)

lemma le_bytes_Nil_iff [simp]: "le_bytes k v = [] \<longleftrightarrow> k = 0"
  by (cases k) auto

lemma le_bytes_take_bit: "le_bytes k (take_bit (8 * k) (v :: 'a::len word)) = le_bytes k v"
proof (induction k arbitrary: v)
  case 0
  show ?case by simp
next
  case (Suc k)
  have head: "(ucast (take_bit (8 * Suc k) v) :: byte) = ucast v"
    by (rule bit_word_eqI) (auto simp: bit_simps)
  have tail: "drop_bit 8 (take_bit (8 * Suc k) v) = take_bit (8 * k) (drop_bit 8 v)"
    by (rule bit_word_eqI) (auto simp: bit_simps)
  show ?case
    by (simp only: le_bytes.simps head tail Suc.IH)
qed

lemma le_bytes_le_word:
  "8 * length bs \<le> LENGTH('a) \<Longrightarrow> le_bytes (length bs) (le_word bs :: 'a::len word) = bs"
proof (induction bs)
  case Nil
  show ?case by simp
next
  case (Cons b bs)
  let ?w = "le_word bs :: 'a word"
  have head: "(ucast (ucast b OR push_bit 8 ?w) :: byte) = b"
    using Cons.prems by (intro bit_word_eqI) (auto simp: bit_simps)
  have tail: "take_bit (8 * length bs) (drop_bit 8 (ucast b OR push_bit 8 ?w))
    = take_bit (8 * length bs) ?w"
    using Cons.prems by (intro bit_word_eqI) (auto simp: bit_simps dest: bit_imp_le_length)
  have "le_bytes (length bs) (drop_bit 8 (ucast b OR push_bit 8 ?w)) = bs"
    using Cons tail le_bytes_take_bit [of "length bs" "drop_bit 8 (ucast b OR push_bit 8 ?w)"]
      le_bytes_take_bit [of "length bs" ?w] by simp
  with head show ?case by simp
qed

section \<open>Unsigned varints\<close>

text \<open>\<^verbatim>\<open>binary.AppendUvarint\<close>: seven bits a byte, the low ones first, the top bit set on all but
  the last.\<close>

function put_Uvarint :: "u64 \<Rightarrow> bytes" where
  "put_Uvarint v =
     (if v < 0x80 then [ucast v] else (ucast v OR 0x80) # put_Uvarint (drop_bit 7 v))"
  by pat_completeness auto
termination
proof (relation "measure unat")
  fix v :: u64
  assume "\<not> v < 0x80"
  then have "128 \<le> unat v" by (simp add: word_less_nat_alt)
  moreover have "unat (drop_bit 7 v) = drop_bit 7 (unat v)" by (rule unat_drop_bit_eq)
  ultimately show "(drop_bit 7 v, v) \<in> measure unat"
    by (simp add: drop_bit_eq_div [of 7 "unat v"] del: drop_bit_numeral_minus_bit1)
qed simp

declare put_Uvarint.simps [simp del]

text \<open>\<^verbatim>\<open>binary.Uvarint\<close>: the value and how many bytes it took; 0 bytes when the buffer ends
  first, a negative count when the value overflows 64 bits.\<close>

fun go_Uvarint :: "nat \<Rightarrow> u64 \<Rightarrow> nat \<Rightarrow> bytes \<Rightarrow> u64 \<times> int" where
  "go_Uvarint i x s [] = (0, 0)"
| "go_Uvarint i x s (b # bs) =
     (if i = 10 then (0, - (int i + 1))
      else if b < 0x80 then
        (if i = 9 \<and> b > 1 then (0, - (int i + 1))
         else (x OR push_bit s (ucast b), int i + 1))
      else go_Uvarint (i + 1) (x OR push_bit s (ucast (b AND 0x7f))) (s + 7) bs)"

lemma put_Uvarint_nonempty [simp]: "put_Uvarint v \<noteq> []"
  by (subst put_Uvarint.simps) simp

text \<open>The continuation bit of a byte is bit 7.\<close>

lemma byte_less_0x80: "(b :: byte) < 0x80 \<longleftrightarrow> \<not> bit b 7"
proof -
  have "b < 0x80 \<longleftrightarrow> take_bit 7 b = b"
    by (simp add: take_bit_self_iff word_less_nat_alt)
  also have "\<dots> \<longleftrightarrow> \<not> bit b 7"
  proof
    assume eq: "take_bit 7 b = b"
    have "\<not> bit (take_bit 7 b) 7" by (simp add: bit_take_bit_iff)
    with eq show "\<not> bit b 7" by simp
  next
    assume nb: "\<not> bit b 7"
    show "take_bit 7 b = b"
    proof (rule bit_word_eqI)
      fix n assume "n < LENGTH(8)"
      then have "n < 7 \<or> n = 7" by auto
      with nb show "bit (take_bit 7 b) n \<longleftrightarrow> bit b n" by (auto simp: bit_take_bit_iff)
    qed
  qed
  finally show ?thesis .
qed

lemma bit_0x7f: "bit (0x7f :: byte) m \<longleftrightarrow> m < 7" "bit (0x7f :: int) m \<longleftrightarrow> m < 7"
  using bit_mask_iff [of 7 m, where ?'a = byte] bit_mask_iff [of 7 m, where ?'a = int]
  by (auto simp: mask_eq_exp_minus_1)

lemma bit_0x80: "bit (0x80 :: byte) m \<longleftrightarrow> m = 7" "bit (0x80 :: int) m \<longleftrightarrow> m = 7"
  using bit_exp_iff [of 7 m, where ?'a = byte] bit_exp_iff [of 7 m, where ?'a = int]
  by auto

lemma u64_ge_0x80:
  fixes v :: u64
  assumes v: "\<not> v < 0x80" and k: "take_bit k v = v"
  shows "7 < k"
proof (rule ccontr)
  assume "\<not> 7 < k"
  with k have "take_bit 7 v = v"
    using take_bit_take_bit [of 7 k v] by (simp add: min_def)
  then have "unat v < 2 ^ 7" by (simp only: take_bit_self_iff)
  with v show False by (simp add: word_less_nat_alt)
qed

lemma go_Uvarint_put:
  assumes "take_bit (64 - 7 * i) v = v" and "i \<le> 9" and "s = 7 * i"
  shows "go_Uvarint i x s (put_Uvarint v @ rest)
    = (x OR push_bit s v, int i + int (length (put_Uvarint v)))"
  using assms
proof (induction v arbitrary: i x s rule: put_Uvarint.induct)
  case (1 v)
  show ?case
  proof (cases "v < 0x80")
    case True
    have "unat v < 128" using True by (simp add: word_less_nat_alt)
    then have ub: "unat (ucast v :: byte) = unat v"
      by (intro unat_ucast_small) simp
    have small: "(ucast v :: byte) < 0x80"
      using ub True by (simp add: word_less_nat_alt)
    have bk: "(ucast (ucast v :: byte) :: u64) = v"
    proof (rule word_unat_eq_iff [THEN iffD2])
      show "unat (ucast (ucast v :: byte) :: u64) = unat v"
        using ub \<open>unat v < 128\<close> by (subst unat_ucast_small) simp_all
    qed
    have "\<not> (i = 9 \<and> (ucast v :: byte) > 1)"
    proof
      assume a: "i = 9 \<and> (ucast v :: byte) > 1"
      then have "take_bit 1 v = v" using "1.prems" by simp
      then have "unat v < 2 ^ 1" by (simp only: take_bit_self_iff)
      with a ub show False by (simp add: word_less_nat_alt)
    qed
    moreover have "put_Uvarint v = [ucast v]"
      using True by (subst put_Uvarint.simps) simp
    ultimately show ?thesis
      using small "1.prems"(2,3) bk by simp
  next
    case False
    have big: "7 < 64 - 7 * i" using u64_ge_0x80 [OF False "1.prems"(1)] .
    have tb: "take_bit (64 - 7 * (i + 1)) (drop_bit 7 v) = drop_bit 7 v"
      using arg_cong [OF "1.prems"(1), of "drop_bit 7"] by (simp add: drop_bit_take_bit algebra_simps)
    have hb: "\<not> ((ucast v OR 0x80) :: byte) < 0x80"
      by (simp add: byte_less_0x80 bit_simps)
    have glue: "x OR push_bit s (ucast ((ucast v OR 0x80 :: byte) AND 0x7f)) OR push_bit (s + 7) (drop_bit 7 v)
      = x OR push_bit s v"
    proof (rule bit_word_eqI)
      fix n
      assume n: "n < LENGTH(64)"
      consider "n < s" | c where "n = s + c" "c < 7" | c where "n = s + 7 + c"
        by (metis add_diff_inverse_nat add.assoc)
      then show "bit (x OR push_bit s (ucast ((ucast v OR 0x80 :: byte) AND 0x7f)) OR
          push_bit (s + 7) (drop_bit 7 v)) n \<longleftrightarrow> bit (x OR push_bit s v) n"
        using n by cases (auto simp: bit_simps bit_0x7f bit_0x80)
    qed
    have "i + 1 \<le> 9" using big by simp
    then have IH: "go_Uvarint (Suc i) x' (7 * i + 7) (put_Uvarint (drop_bit 7 v) @ rest)
      = (x' OR push_bit (7 * i + 7) (drop_bit 7 v), int (Suc i) + int (length (put_Uvarint (drop_bit 7 v))))" for x'
      using "1.IH" [OF False tb, of "s + 7" x'] "1.prems"(3) by simp
    have "put_Uvarint v = (ucast v OR 0x80) # put_Uvarint (drop_bit 7 v)"
      using False by (subst put_Uvarint.simps) simp
    moreover have "i \<noteq> 10" using "1.prems"(2) by simp
    ultimately show ?thesis
      using hb "1.prems"(3) glue by (simp add: IH or.assoc)
  qed
qed

text \<open>The other direction: a varint whose last byte is not a zero continuation group is the one
  \<open>put_Uvarint\<close> writes for its value.\<close>

lemma unat_ucast_byte: "unat (ucast (b :: byte) :: u64) = unat b"
proof (rule unat_ucast_small)
  have "unat b < 2 ^ LENGTH(8)" by (rule unsigned_less)
  then show "unat b < 2 ^ LENGTH(64)" by simp
qed

lemma ucast_u64_less_0x80: "(b :: byte) < 0x80 \<Longrightarrow> (ucast b :: u64) < 0x80"
  by (simp add: word_less_nat_alt unat_ucast_byte)

lemma put_Uvarint_group:
  assumes "\<not> (b :: byte) < 0x80" and "take_bit 57 (w :: u64) = w" and "w \<noteq> 0"
  shows "put_Uvarint (ucast (b AND 0x7f) OR push_bit 7 w) = b # put_Uvarint w"
proof -
  let ?v = "ucast (b AND 0x7f) OR push_bit 7 w"
  have b7: "bit b 7" using assms(1) by (simp add: byte_less_0x80)
  have hd: "(ucast ?v OR 0x80 :: byte) = b"
  proof (rule bit_word_eqI)
    fix n assume "n < LENGTH(8)"
    then have "n < 7 \<or> n = 7" by auto
    then show "bit (ucast ?v OR 0x80 :: byte) n \<longleftrightarrow> bit b n"
      using b7 by (auto simp: bit_simps bit_0x7f bit_0x80)
  qed
  have w57: "\<not> bit w n" if "57 \<le> n" for n
    using assms(2) that by (rule take_bit_self_bit)
  have tl: "drop_bit 7 ?v = w"
  proof (rule bit_word_eqI)
    fix n assume "n < LENGTH(64)"
    then show "bit (drop_bit 7 ?v) n \<longleftrightarrow> bit w n"
      using w57 [of n] by (cases "57 \<le> n") (auto simp: bit_simps bit_0x7f bit_0x80)
  qed
  have "\<not> ?v < 0x80"
  proof
    assume "?v < 0x80"
    then have "take_bit 7 ?v = ?v"
      by (intro take_bit_self_iff [THEN iffD2]) (simp add: word_less_nat_alt)
    then have "drop_bit 7 ?v = 0" by (rule take_bit_eq_self_iff_drop_bit_eq_0 [THEN iffD1])
    with tl assms(3) show False by simp
  qed
  then show ?thesis
    by (subst put_Uvarint.simps) (simp only: if_False hd tl)
qed

lemma go_Uvarint_inv:
  assumes "go_Uvarint i x s bs = (y, n)" and "0 < n" and "i \<le> 9" and "s = 7 * i"
  obtains v k where "y = x OR push_bit s v" and "take_bit (64 - 7 * i) v = v"
    and "n = int i + int (Suc k)" and "k < length bs"
    and "k = 0 \<or> bs ! k \<noteq> 0 \<Longrightarrow> take (Suc k) bs = put_Uvarint v \<and> (k = 0 \<or> v \<noteq> 0)"
  using assms
proof (induction bs arbitrary: i x s thesis)
  case Nil
  then show ?case by simp
next
  case (Cons b bs)
  show ?case
  proof (cases "b < 0x80")
    case True
    have ub: "unat (ucast b :: u64) = unat b" by (rule unat_ucast_byte)
    have "unat b < 128" using True by (simp add: word_less_nat_alt)
    moreover have "unat b \<le> 1" if "i = 9"
      using Cons.prems(2,3) that True by (auto simp: not_less word_le_nat_alt split: if_splits)
    ultimately have "unat (ucast b :: u64) < 2 ^ (64 - 7 * i)"
    proof (cases "i = 9")
      case True
      with \<open>i = 9 \<Longrightarrow> unat b \<le> 1\<close> ub show ?thesis by simp
    next
      case False
      with Cons.prems(4) have "7 \<le> 64 - 7 * i" by simp
      then have "(2 :: nat) ^ 7 \<le> 2 ^ (64 - 7 * i)" by (rule power_increasing) simp
      with \<open>unat b < 128\<close> ub show ?thesis by simp
    qed
    then have tb: "take_bit (64 - 7 * i) (ucast b :: u64) = ucast b"
      by (simp only: take_bit_self_iff)
    have "put_Uvarint (ucast b) = [ucast (ucast b :: u64)]"
      using ucast_u64_less_0x80 [OF True] by (subst put_Uvarint.simps) simp
    also have "ucast (ucast b :: u64) = b"
      by (rule bit_word_eqI) (auto simp: bit_simps)
    finally have pu: "put_Uvarint (ucast b) = [b]" .
    show ?thesis
      by (rule Cons.prems(1) [of "ucast b" 0])
        (use Cons.prems True tb pu in \<open>auto split: if_splits\<close>)
  next
    case False
    let ?x = "x OR push_bit s (ucast (b AND 0x7f))"
    from Cons.prems False have rec: "go_Uvarint (i + 1) ?x (s + 7) bs = (y, n)" and "i \<noteq> 10"
      by (auto split: if_splits)
    then have "i + 1 \<le> 9"
      using Cons.prems(2-5) False by (cases "i = 9"; cases bs) auto
    from Cons.IH [OF _ rec Cons.prems(3) this] Cons.prems(5)
    obtain v k where v: "y = ?x OR push_bit (s + 7) v" "take_bit (64 - 7 * (i + 1)) v = v"
      "n = int (i + 1) + int (Suc k)" "k < length bs"
      "k = 0 \<or> bs ! k \<noteq> 0 \<Longrightarrow> take (Suc k) bs = put_Uvarint v \<and> (k = 0 \<or> v \<noteq> 0)"
      by auto
    let ?v = "ucast (b AND 0x7f) OR push_bit 7 v"
    have high: "\<not> bit v m" if "57 - 7 * i \<le> m" for m
      using v(2) that by (intro take_bit_self_bit [of "64 - 7 * (i + 1)"]) auto
    show ?thesis
    proof (rule Cons.prems(1) [of ?v "Suc k"])
      show "y = x OR push_bit s ?v"
        by (simp add: v(1) push_bit_or or.assoc add.commute)
    next
      show "take_bit (64 - 7 * i) ?v = ?v"
      proof (rule bit_word_eqI)
        fix m
        show "bit (take_bit (64 - 7 * i) ?v) m \<longleftrightarrow> bit ?v m"
          using high [of "m - 7"] \<open>i + 1 \<le> 9\<close>
          by (cases "64 - 7 * i \<le> m") (auto simp: bit_simps bit_0x7f)
      qed
    next
      show "n = int i + int (Suc (Suc k))" using v(3) by simp
    next
      show "Suc k < length (b # bs)" using v(4) by simp
    next
      assume "Suc k = 0 \<or> (b # bs) ! Suc k \<noteq> 0"
      then have nz: "bs ! k \<noteq> 0" by simp
      with v(5) have tk: "take (Suc k) bs = put_Uvarint v" and "k = 0 \<or> v \<noteq> 0" by auto
      have "v \<noteq> 0"
      proof
        assume "v = 0"
        moreover have "put_Uvarint 0 = [0]" by (subst put_Uvarint.simps) simp
        ultimately show False
          using \<open>k = 0 \<or> v \<noteq> 0\<close> tk nz v(4) by (cases bs) auto
      qed
      moreover have "take_bit 57 v = v"
      proof (rule bit_word_eqI)
        fix m
        show "bit (take_bit 57 v) m \<longleftrightarrow> bit v m"
          using high [of m] by (cases "57 \<le> m") (auto simp: bit_simps)
      qed
      ultimately have g: "put_Uvarint ?v = b # put_Uvarint v"
        using False by (intro put_Uvarint_group)
      have "?v \<noteq> 0"
      proof
        assume "?v = 0"
        moreover have "put_Uvarint 0 = [0]" by (subst put_Uvarint.simps) simp
        ultimately have "[0] = b # put_Uvarint v" using g by metis
        then show False by (metis list.inject put_Uvarint_nonempty)
      qed
      with g tk show "take (Suc (Suc k)) (b # bs) = put_Uvarint ?v \<and> (Suc k = 0 \<or> ?v \<noteq> 0)"
        by simp
    qed
  qed
qed

lemma last_put_Uvarint: "1 < length (put_Uvarint v) \<Longrightarrow> last (put_Uvarint v) \<noteq> 0"
proof (induction v rule: put_Uvarint.induct)
  case (1 v)
  then have big: "\<not> v < 0x80" by (auto simp: put_Uvarint.simps [of v])
  then have eq: "put_Uvarint v = (ucast v OR 0x80) # put_Uvarint (drop_bit 7 v)"
    by (subst put_Uvarint.simps) simp
  show ?case
  proof (cases "drop_bit 7 v < 0x80")
    case True
    have "drop_bit 7 v \<noteq> 0"
      using big take_bit_eq_self_iff_drop_bit_eq_0 [of 7 v]
      by (simp add: take_bit_self_iff word_less_nat_alt)
    moreover have "put_Uvarint (drop_bit 7 v) = [ucast (drop_bit 7 v)]"
      using True by (subst put_Uvarint.simps) simp
    moreover have "unat (ucast (drop_bit 7 v) :: byte) = unat (drop_bit 7 v)"
      using True by (intro unat_ucast_small) (simp add: word_less_nat_alt)
    ultimately show ?thesis by (simp add: eq unat_eq_zero [symmetric] del: unat_eq_zero)
  next
    case False
    then have "1 < length (put_Uvarint (drop_bit 7 v))"
      by (subst put_Uvarint.simps) (simp add: Suc_le_eq)
    with "1.IH" [OF big] eq show ?thesis by simp
  qed
qed

section \<open>The writer\<close>

definition put_U8 :: "byte \<Rightarrow> bytes" where
  "put_U8 v = [v]"

definition put_U16 :: "u16 \<Rightarrow> bytes" where
  "put_U16 v = le_bytes 2 v"

definition put_U32 :: "u32 \<Rightarrow> bytes" where
  "put_U32 v = le_bytes 4 v"

definition put_U64 :: "u64 \<Rightarrow> bytes" where
  "put_U64 v = le_bytes 8 v"

text \<open>\<^verbatim>\<open>w.LenBytes(b)\<close>: the length as a varint, then the bytes; \<^verbatim>\<open>w.Raw(b)\<close> is \<open>b\<close> itself.\<close>

definition put_LenBytes :: "bytes \<Rightarrow> bytes" where
  "put_LenBytes b = put_Uvarint (of_nat (length b)) @ b"

section \<open>The reader\<close>

datatype wire_err = ErrShort | ErrTooLong | ErrVarint | ErrTrailing | ErrNegativeLen

record reader =
  rd_b :: bytes
  rd_off :: nat
  rd_err :: "wire_err option"

definition NewReader :: "bytes \<Rightarrow> reader" where
  "NewReader b = \<lparr>rd_b = b, rd_off = 0, rd_err = None\<rparr>"

text \<open>A nil slice and an empty one are both \<open>[]\<close>: no caller tells them apart.\<close>

definition rd_Fixed :: "int \<Rightarrow> reader \<Rightarrow> bytes \<times> reader" where
  "rd_Fixed n r =
     (if rd_err r \<noteq> None then ([], r)
      else if n < 0 then ([], r\<lparr>rd_err := Some ErrNegativeLen\<rparr>)
      else if n > int (length (rd_b r)) - int (rd_off r) then ([], r\<lparr>rd_err := Some ErrShort\<rparr>)
      else (take (nat n) (drop (rd_off r) (rd_b r)), r\<lparr>rd_off := rd_off r + nat n\<rparr>))"

definition rd_U8 :: "reader \<Rightarrow> byte \<times> reader" where
  "rd_U8 r = (let (b, r') = rd_Fixed 1 r in (case b of [] \<Rightarrow> 0 | x # _ \<Rightarrow> x, r'))"

definition rd_U16 :: "reader \<Rightarrow> u16 \<times> reader" where
  "rd_U16 r = (let (b, r') = rd_Fixed 2 r in (if b = [] then 0 else le_word b, r'))"

definition rd_U32 :: "reader \<Rightarrow> u32 \<times> reader" where
  "rd_U32 r = (let (b, r') = rd_Fixed 4 r in (if b = [] then 0 else le_word b, r'))"

definition rd_U64 :: "reader \<Rightarrow> u64 \<times> reader" where
  "rd_U64 r = (let (b, r') = rd_Fixed 8 r in (if b = [] then 0 else le_word b, r'))"

definition rd_Uvarint :: "reader \<Rightarrow> u64 \<times> reader" where
  "rd_Uvarint r =
     (if rd_err r \<noteq> None then (0, r)
      else let (v, n) = go_Uvarint 0 0 0 (drop (rd_off r) (rd_b r)) in
        if n = 0 then (0, r\<lparr>rd_err := Some ErrShort\<rparr>)
        else if n < 0 then (0, r\<lparr>rd_err := Some ErrVarint\<rparr>)
        else if n > 1 \<and> rd_b r ! (rd_off r + nat n - 1) = 0 then (0, r\<lparr>rd_err := Some ErrVarint\<rparr>)
        else (v, r\<lparr>rd_off := rd_off r + nat n\<rparr>))"

definition rd_LenBytes :: "int \<Rightarrow> reader \<Rightarrow> bytes \<times> reader" where
  "rd_LenBytes mx r =
     (let (n, r') = rd_Uvarint r in
        if rd_err r' \<noteq> None then ([], r')
        else if n > word_of_int mx then ([], r'\<lparr>rd_err := Some ErrTooLong\<rparr>)
        else rd_Fixed (sint n) r')"

definition rd_Remaining :: "reader \<Rightarrow> int" where
  "rd_Remaining r = int (length (rd_b r)) - int (rd_off r)"

definition rd_Done :: "reader \<Rightarrow> wire_err option" where
  "rd_Done r =
     (if rd_err r \<noteq> None then rd_err r
      else if rd_off r \<noteq> length (rd_b r) then Some ErrTrailing
      else None)"

subsection \<open>Reading what was written\<close>

text \<open>A reader with no error that has read \<open>pre\<close> and has \<open>rest\<close> before it.\<close>

definition rd_at :: "bytes \<Rightarrow> bytes \<Rightarrow> reader" where
  "rd_at pre rest = \<lparr>rd_b = pre @ rest, rd_off = length pre, rd_err = None\<rparr>"

lemma NewReader_at: "NewReader b = rd_at [] b"
  by (simp add: NewReader_def rd_at_def)

lemma rd_err_at [simp]: "rd_err (rd_at pre rest) = None"
  by (simp add: rd_at_def)

lemma rd_Done_at [wire_simps]: "rd_Done (rd_at pre rest) = None \<longleftrightarrow> rest = []"
  by (simp add: rd_Done_def rd_at_def)

lemma rd_Fixed_at [wire_simps]:
  "int (length bs) = n \<Longrightarrow> rd_Fixed n (rd_at pre (bs @ rest)) = (bs, rd_at (pre @ bs) rest)"
  "int (length bs) = n \<Longrightarrow> rd_Fixed n (rd_at pre bs) = (bs, rd_at (pre @ bs) [])"
  by (auto simp: rd_Fixed_def rd_at_def)

lemma rd_U8_at [wire_simps]:
  "rd_U8 (rd_at pre (put_U8 v @ rest)) = (v, rd_at (pre @ put_U8 v) rest)"
  "rd_U8 (rd_at pre (put_U8 v)) = (v, rd_at (pre @ put_U8 v) [])"
  using rd_Fixed_at [of "[v]" 1 pre] by (simp_all add: rd_U8_def put_U8_def)

lemma rd_U16_at [wire_simps]:
  "rd_U16 (rd_at pre (put_U16 v @ rest)) = (v, rd_at (pre @ put_U16 v) rest)"
  "rd_U16 (rd_at pre (put_U16 v)) = (v, rd_at (pre @ put_U16 v) [])"
  by (simp_all add: rd_U16_def rd_Fixed_at put_U16_def le_word_le_bytes_exact)

lemma rd_U32_at [wire_simps]:
  "rd_U32 (rd_at pre (put_U32 v @ rest)) = (v, rd_at (pre @ put_U32 v) rest)"
  "rd_U32 (rd_at pre (put_U32 v)) = (v, rd_at (pre @ put_U32 v) [])"
  by (simp_all add: rd_U32_def rd_Fixed_at put_U32_def le_word_le_bytes_exact)

lemma rd_U64_at [wire_simps]:
  "rd_U64 (rd_at pre (put_U64 v @ rest)) = (v, rd_at (pre @ put_U64 v) rest)"
  "rd_U64 (rd_at pre (put_U64 v)) = (v, rd_at (pre @ put_U64 v) [])"
  by (simp_all add: rd_U64_def rd_Fixed_at put_U64_def le_word_le_bytes_exact)

lemma rd_Uvarint_at [wire_simps]:
  "rd_Uvarint (rd_at pre (put_Uvarint v @ rest)) = (v, rd_at (pre @ put_Uvarint v) rest)"
  "rd_Uvarint (rd_at pre (put_Uvarint v)) = (v, rd_at (pre @ put_Uvarint v) [])"
proof -
  show first: "rd_Uvarint (rd_at pre (put_Uvarint v @ rest)) = (v, rd_at (pre @ put_Uvarint v) rest)"
    for rest
  proof -
    have go: "go_Uvarint 0 0 0 (put_Uvarint v @ rest) = (v, int (length (put_Uvarint v)))"
      using go_Uvarint_put [of 0 v 0 0 rest] take_bit_length_eq [of v] by simp
    have "last (put_Uvarint v) \<noteq> 0" if "1 < length (put_Uvarint v)"
      using that by (rule last_put_Uvarint)
    then have "(pre @ put_Uvarint v @ rest) ! (length pre + length (put_Uvarint v) - 1) \<noteq> 0"
      if "1 < length (put_Uvarint v)"
      using that by (auto simp: nth_append last_conv_nth)
    with go show ?thesis
      by (auto simp: rd_Uvarint_def rd_at_def Let_def)
  qed
  show "rd_Uvarint (rd_at pre (put_Uvarint v)) = (v, rd_at (pre @ put_Uvarint v) [])"
    using first [of "[]"] by simp
qed

lemma rd_LenBytes_at [wire_simps]:
  assumes "int (length bs) \<le> mx" and "mx < 2 ^ 63"
  shows "rd_LenBytes mx (rd_at pre (put_LenBytes bs @ rest)) = (bs, rd_at (pre @ put_LenBytes bs) rest)"
    and "rd_LenBytes mx (rd_at pre (put_LenBytes bs)) = (bs, rd_at (pre @ put_LenBytes bs) [])"
proof -
  let ?n = "of_nat (length bs) :: u64"
  have un: "uint ?n = int (length bs)"
    using assms by (intro uint_of_nat_small) simp
  have le: "\<not> ?n > word_of_int mx"
    using assms un by (simp add: word_less_def uint_word_of_int)
  have s: "sint ?n = int (length bs)"
    using assms un by (simp add: sint_uint signed_take_bit_int_eq_self)
  show "rd_LenBytes mx (rd_at pre (put_LenBytes bs @ rest)) = (bs, rd_at (pre @ put_LenBytes bs) rest)"
    for rest
    using le s by (simp add: rd_LenBytes_def put_LenBytes_def rd_Uvarint_at rd_Fixed_at)
  from this [of "[]"]
  show "rd_LenBytes mx (rd_at pre (put_LenBytes bs)) = (bs, rd_at (pre @ put_LenBytes bs) [])"
    by simp
qed

subsection \<open>What a successful read consumed\<close>

definition rd_rest :: "reader \<Rightarrow> bytes" where
  "rd_rest r = drop (rd_off r) (rd_b r)"

text \<open>\<open>r'\<close> is \<open>r\<close> after reading exactly \<open>bs\<close>, with no error before or after.\<close>

definition rd_took :: "reader \<Rightarrow> bytes \<Rightarrow> reader \<Rightarrow> bool" where
  "rd_took r bs r' \<longleftrightarrow>
     rd_err r = None \<and> rd_err r' = None \<and> rd_b r' = rd_b r \<and>
     rd_off r' = rd_off r + length bs \<and> rd_off r' \<le> length (rd_b r) \<and>
     rd_rest r = bs @ rd_rest r'"

lemma rd_tookD: "rd_took r bs r' \<Longrightarrow> rd_err r = None \<and> rd_err r' = None"
  by (simp add: rd_took_def)

lemma rd_took_trans [trans]: "rd_took r a r' \<Longrightarrow> rd_took r' b r'' \<Longrightarrow> rd_took r (a @ b) r''"
  by (simp add: rd_took_def)

lemma rd_took_all: "rd_took (NewReader b) bs r \<Longrightarrow> rd_Done r = None \<Longrightarrow> b = bs"
proof -
  assume t: "rd_took (NewReader b) bs r" and d: "rd_Done r = None"
  from d have "rd_rest r = []"
    by (simp add: rd_Done_def rd_rest_def split: if_splits)
  moreover have "rd_rest (NewReader b) = bs @ rd_rest r"
    using t unfolding rd_took_def by blast
  moreover have "rd_rest (NewReader b) = b"
    by (simp add: rd_rest_def NewReader_def)
  ultimately show "b = bs" by simp
qed

lemma rd_Done_NoneD: "rd_Done r = None \<Longrightarrow> rd_err r = None"
  by (auto simp: rd_Done_def split: if_splits)

lemma rd_Fixed_took [wire_dests]:
  assumes "rd_Fixed n r = (bs, r')" and "rd_err r' = None"
  shows "rd_took r bs r' \<and> int (length bs) = n"
proof -
  from assms have ok: "rd_err r = None" "0 \<le> n" "\<not> n > int (length (rd_b r)) - int (rd_off r)"
    by (auto simp: rd_Fixed_def split: if_splits)
  with assms have bs: "bs = take (nat n) (drop (rd_off r) (rd_b r))"
    and r': "r' = r\<lparr>rd_off := rd_off r + nat n\<rparr>"
    by (auto simp: rd_Fixed_def split: if_splits)
  have "length bs = nat n" using ok bs by auto
  moreover have "rd_rest r = bs @ drop (nat n + rd_off r) (rd_b r)"
    unfolding rd_rest_def bs by (metis append_take_drop_id drop_drop)
  ultimately show ?thesis
    using ok r' by (auto simp: rd_took_def rd_rest_def add.commute)
qed

lemma rd_U8_took [wire_dests]:
  assumes "rd_U8 r = (v, r')" and "rd_err r' = None"
  shows "rd_took r (put_U8 v) r'"
proof -
  obtain b where b: "rd_Fixed 1 r = (b, r')" and v: "v = (case b of [] \<Rightarrow> 0 | x # _ \<Rightarrow> x)"
    using assms(1) by (auto simp: rd_U8_def split: prod.splits)
  from rd_Fixed_took [OF b assms(2)] v show ?thesis
    by (cases b) (auto simp: put_U8_def)
qed

lemma rd_le_took:
  assumes "rd_Fixed (int k) r = (b, r')" and "rd_err r' = None" and "8 * k = LENGTH('a)"
  shows "rd_took r (le_bytes k (le_word b :: 'a::len word)) r'"
  using rd_Fixed_took [OF assms(1,2)] assms(3) le_bytes_le_word [of b, where ?'a = 'a] by auto

lemma rd_U16_took [wire_dests]:
  assumes "rd_U16 r = (v, r')" and "rd_err r' = None"
  shows "rd_took r (put_U16 v) r'"
proof -
  obtain b where b: "rd_Fixed 2 r = (b, r')" and v: "v = (if b = [] then 0 else le_word b)"
    using assms(1) by (auto simp: rd_U16_def split: prod.splits)
  with rd_le_took [of 2 r b r', where ?'a = 16] rd_Fixed_took [OF b assms(2)] assms(2)
  show ?thesis by (auto simp: put_U16_def)
qed

lemma rd_U32_took [wire_dests]:
  assumes "rd_U32 r = (v, r')" and "rd_err r' = None"
  shows "rd_took r (put_U32 v) r'"
proof -
  obtain b where b: "rd_Fixed 4 r = (b, r')" and v: "v = (if b = [] then 0 else le_word b)"
    using assms(1) by (auto simp: rd_U32_def split: prod.splits)
  with rd_le_took [of 4 r b r', where ?'a = 32] rd_Fixed_took [OF b assms(2)] assms(2)
  show ?thesis by (auto simp: put_U32_def)
qed

lemma rd_U64_took [wire_dests]:
  assumes "rd_U64 r = (v, r')" and "rd_err r' = None"
  shows "rd_took r (put_U64 v) r'"
proof -
  obtain b where b: "rd_Fixed 8 r = (b, r')" and v: "v = (if b = [] then 0 else le_word b)"
    using assms(1) by (auto simp: rd_U64_def split: prod.splits)
  with rd_le_took [of 8 r b r', where ?'a = 64] rd_Fixed_took [OF b assms(2)] assms(2)
  show ?thesis by (auto simp: put_U64_def)
qed

lemma rd_Uvarint_took [wire_dests]:
  assumes "rd_Uvarint r = (v, r')" and "rd_err r' = None"
  shows "rd_took r (put_Uvarint v) r'"
proof -
  obtain y n where go: "go_Uvarint 0 0 0 (rd_rest r) = (y, n)" by fastforce
  with assms have ok: "rd_err r = None" "0 < n" "v = y" "r' = r\<lparr>rd_off := rd_off r + nat n\<rparr>"
    "n > 1 \<Longrightarrow> rd_b r ! (rd_off r + nat n - 1) \<noteq> 0"
    by (auto simp: rd_Uvarint_def rd_rest_def Let_def split: if_splits)
  from go_Uvarint_inv [OF go ok(2)] obtain k
    where k: "n = int (Suc k)" "k < length (rd_rest r)"
      "k = 0 \<or> rd_rest r ! k \<noteq> 0 \<Longrightarrow> take (Suc k) (rd_rest r) = put_Uvarint v"
    using ok(3) by (auto simp: or_eq_0_iff)
  have "k = 0 \<or> rd_rest r ! k \<noteq> 0"
    using ok(5) k(1,2) by (cases k) (auto simp: rd_rest_def nat_add_distrib)
  with k(3) have tk: "take (Suc k) (rd_rest r) = put_Uvarint v" by blast
  then have "length (put_Uvarint v) = Suc k" using k(2) by (metis Suc_leI length_take min.absorb2)
  moreover have "rd_rest r = put_Uvarint v @ rd_rest r'"
    using tk ok(4) k(1) by (metis append_take_drop_id drop_drop add.commute nat_int rd_rest_def
        reader.select_convs(1,2) reader.simps(5) reader.surjective reader.update_convs(2))
  moreover have "rd_off r + Suc k \<le> length (rd_b r)"
    using k(2) by (simp add: rd_rest_def)
  moreover have "nat n = Suc k" using k(1) by simp
  ultimately show ?thesis
    using ok(1,4) by (simp add: rd_took_def)
qed

lemma rd_LenBytes_took [wire_dests]:
  assumes "rd_LenBytes mx r = (bs, r')" and "rd_err r' = None" and "0 \<le> mx" and "mx < 2 ^ 63"
  shows "rd_took r (put_LenBytes bs) r' \<and> int (length bs) \<le> mx"
proof -
  obtain n r1 where n: "rd_Uvarint r = (n, r1)" by fastforce
  with assms have ok: "rd_err r1 = None" "\<not> n > word_of_int mx" "rd_Fixed (sint n) r1 = (bs, r')"
    by (auto simp: rd_LenBytes_def split: if_splits)
  note t1 = rd_Uvarint_took [OF n ok(1)] and t2 = rd_Fixed_took [OF ok(3) assms(2)]
  have "uint n \<le> mx"
    using ok(2) assms(3,4) by (simp add: word_less_def uint_word_of_int)
  moreover from this assms(4) have "signed_take_bit 63 (uint n) = uint n"
    by (intro signed_take_bit_int_eq_self) (auto intro: order_trans [OF _ uint_ge_0])
  then have "sint n = uint n" by (simp add: sint_uint)
  moreover from this t2 have "n = of_nat (length bs)"
    by (metis of_int_of_nat_eq word_of_int_uint)
  ultimately show ?thesis
    using rd_took_trans [OF t1 conjunct1 [OF t2]] t2 by (simp add: put_LenBytes_def)
qed

section \<open>Repeated fields\<close>

text \<open>
  The decoders' loop \<^verbatim>\<open>for i := 0; i < n; i++ { read one item, check it, append it }\<close> with a value
  carried from item to item (the sum so far, the last key).
\<close>

primrec rd_loop ::
    "('t \<Rightarrow> reader \<Rightarrow> 'e + ('a \<times> 't \<times> reader)) \<Rightarrow> nat \<Rightarrow> 't \<Rightarrow> reader \<Rightarrow> 'e + ('a list \<times> 't \<times> reader)" where
  "rd_loop step 0 = (\<lambda>t r. Inr ([], t, r))"
| "rd_loop step (Suc n) = (\<lambda>t r.
     rbind (step t r) (\<lambda>(x, t, r). rbind (rd_loop step n t r) (\<lambda>(xs, t, r). Inr (x # xs, t, r))))"

text \<open>Every item is allowed after the ones before it.\<close>

primrec chain_ok :: "('t \<Rightarrow> 'a \<Rightarrow> bool) \<Rightarrow> ('t \<Rightarrow> 'a \<Rightarrow> 't) \<Rightarrow> 't \<Rightarrow> 'a list \<Rightarrow> bool" where
  "chain_ok P nxt t [] = True"
| "chain_ok P nxt t (x # xs) = (P t x \<and> chain_ok P nxt (nxt t x) xs)"

lemma chain_ok_append:
  "chain_ok P nxt t (xs @ ys) \<longleftrightarrow> chain_ok P nxt t xs \<and> chain_ok P nxt (foldl nxt t xs) ys"
  by (induction xs arbitrary: t) auto

lemma rd_loop_at:
  assumes step: "\<And>t x pre rest. P t x \<Longrightarrow>
      step t (rd_at pre (enc x @ rest)) = Inr (x, nxt t x, rd_at (pre @ enc x) rest)"
    and ok: "chain_ok P nxt t xs"
  shows "rd_loop step (length xs) t (rd_at pre (concat (map enc xs) @ rest)) =
      Inr (xs, foldl nxt t xs, rd_at (pre @ concat (map enc xs)) rest)"
  using ok
proof (induction xs arbitrary: t pre)
  case (Cons x xs)
  then show ?case
    using step[of t x pre "concat (map enc xs) @ rest"] by simp
qed simp

text \<open>A reader with no error, inside its bytes.\<close>

definition rd_ok :: "reader \<Rightarrow> bool" where
  "rd_ok r \<longleftrightarrow> rd_err r = None \<and> rd_off r \<le> length (rd_b r)"

lemma rd_ok_NewReader [simp]: "rd_ok (NewReader b)"
  by (simp add: rd_ok_def NewReader_def)

lemma rd_took_ok: "rd_took r bs r' \<Longrightarrow> rd_ok r'"
  by (simp add: rd_took_def rd_ok_def)

lemma rd_took_Nil [simp]: "rd_ok r \<Longrightarrow> rd_took r [] r"
  by (simp add: rd_took_def rd_ok_def)

lemma rd_loop_took:
  assumes step: "\<And>t r x t' r'. step t r = Inr (x, t', r') \<Longrightarrow> rd_took r (enc x) r' \<and> P t x \<and> t' = nxt t x"
    and loop: "rd_loop step n t r = Inr (xs, t', r')" and ok: "rd_ok r"
  shows "rd_took r (concat (map enc xs)) r' \<and> chain_ok P nxt t xs \<and> length xs = n \<and> t' = foldl nxt t xs"
  using loop ok
proof (induction n arbitrary: t r xs)
  case (Suc n)
  then obtain x t1 r1 ys where x: "step t r = Inr (x, t1, r1)"
    and ys: "rd_loop step n t1 r1 = Inr (ys, t', r')" "xs = x # ys"
    by (auto simp: result_simps)
  note s = step[OF x]
  from Suc.IH[OF ys(1)] s have "rd_took r1 (concat (map enc ys)) r' \<and> chain_ok P nxt t1 ys \<and> length ys = n
      \<and> t' = foldl nxt t1 ys"
    using rd_took_ok by blast
  then show ?case using s ys(2) rd_took_trans[of r "enc x" r1] by auto
qed auto

section \<open>Lengths of varints\<close>

lemma uvarint_step: "0x80 \<le> (v :: u64) \<Longrightarrow> put_Uvarint v = (ucast v OR 0x80) # put_Uvarint (drop_bit 7 v)"
  by (subst put_Uvarint.simps) (simp flip: not_le)

lemma length_uvarint_bound: "unat v < 128 ^ k \<Longrightarrow> 0 < k \<Longrightarrow> length (put_Uvarint v) \<le> k"
proof (induction k arbitrary: v)
  case (Suc k)
  show ?case
  proof (cases "v < 0x80")
    case True
    then show ?thesis by (simp add: put_Uvarint.simps[of v])
  next
    case False
    then have "128 \<le> unat v" by (simp add: word_less_nat_alt)
    then have "0 < k" using Suc.prems by (cases k) auto
    moreover have "unat (drop_bit 7 v) = unat v div 2 ^ 7" by (simp add: drop_bit_eq_div unat_div)
    then have "unat (drop_bit 7 v) < 128 ^ k" using Suc.prems(1) by (simp add: less_mult_imp_div_less mult.commute)
    ultimately show ?thesis using Suc.IH[of "drop_bit 7 v"] uvarint_step[of v] False by simp
  qed
qed simp

end
