(* ===== verification/Hash.thy ===== *)
theory Hash
  imports Wire
begin

text \<open>
  \<^verbatim>\<open>core/hash\<close>: chunk identity. A \<^verbatim>\<open>hash.Hash\<close> (a \<^verbatim>\<open>[32]byte\<close>) is the type \<open>hash\<close> of byte
  lists of length 32, ordered bytewise; \<^verbatim>\<open>copy(h[:], b)\<close> is \<open>copy_hash b\<close>. \<^verbatim>\<open>hash.Sum\<close> goes
  through \<^verbatim>\<open>core/dnx\<close> to the disknexus module, which is not in the repository: it is the
  parameter \<open>H\<close> (of type \<open>bytes \<Rightarrow> hash\<close>) of every definition of the development that hashes.
\<close>

typedef hash = "{bs :: bytes. length bs = 32}"
  morphisms hbytes Abs_hash
  by (rule exI [of _ "replicate 32 0"]) simp

definition copy_hash :: "bytes \<Rightarrow> hash" where
  "copy_hash bs = Abs_hash (copy_into 32 bs)"

lemma length_hbytes [simp]: "length (hbytes h) = 32"
  using hbytes [of h] by simp

lemma hbytes_copy_hash [simp, code abstract]: "hbytes (copy_hash bs) = copy_into 32 bs"
  by (simp add: copy_hash_def Abs_hash_inverse)

lemma Abs_hash_hbytes [code abstype]: "Abs_hash (hbytes h) = h"
  by (rule hbytes_inverse)

lemma copy_hash_hbytes [simp]: "copy_hash (hbytes h) = h"
  by (simp add: copy_hash_def hbytes_inverse)

lemma hash_eq_iff: "h = k \<longleftrightarrow> hbytes h = hbytes k"
  by (simp add: hbytes_inject)

lemma copy_hash_inject: "copy_hash a = copy_hash b \<longleftrightarrow> copy_into 32 a = copy_into 32 b"
  by (simp add: hash_eq_iff)

instantiation hash :: equal
begin

definition equal_hash :: "hash \<Rightarrow> hash \<Rightarrow> bool" where
  "equal_hash h k \<longleftrightarrow> hbytes h = hbytes k"

instance
  by standard (simp add: equal_hash_def hash_eq_iff)

end

text \<open>\<^verbatim>\<open>h.Compare(o)\<close>: bytewise.\<close>

instantiation hash :: linorder
begin

definition less_eq_hash :: "hash \<Rightarrow> hash \<Rightarrow> bool" where
  "less_eq_hash h k \<longleftrightarrow> hbytes h \<le> hbytes k"

definition less_hash :: "hash \<Rightarrow> hash \<Rightarrow> bool" where
  "less_hash h k \<longleftrightarrow> hbytes h < hbytes k"

instance
  by standard (auto simp: less_eq_hash_def less_hash_def hash_eq_iff)

end

definition zero_hash :: hash where
  "zero_hash = copy_hash []"

definition IsZero :: "hash \<Rightarrow> bool" where
  "IsZero h \<longleftrightarrow> h = zero_hash"

section \<open>Hexadecimal text\<close>

text \<open>\<^verbatim>\<open>hex.EncodeToString\<close> and \<^verbatim>\<open>hex.Decode\<close> of the standard library.\<close>

definition hex_digit :: "byte \<Rightarrow> byte" where
  "hex_digit n = (if n < 10 then 0x30 + n else 0x57 + n)"

definition hex_byte :: "byte \<Rightarrow> bytes" where
  "hex_byte b = [hex_digit (drop_bit 4 b), hex_digit (b AND 0x0f)]"

definition hex_encode :: "bytes \<Rightarrow> bytes" where
  "hex_encode bs = concat (map hex_byte bs)"

definition from_hex_char :: "byte \<Rightarrow> byte option" where
  "from_hex_char c =
     (if 0x30 \<le> c \<and> c \<le> 0x39 then Some (c - 0x30)
      else if 0x61 \<le> c \<and> c \<le> 0x66 then Some (c - 0x61 + 10)
      else if 0x41 \<le> c \<and> c \<le> 0x46 then Some (c - 0x41 + 10)
      else None)"

fun hex_decode :: "bytes \<Rightarrow> bytes option" where
  "hex_decode [] = Some []"
| "hex_decode [c] = None"
| "hex_decode (a # b # cs) =
     (case (from_hex_char a, from_hex_char b, hex_decode cs) of
        (Some x, Some y, Some bs) \<Rightarrow> Some ((push_bit 4 x OR y) # bs)
      | _ \<Rightarrow> None)"

definition hash_String :: "hash \<Rightarrow> bytes" where
  "hash_String h = hex_encode (hbytes h)"

definition hash_Short :: "hash \<Rightarrow> bytes" where
  "hash_Short h = hex_encode (take 6 (hbytes h))"

definition lower_hex :: "byte \<Rightarrow> bool" where
  "lower_hex c \<longleftrightarrow> \<not> ((c < 0x30 \<or> c > 0x39) \<and> (c < 0x61 \<or> c > 0x66))"

definition hash_Parse :: "bytes \<Rightarrow> hash result" where
  "hash_Parse s =
     (if length s \<noteq> 2 * 32 then Inl ErrHashInvalid
      else if \<not> list_all lower_hex s then Inl ErrHashInvalid
      else case hex_decode s of
             None \<Rightarrow> Inl ErrHashInvalid
           | Some bs \<Rightarrow> Inr (copy_hash bs))"

definition hash_FromBytes :: "bytes \<Rightarrow> hash result" where
  "hash_FromBytes b = (if length b \<noteq> 32 then Inl ErrHashInvalid else Inr (copy_hash b))"

subsection \<open>Digits\<close>

lemma unat_add_byte: "unat a + unat b < 256 \<Longrightarrow> unat (a + b :: byte) = unat a + unat b"
  by (simp add: unat_word_ariths)

lemma from_hex_char_hex_digit:
  assumes "n < 16"
  shows "from_hex_char (hex_digit n) = Some n \<and> lower_hex (hex_digit n)"
proof (cases "n < 10")
  case True
  then have "unat (0x30 + n) = 48 + unat n" by (subst unat_add_byte) (auto simp: word_less_nat_alt)
  with True show ?thesis
    by (simp add: hex_digit_def from_hex_char_def lower_hex_def word_less_nat_alt word_le_nat_alt)
next
  case False
  then have "unat (0x57 + n) = 87 + unat n" using assms
    by (subst unat_add_byte) (auto simp: word_less_nat_alt)
  with False assms show ?thesis
    by (simp add: hex_digit_def from_hex_char_def lower_hex_def word_less_nat_alt word_le_nat_alt)
qed

lemma lower_hex_digit:
  assumes "lower_hex c"
  obtains n where "from_hex_char c = Some n" and "n < 16" and "hex_digit n = c"
proof -
  consider "0x30 \<le> c" "c \<le> 0x39" | "0x61 \<le> c" "c \<le> 0x66"
    using assms by (auto simp: lower_hex_def not_less)
  then have "\<exists>n. from_hex_char c = Some n \<and> n < 16 \<and> hex_digit n = c"
  proof cases
    case 1
    then have "unat (c - 0x30) = unat c - 48" by (simp add: unat_sub)
    with 1 show ?thesis
      by (simp add: hex_digit_def from_hex_char_def word_less_nat_alt word_le_nat_alt)
  next
    case 2
    have "unat (c - 0x57) = unat c - 87" using 2 by (subst unat_sub) (auto simp: word_le_nat_alt)
    moreover have "c - 0x61 + 10 = c - 0x57" by simp
    ultimately show ?thesis
      using 2 by (auto simp: hex_digit_def from_hex_char_def word_less_nat_alt word_le_nat_alt)
  qed
  with that show thesis by blast
qed

lemma bit_0x0f: "bit (0x0f :: byte) m \<longleftrightarrow> m < 4" "bit (0x0f :: int) m \<longleftrightarrow> m < 4"
  using bit_mask_iff [of 4 m, where ?'a = byte] bit_mask_iff [of 4 m, where ?'a = int]
  by (auto simp: mask_eq_exp_minus_1)

lemma nibble_iff: "(n :: byte) < 16 \<longleftrightarrow> take_bit 4 n = n"
  by (simp add: take_bit_self_iff word_less_nat_alt)

lemma nibbles_of_byte:
  "push_bit 4 (drop_bit 4 b) OR (b AND 0x0f) = (b :: byte)"
  "drop_bit 4 b < (16 :: byte)"
  "b AND 0x0f < (16 :: byte)"
  unfolding nibble_iff
  by (intro bit_word_eqI; auto simp: bit_simps bit_0x0f dest: bit_imp_le_length)+

lemma byte_of_nibbles:
  assumes "x < 16" and "y < 16"
  shows "drop_bit 4 (push_bit 4 x OR y) = (x :: byte)" and "(push_bit 4 x OR y) AND 0x0f = y"
proof -
  have xb: "\<not> bit x n" and yb: "\<not> bit y n" if "4 \<le> n" for n
    using assms that by (auto simp: nibble_iff dest: take_bit_self_bit)
  show "drop_bit 4 (push_bit 4 x OR y) = x"
  proof (rule bit_word_eqI)
    fix n
    show "bit (drop_bit 4 (push_bit 4 x OR y)) n \<longleftrightarrow> bit x n"
      using xb [of n] yb [of "4 + n"] by (cases "4 \<le> n") (auto simp: bit_simps)
  qed
  show "(push_bit 4 x OR y) AND 0x0f = y"
  proof (rule bit_word_eqI)
    fix n
    show "bit ((push_bit 4 x OR y) AND 0x0f) n \<longleftrightarrow> bit y n"
      using yb [of n] by (cases "4 \<le> n") (auto simp: bit_simps bit_0x0f)
  qed
qed

subsection \<open>Round trips\<close>

lemma hex_decode_encode: "hex_decode (hex_encode bs) = Some bs"
  by (induction bs)
    (simp_all add: hex_encode_def hex_byte_def from_hex_char_hex_digit nibbles_of_byte)

lemma lower_hex_encode: "list_all lower_hex (hex_encode bs)"
  by (induction bs)
    (simp_all add: hex_encode_def hex_byte_def from_hex_char_hex_digit nibbles_of_byte)

lemma length_hex_encode [simp]: "length (hex_encode bs) = 2 * length bs"
  by (induction bs) (simp_all add: hex_encode_def hex_byte_def)

lemma hex_encode_decode:
  "list_all lower_hex s \<Longrightarrow> hex_decode s = Some bs \<Longrightarrow> hex_encode bs = s \<and> length s = 2 * length bs"
proof (induction s arbitrary: bs rule: hex_decode.induct)
  case (3 a b cs)
  from "3.prems" have "lower_hex a" and "lower_hex b" by auto
  then obtain x y where x: "from_hex_char a = Some x" "x < 16" "hex_digit x = a"
    and y: "from_hex_char b = Some y" "y < 16" "hex_digit y = b"
    by (meson lower_hex_digit)
  with "3.prems"(2) obtain ds where ds: "hex_decode cs = Some ds" "bs = (push_bit 4 x OR y) # ds"
    by (auto split: option.splits)
  with "3.IH" "3.prems"(1) x y have "hex_encode ds = cs \<and> length cs = 2 * length ds"
    by (auto split: option.splits)
  moreover have "hex_byte (push_bit 4 x OR y) = [a, b]"
    by (simp only: hex_byte_def byte_of_nibbles [OF x(2) y(2)] x(3) y(3))
  ultimately show ?case
    using ds(2) by (simp add: hex_encode_def)
qed (auto simp: hex_encode_def)

lemma hash_Parse_String: "hash_Parse (hash_String h) = Inr h"
  by (simp add: hash_Parse_def hash_String_def lower_hex_encode hex_decode_encode)

lemma hash_String_Parse: "hash_Parse s = Inr h \<Longrightarrow> hash_String h = s"
  using hex_encode_decode [of s]
  by (auto simp: hash_Parse_def hash_String_def split: if_splits option.splits)

lemma hash_String_inject: "hash_String h = hash_String k \<longleftrightarrow> h = k"
  by (metis hash_Parse_String sum.inject(2))

section \<open>Hashes on the wire\<close>

text \<open>\<^verbatim>\<open>copy(h[:], r.Fixed(hash.Size))\<close>\<close>

definition rd_hash :: "reader \<Rightarrow> hash \<times> reader" where
  "rd_hash r = (let (b, r) = rd_Fixed 32 r in (copy_hash b, r))"

lemma rd_hash_at [wire_simps]:
  "rd_hash (rd_at pre (hbytes h @ rest)) = (h, rd_at (pre @ hbytes h) rest)"
  "rd_hash (rd_at pre (hbytes h)) = (h, rd_at (pre @ hbytes h) [])"
  by (simp_all add: rd_hash_def rd_Fixed_at)

lemma rd_hash_took: "rd_hash r = (h, r') \<Longrightarrow> rd_err r' = None \<Longrightarrow> rd_took r (hbytes h) r'"
  by (auto simp: rd_hash_def split: prod.splits dest!: rd_Fixed_took)

lemma at_done: "rd_Done (rd_at pre []) = None"
  by (simp add: rd_Done_at)

end
