(* ===== verification/Boundary.thy ===== *)
theory Boundary
  imports Hash
begin

text \<open>
  \<^verbatim>\<open>core/boundary\<close>: the content-defined split rule that prolly trees and stream index trees
  draw their nodes with. Sizes and levels are Go \<open>int\<close>s; the scale, the windows and the
  thresholds are kept at their width, so that the source's argument that nothing overflows is a
  theorem here (\<open>Threshold_exact\<close>).
\<close>

record geometry =
  g_Min :: int
  g_Target :: int
  g_Max :: int

definition DefaultGeometry :: geometry where
  "DefaultGeometry = \<lparr>g_Min = 512, g_Target = 4 * 2 ^ 10, g_Max = 16 * 2 ^ 10\<rparr>"

text \<open>\<^verbatim>\<open>minMin\<close>, \<^verbatim>\<open>minTarget\<close> and \<^verbatim>\<open>maxMax\<close>.\<close>

definition geometry_Validate :: "geometry \<Rightarrow> unit result" where
  "geometry_Validate g =
     (if g_Min g < 64 \<or> g_Target g < 2 ^ 10 \<or> g_Max g > 32 * 2 ^ 10 then Inl ErrGeometry
      else if g_Min g \<ge> g_Target g \<or> g_Target g \<ge> g_Max g then Inl ErrGeometry
      else Inr ())"

record brule =
  r_g :: geometry
  r_lambda :: u64
  r_lambda4 :: u64

definition gammaNum :: u64 where
  "gammaNum = 906402477"

definition gammaDen :: u64 where
  "gammaDen = 1000000000"

definition boundary_New :: "geometry \<Rightarrow> brule result" where
  "boundary_New g =
     rbind (geometry_Validate g) (\<lambda>_.
       let lambda = (word_of_int (g_Target g) * gammaDen + gammaNum div 2) div gammaNum
       in Inr \<lparr>r_g = g, r_lambda = lambda, r_lambda4 = lambda * lambda * lambda * lambda\<rparr>)"

text \<open>\<^verbatim>\<open>bits.Mul64\<close>: the 128-bit product as two words. \<^verbatim>\<open>bits.Div64\<close>: the quotient of a 128-bit
  value by a word; it panics (\<open>None\<close>) when the quotient does not fit.\<close>

definition Mul64 :: "u64 \<Rightarrow> u64 \<Rightarrow> u64 \<times> u64" where
  "Mul64 x y = (of_nat (unat x * unat y div 2 ^ 64), of_nat (unat x * unat y mod 2 ^ 64))"

definition Div64 :: "u64 \<Rightarrow> u64 \<Rightarrow> u64 \<Rightarrow> u64 option" where
  "Div64 hi lo y =
     (if y = 0 \<or> y \<le> hi then None else Some (of_nat ((unat hi * 2 ^ 64 + unat lo) div unat y)))"

text \<open>\<^verbatim>\<open>always\<close> is \<open>1 << 32\<close>.\<close>

definition bl_always :: u64 where
  "bl_always = 2 ^ 32"

definition Threshold :: "brule \<Rightarrow> int \<Rightarrow> int \<Rightarrow> u64 option" where
  "Threshold r before after =
     (if after \<ge> g_Max (r_g r) then Some bl_always
      else let before = max before 0 in
        if after \<le> before then Some 0
        else let a = word_of_int after; b = word_of_int before;
                 (hi, lo) = Mul64 (a * a * a * a - b * b * b * b) (2 ^ 32)
             in Div64 hi lo (r_lambda4 r))"

text \<open>\<^verbatim>\<open>Window\<close>: the level's 4-byte window of a digest, big-endian.\<close>

definition Window :: "(bytes \<Rightarrow> hash) \<Rightarrow> hash \<Rightarrow> nat \<Rightarrow> u32" where
  "Window H digest level =
     (let digest = (if level \<ge> 8 then H (hbytes digest @ [of_nat (level div 8)]) else digest)
      in le_word (rev (take 4 (drop (4 * (level mod 8)) (hbytes digest)))))"

record splitter =
  sp_rule :: brule
  sp_level :: nat
  sp_size :: int
  sp_n :: int

definition Splitter :: "brule \<Rightarrow> nat \<Rightarrow> splitter" where
  "Splitter r level = \<lparr>sp_rule = r, sp_level = level, sp_size = 0, sp_n = 0\<rparr>"

text \<open>A panic of \<^verbatim>\<open>Threshold\<close> is taken as "no boundary"; \<open>Threshold_total\<close> shows that no rule
  \<^verbatim>\<open>New\<close> made ever panics.\<close>

definition sp_ends :: "(bytes \<Rightarrow> hash) \<Rightarrow> splitter \<Rightarrow> hash \<Rightarrow> int \<Rightarrow> bool" where
  "sp_ends H s d before =
     (if sp_level s \<ge> 1 \<and> sp_n s < 2 then False
      else if sp_size s < g_Min (r_g (sp_rule s)) then False
      else case Threshold (sp_rule s) before (sp_size s) of
             None \<Rightarrow> False
           | Some t \<Rightarrow> t \<ge> bl_always \<or> ucast (Window H d (sp_level s)) < t)"

definition sp_Append :: "(bytes \<Rightarrow> hash) \<Rightarrow> splitter \<Rightarrow> hash \<Rightarrow> int \<Rightarrow> bool \<times> splitter" where
  "sp_Append H s d sz =
     (let before = sp_size s;
          s = s\<lparr>sp_size := sp_size s + sz, sp_n := sp_n s + 1\<rparr>
      in if \<not> sp_ends H s d before then (False, s)
         else (True, s\<lparr>sp_size := 0, sp_n := 0\<rparr>))"

section \<open>Nothing overflows\<close>

lemma geometry_ValidateD:
  "geometry_Validate g = Inr u \<Longrightarrow>
     64 \<le> g_Min g \<and> g_Min g < g_Target g \<and> g_Target g < g_Max g \<and> g_Max g \<le> 32768 \<and> 1024 \<le> g_Target g"
  by (auto simp: geometry_Validate_def split: if_splits)

lemma boundary_NewD:
  assumes "boundary_New g = Inr r"
  shows "geometry_Validate g = Inr ()" and "r_g r = g"
    and "r_lambda r = (word_of_int (g_Target g) * gammaDen + gammaNum div 2) div gammaNum"
    and "r_lambda4 r = r_lambda r * r_lambda r * r_lambda r * r_lambda r"
  using assms by (auto simp: boundary_New_def Let_def result_simps)

text \<open>The exact scale, in unbounded integers.\<close>

definition scale_of :: "geometry \<Rightarrow> nat" where
  "scale_of g = (nat (g_Target g) * 1000000000 + 453201238) div 906402477"

lemma unat_mult_small:
  "unat (a :: 'a::len word) * unat b < 2 ^ LENGTH('a) \<Longrightarrow> unat (a * b) = unat a * unat b"
  by (simp add: unat_word_ariths)

lemma unat_word_of_int_small: "0 \<le> i \<Longrightarrow> i < 2 ^ 64 \<Longrightarrow> unat (word_of_int i :: u64) = nat i"
  by (simp add: unat_eq_nat_uint uint_word_of_int)

lemma gamma_unat [simp]: "unat gammaNum = 906402477" "unat gammaDen = 1000000000"
  "unat (gammaNum div 2) = 453201238"
  by (simp_all add: gammaNum_def gammaDen_def unat_div)

lemma scale_of_bounds:
  assumes "geometry_Validate g = Inr ()"
  shows "1130 \<le> scale_of g" and "scale_of g \<le> 36151"
proof -
  have T: "1024 \<le> nat (g_Target g)" "nat (g_Target g) \<le> 32767"
    using geometry_ValidateD [OF assms] by auto
  have "(1024 * 1000000000 + 453201238) div 906402477 \<le> scale_of g"
    unfolding scale_of_def using T(1) by (intro div_le_mono) simp
  then show "1130 \<le> scale_of g" by simp
  have "scale_of g \<le> (32767 * 1000000000 + 453201238) div 906402477"
    unfolding scale_of_def using T(2) by (intro div_le_mono) simp
  then show "scale_of g \<le> 36151" by simp
qed

text \<open>A product of four words under \<open>2^16\<close> does not wrap.\<close>

lemma unat_power4:
  assumes "unat (a :: u64) < 2 ^ 16"
  shows "unat (a * a * a * a) = unat a ^ 4"
proof -
  let ?n = "unat a"
  have 2: "?n * ?n < 2 ^ 16 * 2 ^ 16" using assms by (intro mult_strict_mono) auto
  then have 3: "?n * ?n * ?n < 2 ^ 32 * 2 ^ 16" using assms by (intro mult_strict_mono) auto
  then have 4: "?n * ?n * ?n * ?n < 2 ^ 48 * 2 ^ 16" using assms by (intro mult_strict_mono) auto
  have "unat (a * a) = ?n * ?n" using 2 by (intro unat_mult_small) simp
  moreover from this 3 have "unat (a * a * a) = ?n * ?n * ?n" by (subst unat_mult_small) simp_all
  moreover from this 4 have "unat (a * a * a * a) = ?n * ?n * ?n * ?n"
    by (subst unat_mult_small) simp_all
  ultimately show ?thesis by (simp add: power4_eq_xxxx)
qed

lemma boundary_New_scale:
  assumes "boundary_New g = Inr r"
  shows "unat (r_lambda r) = scale_of g" and "unat (r_lambda4 r) = scale_of g ^ 4"
proof -
  note D = boundary_NewD [OF assms]
  have T: "1024 \<le> g_Target g" "g_Target g \<le> 32767"
    using geometry_ValidateD [OF D(1)] by auto
  have t: "unat (word_of_int (g_Target g) :: u64) = nat (g_Target g)"
    using T by (intro unat_word_of_int_small) auto
  have m: "unat (word_of_int (g_Target g) * gammaDen) = nat (g_Target g) * 1000000000"
    using T t by (subst unat_mult_small) auto
  have "unat (word_of_int (g_Target g) * gammaDen + gammaNum div 2)
      = nat (g_Target g) * 1000000000 + 453201238"
    using T m by (subst unat_add_small) auto
  then show l: "unat (r_lambda r) = scale_of g"
    unfolding D(3) by (simp add: unat_div scale_of_def)
  have "unat (r_lambda r) < 2 ^ 16"
    using l scale_of_bounds [OF D(1)] by simp
  then show "unat (r_lambda4 r) = scale_of g ^ 4"
    unfolding D(4) by (simp add: unat_power4 l)
qed

lemma Div64_Mul64:
  assumes D: "unat d < 2 ^ 60" and y: "2 ^ 28 < unat (y :: u64)"
  shows "(case Mul64 d (2 ^ 32) of (hi, lo) \<Rightarrow> Div64 hi lo y) = Some (of_nat (unat d * 2 ^ 32 div unat y))"
proof -
  let ?p = "unat d * 2 ^ 32"
  have p32: "unat (2 ^ 32 :: u64) = 2 ^ 32" by simp
  have "?p div 2 ^ 64 < 2 ^ 28" using D by (simp add: div_less_iff_less_mult)
  then have hi: "unat (of_nat (?p div 2 ^ 64) :: u64) = ?p div 2 ^ 64"
    by (intro unat_of_nat_small) simp
  have lo: "unat (of_nat (?p mod 2 ^ 64) :: u64) = ?p mod 2 ^ 64"
    by (intro unat_of_nat_small) simp
  have "\<not> y \<le> of_nat (?p div 2 ^ 64)" and "y \<noteq> 0"
    using y hi \<open>?p div 2 ^ 64 < 2 ^ 28\<close> by (auto simp: word_le_nat_alt)
  moreover have "?p div 2 ^ 64 * 2 ^ 64 + ?p mod 2 ^ 64 = ?p" by (rule div_mult_mod_eq)
  ultimately show ?thesis
    by (simp only: Mul64_def Div64_def p32 hi lo prod.case simp_thms if_False)
qed

text \<open>The threshold is the exact rational bound rounded down: no product wraps, the 128-bit
  division never panics, and the quotient fits.\<close>

lemma Threshold_value:
  assumes r: "boundary_New g = Inr r" and b: "max before 0 < after" and a: "after < g_Max g"
  shows "\<exists>t. Threshold r before after = Some t \<and>
    unat t = (nat after ^ 4 - nat (max before 0) ^ 4) * 2 ^ 32 div scale_of g ^ 4"
proof -
  note D = boundary_NewD [OF r]
  let ?A = "nat after" and ?B = "nat (max before 0)"
  have A: "?A < 2 ^ 15" and BA: "?B < ?A"
    using geometry_ValidateD [OF D(1)] a b by auto
  define wa wb where "wa = (word_of_int after :: u64)" and "wb = (word_of_int (max before 0) :: u64)"
  have ua: "unat wa = ?A" and ub: "unat wb = ?B"
    unfolding wa_def wb_def using a b geometry_ValidateD [OF D(1)]
    by (auto intro!: unat_word_of_int_small)
  have "unat wa < 2 ^ 16" and "unat wb < 2 ^ 16" using A BA ua ub by auto
  then have a4: "unat (wa * wa * wa * wa) = ?A ^ 4" and b4: "unat (wb * wb * wb * wb) = ?B ^ 4"
    by (simp_all only: unat_power4 ua ub)
  have le: "?B ^ 4 \<le> ?A ^ 4" using BA by (intro power_mono) auto
  have d: "unat (wa * wa * wa * wa - wb * wb * wb * wb) = ?A ^ 4 - ?B ^ 4"
    using a4 b4 le by (subst unat_sub) (auto simp: word_le_nat_alt)
  have "?A ^ 4 < (2 ^ 15) ^ 4" using A by (intro power_strict_mono) auto
  then have d60: "?A ^ 4 - ?B ^ 4 < 2 ^ 60" by simp
  have L: "1130 ^ 4 \<le> scale_of g ^ 4"
    using scale_of_bounds(1) [OF D(1)] by (intro power_mono) auto
  have l4: "unat (r_lambda4 r) = scale_of g ^ 4" by (rule boundary_New_scale(2) [OF r])
  have "Threshold r before after = (case Mul64 (wa * wa * wa * wa - wb * wb * wb * wb) (2 ^ 32) of
      (hi, lo) \<Rightarrow> Div64 hi lo (r_lambda4 r))"
    unfolding Threshold_def D(2) Let_def wa_def wb_def
    using a [unfolded not_le [symmetric]] b [unfolded not_le [symmetric]] by (simp only: if_False)
  also have "\<dots> = Some (of_nat ((?A ^ 4 - ?B ^ 4) * 2 ^ 32 div scale_of g ^ 4))"
    using d d60 L l4 by (subst Div64_Mul64) auto
  finally have t: "Threshold r before after =
      Some (of_nat ((?A ^ 4 - ?B ^ 4) * 2 ^ 32 div scale_of g ^ 4))" .
  have "(?A ^ 4 - ?B ^ 4) * 2 ^ 32 div scale_of g ^ 4 \<le> (?A ^ 4 - ?B ^ 4) * 2 ^ 32 div 1130 ^ 4"
    using L by (intro div_le_mono2) auto
  also have "\<dots> < 2 ^ 64" using d60 by (simp add: div_less_iff_less_mult)
  finally have "unat (of_nat ((?A ^ 4 - ?B ^ 4) * 2 ^ 32 div scale_of g ^ 4) :: u64)
      = (?A ^ 4 - ?B ^ 4) * 2 ^ 32 div scale_of g ^ 4"
    by (intro unat_of_nat_small) simp
  with t show ?thesis by simp
qed

lemma Threshold_total:
  assumes "boundary_New g = Inr r"
  shows "Threshold r before after \<noteq> None"
proof (cases "after \<ge> g_Max g \<or> after \<le> max before 0")
  case True
  then show ?thesis by (auto simp: Threshold_def boundary_NewD(2) [OF assms] Let_def)
next
  case False
  then have "max before 0 < after" and "after < g_Max g" by auto
  from Threshold_value [OF assms this] show ?thesis by auto
qed

section \<open>The nodes the rule draws\<close>

text \<open>
  The node being filled is under the maximum, once it has the two entries a level above the
  leaves needs; a node ends only at or over the minimum.
\<close>

definition sp_inv :: "splitter \<Rightarrow> bool" where
  "sp_inv s \<longleftrightarrow> 0 \<le> sp_n s \<and> 0 \<le> sp_size s \<and>
     (sp_level s = 0 \<or> 2 \<le> sp_n s \<longrightarrow> sp_size s < g_Max (r_g (sp_rule s)))"

lemma bl_always_refl [simp]: "bl_always \<le> bl_always"
  by simp

lemma sp_ends_at_Max:
  assumes "g_Max (r_g (sp_rule s)) \<le> sp_size s" and "g_Min (r_g (sp_rule s)) \<le> g_Max (r_g (sp_rule s))"
    and "sp_level s = 0 \<or> 2 \<le> sp_n s"
  shows "sp_ends H s d before"
  using assms by (auto simp: sp_ends_def Threshold_def)

lemma Splitter_inv: "boundary_New g = Inr r \<Longrightarrow> sp_inv (Splitter r level)"
  using geometry_ValidateD [OF boundary_NewD(1)] boundary_NewD(2)
  by (fastforce simp: sp_inv_def Splitter_def)

lemma sp_Append_cases:
  assumes "sp_Append H s d sz = (e, s')"
  shows "sp_rule s' = sp_rule s" and "sp_level s' = sp_level s"
    and "e \<Longrightarrow> sp_size s' = 0 \<and> sp_n s' = 0 \<and> g_Min (r_g (sp_rule s)) \<le> sp_size s + sz
      \<and> (sp_level s \<ge> 1 \<longrightarrow> 2 \<le> sp_n s + 1)"
    and "\<not> e \<Longrightarrow> sp_size s' = sp_size s + sz \<and> sp_n s' = sp_n s + 1
      \<and> \<not> sp_ends H s' d (sp_size s)"
  using assms by (auto simp: sp_Append_def Let_def sp_ends_def split: if_splits)

lemma sp_Append_inv:
  assumes "sp_Append H s d sz = (e, s')" and "sp_inv s" and "0 \<le> sz"
    and "g_Min (r_g (sp_rule s)) \<le> g_Max (r_g (sp_rule s))" and "0 < g_Max (r_g (sp_rule s))"
  shows "sp_inv s'"
proof (cases e)
  case True
  with sp_Append_cases [OF assms(1)] assms show ?thesis by (auto simp: sp_inv_def)
next
  case False
  note C = sp_Append_cases [OF assms(1)]
  have "sp_size s' < g_Max (r_g (sp_rule s'))" if "sp_level s' = 0 \<or> 2 \<le> sp_n s'"
    using sp_ends_at_Max [of s' H d "sp_size s"] C(4) [OF False] C(1) assms(4) that by force
  with C(4) [OF False] assms(2,3) show ?thesis by (auto simp: sp_inv_def)
qed

section \<open>Splitting a whole level\<close>

text \<open>
  What the two users of the rule do with a splitter, as functions of the sequence alone: \<open>dig\<close> and
  \<open>sz\<close> are the digest and the size of an item. \<open>sp_at\<close> is the splitter with \<open>cur\<close> in the node
  being filled, \<open>chop\<close> cuts a sequence into finished nodes and what is left over.
\<close>

definition sp_at :: "('a \<Rightarrow> int) \<Rightarrow> brule \<Rightarrow> nat \<Rightarrow> 'a list \<Rightarrow> splitter" where
  "sp_at sz r lv cur =
     \<lparr>sp_rule = r, sp_level = lv, sp_size = sum_list (map sz cur), sp_n = int (length cur)\<rparr>"

definition ends_at :: "(bytes \<Rightarrow> hash) \<Rightarrow> ('a \<Rightarrow> hash) \<Rightarrow> ('a \<Rightarrow> int) \<Rightarrow> brule \<Rightarrow> nat \<Rightarrow> 'a list \<Rightarrow> 'a \<Rightarrow> bool" where
  "ends_at H dig sz r lv cur x = fst (sp_Append H (sp_at sz r lv cur) (dig x) (sz x))"

fun chop :: "(bytes \<Rightarrow> hash) \<Rightarrow> ('a \<Rightarrow> hash) \<Rightarrow> ('a \<Rightarrow> int) \<Rightarrow> brule \<Rightarrow> nat \<Rightarrow> 'a list \<Rightarrow> 'a list \<Rightarrow> 'a list list \<times> 'a list" where
  "chop H dig sz r lv cur [] = ([], cur)"
| "chop H dig sz r lv cur (x # xs) =
     (if ends_at H dig sz r lv cur x then let (gs, c) = chop H dig sz r lv [] xs in ((cur @ [x]) # gs, c)
      else chop H dig sz r lv (cur @ [x]) xs)"

text \<open>The nodes of a whole level: the leftover is its last node.\<close>

definition chop_all :: "(bytes \<Rightarrow> hash) \<Rightarrow> ('a \<Rightarrow> hash) \<Rightarrow> ('a \<Rightarrow> int) \<Rightarrow> brule \<Rightarrow> nat \<Rightarrow> 'a list \<Rightarrow> 'a list list" where
  "chop_all H dig sz r lv xs = (let (gs, c) = chop H dig sz r lv [] xs in gs @ (if c = [] then [] else [c]))"

lemma Splitter_at: "Splitter r lv = sp_at sz r lv []"
  by (simp add: Splitter_def sp_at_def)

lemma sp_Append_at:
  "sp_Append H (sp_at sz r lv cur) (dig x) (sz x) =
     (ends_at H dig sz r lv cur x, sp_at sz r lv (if ends_at H dig sz r lv cur x then [] else cur @ [x]))"
  by (auto simp: ends_at_def sp_Append_def sp_at_def Let_def)

lemma chop_append:
  "chop H dig sz r lv cur (xs @ ys) =
     (let (gs, c) = chop H dig sz r lv cur xs; (gs', c') = chop H dig sz r lv c ys in (gs @ gs', c'))"
  by (induction xs arbitrary: cur) (auto simp: Let_def split: prod.splits)

lemma chop_snoc:
  "chop H dig sz r lv [] xs = (gs, c) \<Longrightarrow>
   chop H dig sz r lv [] (xs @ [x]) =
     (if ends_at H dig sz r lv c x then (gs @ [c @ [x]], []) else (gs, c @ [x]))"
  by (simp add: chop_append)

lemma chop_concat: "chop H dig sz r lv cur xs = (gs, c) \<Longrightarrow> concat gs @ c = cur @ xs"
  by (induction xs arbitrary: cur gs) (fastforce split: if_splits prod.splits)+

lemma chop_all_concat: "concat (chop_all H dig sz r lv xs) = xs"
  using chop_concat[of H dig sz r lv "[]" xs] by (auto simp: chop_all_def split: prod.splits)

lemma ends_at_two: "ends_at H dig sz r lv cur x \<Longrightarrow> 1 \<le> lv \<Longrightarrow> cur \<noteq> []"
  by (auto simp: ends_at_def sp_Append_def sp_at_def sp_ends_def Let_def split: if_splits)

lemma chop_nonempty: "chop H dig sz r lv cur xs = (gs, c) \<Longrightarrow> g \<in> set gs \<Longrightarrow> g \<noteq> []"
  by (induction xs arbitrary: cur gs) (auto split: if_splits prod.splits)

lemma chop_all_nonempty: "g \<in> set (chop_all H dig sz r lv xs) \<Longrightarrow> g \<noteq> []"
  by (auto simp: chop_all_def split: prod.splits if_splits dest: chop_nonempty[OF sym] chop_nonempty)

text \<open>Above the leaves a finished node has two entries at least, so a level is about half as long
  as the one below, at most.\<close>

lemma chop_halves:
  assumes "1 \<le> lv" and "chop H dig sz r lv cur xs = (gs, c)"
  shows "2 * length gs + length c \<le> length cur + length xs"
  using assms(2)
proof (induction xs arbitrary: cur gs)
  case (Cons x xs)
  show ?case
  proof (cases "ends_at H dig sz r lv cur x")
    case True
    then obtain gs' where "chop H dig sz r lv [] xs = (gs', c)" "gs = (cur @ [x]) # gs'"
      using Cons.prems by (auto split: prod.splits)
    moreover have "1 \<le> length cur" using ends_at_two[OF True assms(1)] by (cases cur) auto
    ultimately show ?thesis using Cons.IH[of "[]" gs'] by simp
  next
    case False
    then show ?thesis using Cons.IH[of "cur @ [x]" gs] Cons.prems by simp
  qed
qed simp

lemma chop_all_halves:
  assumes "1 \<le> lv"
  shows "2 * length (chop_all H dig sz r lv xs) \<le> length xs + 1"
proof -
  obtain gs c where g: "chop H dig sz r lv [] xs = (gs, c)" by (metis surj_pair)
  have "2 * length gs + length c \<le> length xs" using chop_halves[OF assms g] by simp
  then show ?thesis using g by (cases c) (auto simp: chop_all_def)
qed

text \<open>No node is over the maximum by more than its last item, or two items.\<close>

lemma ends_at_Max:
  assumes "boundary_New g = Inr r" and "\<not> ends_at H dig sz r lv cur x" and "lv = 0 \<or> cur \<noteq> []"
  shows "sum_list (map sz (cur @ [x])) < g_Max g"
proof (rule ccontr)
  let ?s = "sp_at sz r lv (cur @ [x])"
  assume "\<not> ?thesis"
  moreover have "lv = 0 \<or> 2 \<le> int (length (cur @ [x]))" using assms(3) by (cases cur) auto
  ultimately have "sp_ends H ?s (dig x) (sum_list (map sz cur))"
    using geometry_ValidateD[OF boundary_NewD(1)[OF assms(1)]] boundary_NewD(2)[OF assms(1)]
    by (intro sp_ends_at_Max) (auto simp: sp_at_def)
  moreover have "sp_at sz r lv cur\<lparr>sp_size := sp_size (sp_at sz r lv cur) + sz x, sp_n := sp_n (sp_at sz r lv cur) + 1\<rparr> = ?s"
    by (simp add: sp_at_def)
  ultimately show False using assms(2) by (simp add: ends_at_def sp_Append_def Let_def) (simp add: sp_at_def)
qed

lemma chop_bound:
  assumes "boundary_New g = Inr r" and "\<And>x. x \<in> set cur \<union> set xs \<Longrightarrow> 0 \<le> sz x \<and> sz x \<le> m" and "0 \<le> m"
    and "chop H dig sz r lv cur xs = (gs, c)" and "sum_list (map sz cur) \<le> (if lv = 0 then g_Max g else max (g_Max g) m)"
  shows "(\<forall>g'\<in>set gs. sum_list (map sz g') \<le> (if lv = 0 then g_Max g else max (g_Max g) m) + m)
    \<and> sum_list (map sz c) \<le> (if lv = 0 then g_Max g else max (g_Max g) m)"
  using assms(2,4,5)
proof (induction xs arbitrary: cur gs)
  case (Cons x xs)
  let ?B = "if lv = 0 then g_Max g else max (g_Max g) m"
  have x: "0 \<le> sz x" "sz x \<le> m" using Cons.prems(1)[of x] by auto
  show ?case
  proof (cases "ends_at H dig sz r lv cur x")
    case True
    then obtain gs' where "chop H dig sz r lv [] xs = (gs', c)" "gs = (cur @ [x]) # gs'"
      using Cons.prems(2) by (auto split: prod.splits)
    moreover have "0 \<le> ?B" using geometry_ValidateD[OF boundary_NewD(1)[OF assms(1)]] by auto
    moreover have "sum_list (map sz (cur @ [x])) \<le> ?B + m" using add_mono[OF Cons.prems(3) x(2)] by simp
    ultimately show ?thesis using Cons.IH[of "[]" gs'] Cons.prems(1) by simp
  next
    case False
    have "sum_list (map sz (cur @ [x])) \<le> ?B"
    proof (cases "lv = 0 \<or> cur \<noteq> []")
      case True
      then show ?thesis using ends_at_Max[OF assms(1) False] by auto
    next
      case c: False
      then show ?thesis using x by simp
    qed
    then show ?thesis using Cons.IH[of "cur @ [x]" gs] Cons.prems(1,2) False by simp
  qed
qed auto

lemma chop_all_bound:
  assumes "boundary_New g = Inr r" and "\<And>x. x \<in> set xs \<Longrightarrow> 0 \<le> sz x \<and> sz x \<le> m" and "0 \<le> m"
    and "g' \<in> set (chop_all H dig sz r lv xs)"
  shows "sum_list (map sz g') \<le> (if lv = 0 then g_Max g else max (g_Max g) m) + m"
proof -
  obtain gs c where c: "chop H dig sz r lv [] xs = (gs, c)" by (metis surj_pair)
  have "0 \<le> g_Max g" using geometry_ValidateD[OF boundary_NewD(1)[OF assms(1)]] by auto
  then have "(\<forall>g'\<in>set gs. sum_list (map sz g') \<le> (if lv = 0 then g_Max g else max (g_Max g) m) + m)
      \<and> sum_list (map sz c) \<le> (if lv = 0 then g_Max g else max (g_Max g) m)"
    using assms(2,3) by (intro chop_bound[OF assms(1) _ assms(3) c]) auto
  then show ?thesis
    using assms(3,4) c by (auto simp: chop_all_def split: if_splits)
qed

end
