(* ===== verification/Chunk.thy ===== *)
theory Chunk
  imports Hash
begin

text \<open>
  \<^verbatim>\<open>core/chunk\<close> and \<^verbatim>\<open>core/chunk/memstore\<close>: the chunk store port and the store that defines its
  contract. A Go interface value is the record of its methods over the store's state type
  (\<open>rw\<close> for \<^verbatim>\<open>chunk.ReadWriter\<close>, extended to \<open>cstore\<close> for \<^verbatim>\<open>chunk.Store\<close>), so everything above
  the port is written, as in the source, against any store. What the port's documentation
  promises is the locale \<open>chunk_rw\<close>; \<open>memstore\<close> is interpreted in it.
\<close>

definition MaxChunkSize :: nat where
  "MaxChunkSize = 2 ^ 20"

text \<open>\<^verbatim>\<open>chunk.ReadWriter\<close>, with the optional \<^verbatim>\<open>chunk.RawWriter\<close> a type assertion finds.\<close>

record 's rw =
  rw_Get :: "'s \<Rightarrow> hash \<Rightarrow> bytes result"
  rw_Put :: "bytes \<Rightarrow> ('s, hash) comp"
  rw_PutRaw :: "(bytes \<Rightarrow> ('s, hash) comp) option"

text \<open>\<^verbatim>\<open>chunk.Store\<close>: the root beside it.\<close>

record 's cstore = "'s rw" +
  cs_Root :: "'s \<Rightarrow> hash result"
  cs_CompareAndSetRoot :: "hash \<Rightarrow> hash \<Rightarrow> ('s, unit) comp"

text \<open>\<^verbatim>\<open>s.Get(ctx, h)\<close> inside a computation.\<close>

definition sget :: "('s, 'z) rw_scheme \<Rightarrow> hash \<Rightarrow> ('s, bytes) comp" where
  "sget ops h s = (rw_Get ops s h, s)"

section \<open>The in-memory store\<close>

text \<open>
  \<open>ms_puts\<close> is not in the Go struct: it is a history variable, every chunk handed to \<^verbatim>\<open>Put\<close>,
  that nothing reads. It is there to say of a run "no two chunks put in it share a hash"
  (\<open>inj_on H (set (ms_puts s))\<close>), the only sense in which a 32-byte hash can be collision-free.
\<close>

record memstore =
  ms_chunks :: "hash \<rightharpoonup> bytes"
  ms_root :: hash
  ms_closed :: bool
  ms_puts :: "bytes list"

definition ms_New :: memstore where
  "ms_New = \<lparr>ms_chunks = Map.empty, ms_root = zero_hash, ms_closed = False, ms_puts = []\<rparr>"

definition ms_Tamper :: "hash \<Rightarrow> memstore \<Rightarrow> bool \<times> memstore" where
  "ms_Tamper h s =
     (case ms_chunks s h of
        None \<Rightarrow> (False, s)
      | Some b \<Rightarrow>
          if length b = 0 then (False, s)
          else (True, s\<lparr>ms_chunks := (ms_chunks s)(h \<mapsto> b[length b div 2 := b ! (length b div 2) XOR 1])\<rparr>))"

definition ms_Put :: "(bytes \<Rightarrow> hash) \<Rightarrow> bytes \<Rightarrow> (memstore, hash) comp" where
  "ms_Put H data s =
     (if length data > MaxChunkSize then (Inl ErrChunkTooLarge, s)
      else let h = H data in
        if ms_closed s then (Inl ErrChunkClosed, s)
        else let s = s\<lparr>ms_puts := data # ms_puts s\<rparr> in
          (Inr h, if ms_chunks s h = None then s\<lparr>ms_chunks := (ms_chunks s)(h \<mapsto> data)\<rparr> else s))"

definition ms_Get :: "(bytes \<Rightarrow> hash) \<Rightarrow> memstore \<Rightarrow> hash \<Rightarrow> bytes result" where
  "ms_Get H s h =
     (if ms_closed s then Inl ErrChunkClosed
      else case ms_chunks s h of
             None \<Rightarrow> Inl ErrChunkNotFound
           | Some out \<Rightarrow> if H out \<noteq> h then Inl ErrChunkCorrupt else Inr out)"

definition ms_Has :: "memstore \<Rightarrow> hash list \<Rightarrow> (hash \<rightharpoonup> bool) result" where
  "ms_Has s hs =
     (if ms_closed s then Inl ErrChunkClosed
      else Inr (map_of (map (\<lambda>h. (h, ms_chunks s h \<noteq> None)) hs)))"

definition ms_Root :: "memstore \<Rightarrow> hash result" where
  "ms_Root s = (if ms_closed s then Inl ErrChunkClosed else Inr (ms_root s))"

definition ms_CompareAndSetRoot :: "hash \<Rightarrow> hash \<Rightarrow> (memstore, unit) comp" where
  "ms_CompareAndSetRoot expected next s =
     (if ms_closed s then (Inl ErrChunkClosed, s)
      else if ms_chunks s next = None \<or> IsZero next then (Inl ErrChunkRootMissing, s)
      else if ms_root s \<noteq> expected then (Inl ErrChunkRootConflict, s)
      else (Inr (), s\<lparr>ms_root := next\<rparr>))"

definition ms_Stats :: "memstore \<Rightarrow> nat result" where
  "ms_Stats s = (if ms_closed s then Inl ErrChunkClosed else Inr (card (dom (ms_chunks s))))"

definition ms_Close :: "memstore \<Rightarrow> memstore" where
  "ms_Close s = s\<lparr>ms_closed := True\<rparr>"

definition memstore_ops :: "(bytes \<Rightarrow> hash) \<Rightarrow> memstore cstore" where
  "memstore_ops H = \<lparr>rw_Get = ms_Get H, rw_Put = ms_Put H, rw_PutRaw = None,
     cs_Root = ms_Root, cs_CompareAndSetRoot = ms_CompareAndSetRoot\<rparr>"

section \<open>What the port promises\<close>

text \<open>
  \<open>ok\<close>: the store is open and holds what was put. \<open>view\<close>: the chunks it holds. \<open>puts\<close>: the
  chunks ever put. A put of bytes whose hash is already there stores nothing, so reading them
  back needs that no two chunks put share a hash.
\<close>

locale chunk_rw =
  fixes ops :: "('s, 'z) rw_scheme"
    and H :: "bytes \<Rightarrow> hash"
    and ok :: "'s \<Rightarrow> bool"
    and view :: "'s \<Rightarrow> hash \<rightharpoonup> bytes"
    and puts :: "'s \<Rightarrow> bytes set"
  assumes get_eq: "ok s \<Longrightarrow> rw_Get ops s h =
        (case view s h of None \<Rightarrow> Inl ErrChunkNotFound | Some b \<Rightarrow> Inr b)"
    and view_hash: "ok s \<Longrightarrow> view s h = Some b \<Longrightarrow> H b = h \<and> b \<in> puts s"
    and puts_view: "ok s \<Longrightarrow> b \<in> puts s \<Longrightarrow> view s (H b) \<noteq> None"
    and put_eq: "ok s \<Longrightarrow> length b \<le> MaxChunkSize \<Longrightarrow>
        \<exists>s'. rw_Put ops b s = (Inr (H b), s') \<and> ok s' \<and> puts s' = insert b (puts s) \<and>
          view s' = (if view s (H b) = None then (view s)(H b \<mapsto> b) else view s)"
    and put_large: "ok s \<Longrightarrow> length b > MaxChunkSize \<Longrightarrow> rw_Put ops b s = (Inl ErrChunkTooLarge, s)"
    and putraw_eq: "rw_PutRaw ops = Some praw \<Longrightarrow> praw = rw_Put ops"
begin

text \<open>The history only grows, and the chunks held with it.\<close>

definition grows :: "'s \<Rightarrow> 's \<Rightarrow> bool" where
  "grows s s' \<longleftrightarrow> ok s' \<and> puts s \<subseteq> puts s' \<and> view s \<subseteq>\<^sub>m view s'"

lemma grows_refl [simp]: "ok s \<Longrightarrow> grows s s"
  by (simp add: grows_def)

lemma grows_trans [trans]: "grows s t \<Longrightarrow> grows t u \<Longrightarrow> grows s u"
  unfolding grows_def using map_le_trans by blast

lemma grows_view: "grows s t \<Longrightarrow> view s h = Some b \<Longrightarrow> view t h = Some b"
  by (auto simp: grows_def map_le_def dom_def)

lemma grows_inj: "grows s t \<Longrightarrow> inj_on H (puts t) \<Longrightarrow> inj_on H (puts s)"
  unfolding grows_def by (blast intro: inj_on_subset)

lemma put_ok:
  assumes "ok s" and "length b \<le> MaxChunkSize"
  obtains s' where "rw_Put ops b s = (Inr (H b), s')" and "grows s s'" and "b \<in> puts s'"
    and "inj_on H (puts s') \<Longrightarrow> view s' (H b) = Some b"
    and "\<And>h. view s' h \<noteq> None \<longleftrightarrow> view s h \<noteq> None \<or> h = H b"
proof -
  from put_eq [OF assms] obtain s' where s': "rw_Put ops b s = (Inr (H b), s')" "ok s'"
    "puts s' = insert b (puts s)"
    "view s' = (if view s (H b) = None then (view s)(H b \<mapsto> b) else view s)" by blast
  have "grows s s'" using s' by (auto simp: grows_def map_le_def)
  moreover have "view s' (H b) = Some b" if inj: "inj_on H (puts s')"
  proof -
    obtain c where c: "view s' (H b) = Some c" using s'(4) by (cases "view s (H b)") auto
    from view_hash [OF s'(2) this] s'(3) inj have "c = b" by (auto simp: inj_on_def)
    with c show ?thesis by simp
  qed
  ultimately show thesis
    using that [of s'] s' by auto
qed

lemma put_Inr:
  assumes "ok s" and "rw_Put ops b s = (Inr h, s')"
  shows "h = H b" and "grows s s'" and "b \<in> puts s'" and "length b \<le> MaxChunkSize"
    and "inj_on H (puts s') \<Longrightarrow> view s' h = Some b"
proof -
  show len: "length b \<le> MaxChunkSize"
    using put_large [OF assms(1)] assms(2) by (cases "length b \<le> MaxChunkSize") auto
  obtain t where t: "rw_Put ops b s = (Inr (H b), t)" "grows s t" "b \<in> puts t"
    "inj_on H (puts t) \<Longrightarrow> view t (H b) = Some b"
    using put_ok [OF assms(1) len] by blast
  with assms(2) show "h = H b" and "grows s s'" and "b \<in> puts s'"
    and "inj_on H (puts s') \<Longrightarrow> view s' h = Some b"
    by auto
qed

lemma view_put: "ok s \<Longrightarrow> inj_on H (puts s) \<Longrightarrow> b \<in> puts s \<Longrightarrow> view s (H b) = Some b"
  using puts_view view_hash by (metis inj_onD option.exhaust)

lemma sget_eval: "ok s \<Longrightarrow> view s h = Some b \<Longrightarrow> sget ops h s = (Inr b, s)"
  by (simp add: sget_def get_eq)

end

definition ms_ok :: "(bytes \<Rightarrow> hash) \<Rightarrow> memstore \<Rightarrow> bool" where
  "ms_ok H s \<longleftrightarrow> \<not> ms_closed s \<and> (\<forall>h b. ms_chunks s h = Some b \<longrightarrow> H b = h \<and> b \<in> set (ms_puts s))
     \<and> (\<forall>b \<in> set (ms_puts s). ms_chunks s (H b) \<noteq> None)"

lemma memstore_chunk_rw:
  "chunk_rw (memstore_ops H) H (ms_ok H) ms_chunks (\<lambda>s. set (ms_puts s))"
proof
  fix s h
  assume "ms_ok H s"
  then show "rw_Get (memstore_ops H) s h =
      (case ms_chunks s h of None \<Rightarrow> Inl ErrChunkNotFound | Some b \<Rightarrow> Inr b)"
    by (auto simp: memstore_ops_def ms_Get_def ms_ok_def split: option.splits)
next
  fix s h b
  assume "ms_ok H s" and "ms_chunks s h = Some b"
  then show "H b = h \<and> b \<in> set (ms_puts s)" by (auto simp: ms_ok_def)
next
  fix s b
  assume "ms_ok H s" and "b \<in> set (ms_puts s)"
  then show "ms_chunks s (H b) \<noteq> None" by (auto simp: ms_ok_def)
next
  fix s and b :: bytes
  assume "ms_ok H s" and "length b \<le> MaxChunkSize"
  then show "\<exists>s'. rw_Put (memstore_ops H) b s = (Inr (H b), s') \<and> ms_ok H s' \<and>
      set (ms_puts s') = insert b (set (ms_puts s)) \<and>
      ms_chunks s' = (if ms_chunks s (H b) = None then (ms_chunks s)(H b \<mapsto> b) else ms_chunks s)"
    by (auto simp: memstore_ops_def ms_Put_def ms_ok_def Let_def)
next
  fix s and b :: bytes
  assume "ms_ok H s" and "length b > MaxChunkSize"
  then show "rw_Put (memstore_ops H) b s = (Inl ErrChunkTooLarge, s)"
    by (simp add: memstore_ops_def ms_Put_def)
next
  fix praw
  assume "rw_PutRaw (memstore_ops H) = Some praw"
  then show "praw = rw_Put (memstore_ops H)" by (simp add: memstore_ops_def)
qed

interpretation ms: chunk_rw "memstore_ops H" H "ms_ok H" ms_chunks "\<lambda>s. set (ms_puts s)" for H
  by (rule memstore_chunk_rw)

lemma ms_New_ok: "ms_ok H ms_New"
  by (simp add: ms_ok_def ms_New_def)

end
