(* ===== verification/Cdc.thy ===== *)
theory Cdc
  imports Hash
begin

text \<open>
  \<^verbatim>\<open>core/cdc\<close> (\<^verbatim>\<open>cdc.go\<close>, \<^verbatim>\<open>buzhash.go\<close>): the serial content-defined chunker. The record
  \<open>chunker\<close> is the Go struct; the read buffer \<^verbatim>\<open>rd[rpos:rend]\<close> is the list \<open>ck_pend\<close> of the bytes
  read and not yet cut, and the chunk being cut is an argument of the loop of \<^verbatim>\<open>Next\<close>.

  The main lemma is \<open>cut_all_cuts\<close>: whatever the reads are, the chunks are those of the
  byte-at-a-time rule \<open>cuts\<close> over the concatenated bytes.
\<close>

section \<open>The Buzhash tables\<close>

text \<open>\<^verbatim>\<open>strconv.Itoa\<close> for a number under 1000.\<close>

fun itoa :: "nat \<Rightarrow> bytes" where
  "itoa n = (if n < 10 then [0x30 + of_nat n] else itoa (n div 10) @ [0x30 + of_nat (n mod 10)])"

declare itoa.simps [simp del]

definition cdc_table :: "(bytes \<Rightarrow> hash) \<Rightarrow> byte \<Rightarrow> u64" where
  "cdc_table H i = le_word (take 8 (hbytes (H (ascii ''disknexus-buzhash-v1-'' @ itoa (unat i)))))"

definition cdc_window :: nat where
  "cdc_window = 48"

definition cdc_outTable :: "(byte \<Rightarrow> u64) \<Rightarrow> byte \<Rightarrow> u64" where
  "cdc_outTable tb b = word_rotl cdc_window (tb b)"

definition zeroWindowHash :: "(byte \<Rightarrow> u64) \<Rightarrow> u64" where
  "zeroWindowHash tb = fold (\<lambda>i h. h XOR word_rotl (cdc_window - 1 - i) (tb 0)) [0..<cdc_window] 0"

section \<open>Geometry\<close>

record cdc_geometry =
  c_Min :: int
  c_Max :: int
  c_Mask :: u64

definition cdc_DefaultGeometry :: cdc_geometry where
  "cdc_DefaultGeometry = \<lparr>c_Min = 16 * 2 ^ 10, c_Max = 512 * 2 ^ 10, c_Mask = 0xFFFF\<rparr>"

text \<open>\<^verbatim>\<open>bits.Len64\<close>.\<close>

fun nat_len :: "nat \<Rightarrow> nat" where
  "nat_len n = (if n = 0 then 0 else Suc (nat_len (n div 2)))"

declare nat_len.simps [simp del]

definition Len64 :: "u64 \<Rightarrow> nat" where
  "Len64 w = nat_len (unat w)"

definition cdc_Validate :: "cdc_geometry \<Rightarrow> unit result" where
  "cdc_Validate g =
     (if c_Min g < 64 then Inl ErrGeometry
      else if c_Max g \<le> c_Min g then Inl ErrGeometry
      else if c_Max g > 2 ^ 20 then Inl ErrGeometry
      else if c_Mask g = 0 \<or> c_Mask g AND (c_Mask g + 1) \<noteq> 0 then Inl ErrGeometry
      else if Len64 (c_Mask g) < 8 \<or> Len64 (c_Mask g) > 30 then Inl ErrGeometry
      else Inr ())"

section \<open>The chunker\<close>

definition readSize :: nat where
  "readSize = 64 * 2 ^ 10"

record chunker =
  ck_g :: cdc_geometry
  ck_hard :: u64
  ck_easy :: u64
  ck_win :: bytes
  ck_pos :: nat
  ck_hash :: u64
  ck_r :: rdr
  ck_rd :: nat
  ck_pend :: bytes
  ck_full :: nat
  ck_eof :: bool
  ck_rerr :: "read_err option"

text \<open>\<^verbatim>\<open>New\<close>; \<open>len\<close> is what a \<^verbatim>\<open>Lener\<close> says it has left.\<close>

definition cdc_New :: "(byte \<Rightarrow> u64) \<Rightarrow> rdr \<Rightarrow> nat option \<Rightarrow> cdc_geometry \<Rightarrow> chunker result" where
  "cdc_New tb r len g =
     rbind (cdc_Validate g) (\<lambda>_. Inr
       \<lparr>ck_g = g, ck_hard = push_bit 2 (c_Mask g) OR c_Mask g, ck_easy = drop_bit 2 (c_Mask g),
        ck_win = replicate cdc_window 0, ck_pos = 0, ck_hash = zeroWindowHash tb,
        ck_r = r, ck_rd = (case len of None \<Rightarrow> readSize | Some l \<Rightarrow> min readSize (max l 1)),
        ck_pend = [], ck_full = 0, ck_eof = False, ck_rerr = None\<rparr>)"

section \<open>Scanning a buffer\<close>

definition ck_roll :: "(byte \<Rightarrow> u64) \<Rightarrow> byte \<Rightarrow> chunker \<Rightarrow> chunker" where
  "ck_roll tb b c =
     c\<lparr>ck_hash := word_rotl 1 (ck_hash c) XOR cdc_outTable tb (ck_win c ! ck_pos c) XOR tb b,
       ck_win := (ck_win c)[ck_pos c := b],
       ck_pos := (if Suc (ck_pos c) = cdc_window then 0 else Suc (ck_pos c))\<rparr>"

text \<open>One of the two byte loops of \<^verbatim>\<open>scan\<close>: from \<open>i\<close> up to \<open>lim\<close>, stopping after a byte whose
  hash \<open>msk\<close> misses.\<close>

function scan_loop :: "(byte \<Rightarrow> u64) \<Rightarrow> u64 \<Rightarrow> bytes \<Rightarrow> int \<Rightarrow> nat \<Rightarrow> chunker \<Rightarrow> nat \<times> bool \<times> chunker" where
  "scan_loop tb msk p lim i c =
     (if int i < lim then
        let c = ck_roll tb (p ! i) c in
          if ck_hash c AND msk = 0 then (Suc i, True, c) else scan_loop tb msk p lim (Suc i) c
      else (i, False, c))"
  by pat_completeness auto
termination
  by (relation "measure (\<lambda>(tb, msk, p, lim, i, c). nat (lim - int i))") auto

declare scan_loop.simps [simp del]

definition cdc_scan :: "(byte \<Rightarrow> u64) \<Rightarrow> bytes \<Rightarrow> nat \<Rightarrow> chunker \<Rightarrow> nat \<times> bool \<times> chunker" where
  "cdc_scan tb p n c =
     (let (i, hit, c) = scan_loop tb (ck_hard c) p (min (c_Min (ck_g c) - int n - 1) (int (length p))) 0 c in
      if hit then (i, True, c)
      else let (i, hit, c) = scan_loop tb (ck_easy c) p (min (c_Max (ck_g c) - int n - 1) (int (length p))) i c in
        if hit then (i, True, c)
        else if i < length p then (Suc i, True, ck_roll tb (p ! i) c)
        else (length p, False, c))"

section \<open>Filling the buffer and cutting\<close>

text \<open>What \<^verbatim>\<open>fill\<close> has left to do, for its termination.\<close>

definition fill_left :: "chunker \<Rightarrow> nat" where
  "fill_left c =
     (if ck_pend c \<noteq> [] then 0 else if ck_eof c then 1 else if ck_rerr c \<noteq> None then 2
      else 3 + length (ck_r c))"

text \<open>One read of \<^verbatim>\<open>fill\<close>: the buffer grown after two full reads, the read, and the count of full
  reads in a row; what the read returned beside.\<close>

definition fill_read :: "chunker \<Rightarrow> (bytes \<times> read_err option) \<times> chunker" where
  "fill_read c =
     (let c = (if ck_full c \<ge> 2 then c\<lparr>ck_rd := readSize, ck_full := 0\<rparr> else c);
          ((d, e), r) = rdr_Read (ck_rd c) (ck_r c);
          c = c\<lparr>ck_r := r\<rparr>;
          c = (if length d > 0 then c\<lparr>ck_pend := d\<rparr> else c);
          c = c\<lparr>ck_full := (if length d = ck_rd c \<and> length d < readSize then Suc (ck_full c) else 0)\<rparr>
      in ((d, e), c))"

text \<open>The outcome of a read kept in the chunker: the end of the stream, or an error to surface once
  the bytes read before it are consumed.\<close>

definition fill_mark :: "read_err option \<Rightarrow> chunker \<Rightarrow> chunker" where
  "fill_mark e c =
     (case e of None \<Rightarrow> c | Some x \<Rightarrow> if x = EOF then c\<lparr>ck_eof := True\<rparr> else c\<lparr>ck_rerr := Some x\<rparr>)"

function cdc_fill :: "nat \<Rightarrow> chunker \<Rightarrow> read_err option \<times> chunker" where
  "cdc_fill em c =
     (if ck_pend c \<noteq> [] then (None, c)
      else if ck_eof c then (Some EOF, c)
      else case ck_rerr c of
        Some e \<Rightarrow> (Some e, c\<lparr>ck_rerr := None, ck_eof := True\<rparr>)
      | None \<Rightarrow>
          (case fill_read c of ((d, e), c') \<Rightarrow>
             let em' = (if e = None \<and> d = [] then Suc em else em) in
               if e = None \<and> d = [] \<and> em' \<ge> 100 then (Some ErrNoProgress, c')
               else cdc_fill em' (fill_mark e c')))"
  by pat_completeness auto

lemma fill_read_fields:
  assumes "fill_read c = ((d, e), c')" and "ck_pend c = []"
  shows "ck_pend c' = d" and "ck_eof c' = ck_eof c" and "ck_rerr c' = ck_rerr c"
    and "d = [] \<Longrightarrow> e = None \<Longrightarrow> length (ck_r c') \<le> length (ck_r c) \<and> ck_r c \<noteq> []"
    and "ck_g c' = ck_g c" and "ck_hard c' = ck_hard c" and "ck_easy c' = ck_easy c"
    and "ck_win c' = ck_win c" and "ck_pos c' = ck_pos c" and "ck_hash c' = ck_hash c"
  using assms
  by (auto simp: fill_read_def Let_def split: if_splits prod.splits
      elim!: rdr_Read.elims)

lemma fill_read_left:
  assumes "fill_read c = ((d, e), c')" and "ck_pend c = []" and "\<not> ck_eof c" and "ck_rerr c = None"
  shows "e \<noteq> None \<or> d \<noteq> [] \<Longrightarrow> fill_left (fill_mark e c') < fill_left c"
    and "e = None \<Longrightarrow> d = [] \<Longrightarrow> fill_left (fill_mark e c') \<le> fill_left c"
  using fill_read_fields[OF assms(1,2)] assms(2-4)
  by (auto simp: fill_left_def fill_mark_def split: option.splits)

termination cdc_fill
  by (relation "measures [\<lambda>(em, c). fill_left c, \<lambda>(em, c). 100 - em]")
    (auto intro: fill_read_left(1)[OF sym] dest: fill_read_left(2)[OF sym] split: if_splits)

declare cdc_fill.simps [simp del]

text \<open>What is left for the chunker to consume: no step of \<^verbatim>\<open>Next\<close> adds to it.\<close>

definition ck_work :: "chunker \<Rightarrow> nat" where
  "ck_work c =
     length (ck_pend c) +
     (if ck_eof c \<or> ck_rerr c \<noteq> None then 0 else sum_list (map (\<lambda>(d, e). Suc (length d)) (ck_r c)))"

lemma fill_read_work:
  assumes "fill_read c = ((d, e), c')" and "ck_pend c = []" and "\<not> ck_eof c" and "ck_rerr c = None"
  shows "ck_work c' \<le> ck_work c" and "ck_work (fill_mark e c') \<le> ck_work c"
  using assms
  by (auto simp: fill_read_def fill_mark_def Let_def ck_work_def
      split: if_splits prod.splits option.splits dest!: rdr_Read_work)

lemma cdc_fill_work: "cdc_fill em c = (e, c') \<Longrightarrow> ck_work c' \<le> ck_work c \<and> (e = None \<longrightarrow> ck_pend c' \<noteq> [])"
proof (induction em c arbitrary: e c' rule: cdc_fill.induct)
  case (1 em c)
  show ?case
  proof (cases "ck_pend c \<noteq> [] \<or> ck_eof c \<or> ck_rerr c \<noteq> None")
    case True
    then show ?thesis
      using "1.prems" by (auto simp: cdc_fill.simps[of em c] ck_work_def split: if_splits)
  next
    case False
    obtain d x c1 where r: "fill_read c = ((d, x), c1)" by (metis surj_pair)
    have w: "ck_work c1 \<le> ck_work c" "ck_work (fill_mark x c1) \<le> ck_work c"
      using fill_read_work[OF r] False by auto
    show ?thesis
      using "1.prems" "1.IH"[OF _ _ _ r[symmetric] refl refl] False w
      by (fastforce simp: cdc_fill.simps[of em c] r Let_def split: if_splits)
  qed
qed

lemma ck_roll_fields [simp]:
  "ck_g (ck_roll tb b c) = ck_g c" "ck_hard (ck_roll tb b c) = ck_hard c"
  "ck_easy (ck_roll tb b c) = ck_easy c" "ck_pend (ck_roll tb b c) = ck_pend c"
  "ck_eof (ck_roll tb b c) = ck_eof c" "ck_rerr (ck_roll tb b c) = ck_rerr c"
  "ck_r (ck_roll tb b c) = ck_r c" "ck_rd (ck_roll tb b c) = ck_rd c"
  "ck_work (ck_roll tb b c) = ck_work c"
  by (simp_all add: ck_roll_def ck_work_def)

lemma scan_loop_masks:
  "scan_loop tb msk p lim i c = (j, hit, c') \<Longrightarrow>
   ck_g c' = ck_g c \<and> ck_hard c' = ck_hard c \<and> ck_easy c' = ck_easy c \<and> ck_work c' = ck_work c
   \<and> ck_pend c' = ck_pend c \<and> (hit \<longrightarrow> 0 < j)"
  by (induction tb msk p lim i c rule: scan_loop.induct)
    (subst (asm) (2) scan_loop.simps, auto simp: Let_def split: if_splits)

text \<open>The rule a byte is judged by, the chunk \<open>n\<close> bytes long with it.\<close>

definition cut_here :: "chunker \<Rightarrow> nat \<Rightarrow> bool" where
  "cut_here c n =
     (if int n < c_Min (ck_g c) then ck_hash c AND ck_hard c = 0
      else if int n < c_Max (ck_g c) then ck_hash c AND ck_easy c = 0
      else True)"

text \<open>\<^verbatim>\<open>scan\<close> a byte at a time, the mask chosen for each byte.\<close>

fun scan_ref :: "(byte \<Rightarrow> u64) \<Rightarrow> bytes \<Rightarrow> nat \<Rightarrow> chunker \<Rightarrow> nat \<times> bool \<times> chunker" where
  "scan_ref tb [] n c = (0, False, c)"
| "scan_ref tb (b # p) n c =
     (let c = ck_roll tb b c in
        if cut_here c (Suc n) then (1, True, c)
        else let (i, hit, c) = scan_ref tb p (Suc n) c in (Suc i, hit, c))"

definition scan_from :: "(byte \<Rightarrow> u64) \<Rightarrow> bytes \<Rightarrow> nat \<Rightarrow> nat \<Rightarrow> chunker \<Rightarrow> nat \<times> bool \<times> chunker" where
  "scan_from tb p n i c = (let (j, hit, c) = scan_ref tb (drop i p) (n + i) c in (i + j, hit, c))"

lemma scan_from_step:
  assumes "i < length p"
  shows "scan_from tb p n i c =
    (let c = ck_roll tb (p ! i) c in if cut_here c (Suc (n + i)) then (Suc i, True, c) else scan_from tb p n (Suc i) c)"
  using assms
  by (auto simp: scan_from_def Let_def Cons_nth_drop_Suc[symmetric] split: prod.splits)

lemma scan_loop_from:
  assumes "\<And>k c'. int k < lim \<Longrightarrow> i \<le> k \<Longrightarrow> ck_g c' = ck_g c \<Longrightarrow> ck_hard c' = ck_hard c \<Longrightarrow> ck_easy c' = ck_easy c
             \<Longrightarrow> cut_here c' (Suc (n + k)) = (ck_hash c' AND msk = 0)"
    and "lim \<le> int (length p)"
  shows "case scan_loop tb msk p lim i c of (j, hit, c') \<Rightarrow>
           scan_from tb p n i c = (if hit then (j, True, c') else scan_from tb p n j c')
           \<and> (\<not> hit \<longrightarrow> j = max i (nat lim))"
  using assms
proof (induction tb msk p lim i c rule: scan_loop.induct)
  case (1 tb msk p lim i c)
  show ?case
  proof (cases "int i < lim")
    case False
    then show ?thesis by (subst scan_loop.simps) auto
  next
    case True
    let ?c = "ck_roll tb (p ! i) c"
    have st: "scan_from tb p n i c = (if ck_hash ?c AND msk = 0 then (Suc i, True, ?c) else scan_from tb p n (Suc i) ?c)"
      using True "1.prems" by (subst scan_from_step) (auto simp: Let_def)
    show ?thesis
    proof (cases "ck_hash ?c AND msk = 0")
      case c: True
      then show ?thesis using True st by (subst scan_loop.simps) (simp add: Let_def)
    next
      case c: False
      have IH: "case scan_loop tb msk p lim (Suc i) ?c of (j, hit, c') \<Rightarrow>
           scan_from tb p n (Suc i) ?c = (if hit then (j, True, c') else scan_from tb p n j c')
           \<and> (\<not> hit \<longrightarrow> j = max (Suc i) (nat lim))"
        by (rule "1.IH"[OF True refl c]) (use "1.prems" in auto)
      then show ?thesis using True st c
        by (subst scan_loop.simps) (auto simp: Let_def split: prod.splits)
    qed
  qed
qed

text \<open>The two mask loops of \<^verbatim>\<open>scan\<close> make the decisions of the byte-at-a-time rule.\<close>

lemma cdc_scan_ref:
  assumes "c_Min (ck_g c) \<le> c_Max (ck_g c)"
  shows "cdc_scan tb p n c = scan_ref tb p n c"
proof -
  let ?l1 = "min (c_Min (ck_g c) - int n - 1) (int (length p))"
  let ?l2 = "min (c_Max (ck_g c) - int n - 1) (int (length p))"
  obtain i1 b1 c1 where s1: "scan_loop tb (ck_hard c) p ?l1 0 c = (i1, b1, c1)" by (metis surj_pair)
  note m1 = scan_loop_masks[OF s1]
  obtain i2 b2 c2 where s2: "scan_loop tb (ck_easy c1) p ?l2 i1 c1 = (i2, b2, c2)" by (metis surj_pair)
  note m2 = scan_loop_masks[OF s2]
  have all: "scan_ref tb p n c = scan_from tb p n 0 c" by (simp add: scan_from_def split: prod.splits)
  have f1: "scan_from tb p n 0 c = (if b1 then (i1, True, c1) else scan_from tb p n i1 c1)
      \<and> (\<not> b1 \<longrightarrow> i1 = nat ?l1)"
    using scan_loop_from[of ?l1 0 c n "ck_hard c" p tb] s1 by (auto simp: cut_here_def)
  have f2: "scan_from tb p n i1 c1 = (if b2 then (i2, True, c2) else scan_from tb p n i2 c2)
      \<and> (\<not> b2 \<longrightarrow> i2 = max i1 (nat ?l2))" if "\<not> b1"
  proof -
    have "cut_here c' (Suc (n + k)) = (ck_hash c' AND ck_easy c1 = 0)"
      if k: "int k < ?l2" "i1 \<le> k" and g: "ck_g c' = ck_g c1" "ck_easy c' = ck_easy c1" for k c'
      using k g m1 f1 \<open>\<not> b1\<close> by (auto simp: cut_here_def)
    then show ?thesis
      using scan_loop_from[of ?l2 i1 c1 n "ck_easy c1" p tb] s2 by auto
  qed
  have f3: "scan_from tb p n i2 c2 = (if i2 < length p then (Suc i2, True, ck_roll tb (p ! i2) c2) else (length p, False, c2))"
    if "\<not> b1" "\<not> b2"
  proof (cases "i2 < length p")
    case True
    then show ?thesis using f1 f2 that m1 m2 assms
      by (subst scan_from_step) (auto simp: Let_def cut_here_def)
  next
    case False
    then show ?thesis using f1 f2 that assms by (auto simp: scan_from_def)
  qed
  have "cdc_scan tb p n c =
      (if b1 then (i1, True, c1) else if b2 then (i2, True, c2)
       else if i2 < length p then (Suc i2, True, ck_roll tb (p ! i2) c2) else (length p, False, c2))"
    unfolding cdc_scan_def s1 Let_def prod.case conjunct1[OF m1] s2[unfolded conjunct1[OF m1]] by (rule refl)
  also have "\<dots> = scan_from tb p n 0 c"
  proof (cases b1)
    case True
    then show ?thesis using conjunct1[OF f1] by (simp only: if_True)
  next
    case False
    then show ?thesis
      using conjunct1[OF f1] conjunct1[OF f2[OF False]] f3[OF False] by (cases b2) (simp_all only: if_False if_True not_False_eq_True simp_thms)
  qed
  finally show ?thesis using all by simp
qed

lemma cdc_scan_work:
  assumes "cdc_scan tb p n c = (i, hit, c')"
  shows "ck_work c' = ck_work c" "ck_pend c' = ck_pend c"
    and "\<not> hit \<Longrightarrow> i = length p" and "hit \<Longrightarrow> 0 < i"
  using assms
  by (auto simp: cdc_scan_def Let_def split: prod.splits if_splits dest!: scan_loop_masks)

section \<open>Next\<close>

function cdc_Next_loop :: "(byte \<Rightarrow> u64) \<Rightarrow> bytes \<Rightarrow> chunker \<Rightarrow> (read_err + bytes) \<times> chunker" where
  "cdc_Next_loop tb buf c =
     (case (if ck_pend c = [] then cdc_fill 0 c else (None, c)) of
        (Some e, c1) \<Rightarrow> if e = EOF \<and> buf \<noteq> [] then (Inr buf, c1) else (Inl e, c1)
      | (None, c1) \<Rightarrow>
          (case cdc_scan tb (ck_pend c1) (length buf) c1 of (i, hit, c2) \<Rightarrow>
             let buf' = buf @ take i (ck_pend c1); c3 = c2\<lparr>ck_pend := drop i (ck_pend c1)\<rparr> in
               if hit then (Inr buf', c3) else cdc_Next_loop tb buf' c3))"
  by pat_completeness auto

lemma ck_work_drop: "ck_work (c\<lparr>ck_pend := q\<rparr>) + length (ck_pend c) = ck_work c + length q"
  by (simp add: ck_work_def)

lemma Next_fill_work:
  assumes "(if ck_pend c = [] then cdc_fill 0 c else (None, c)) = (e, c1)"
  shows "ck_work c1 \<le> ck_work c" and "e = None \<Longrightarrow> ck_pend c1 \<noteq> []"
  using assms cdc_fill_work[of 0 c e c1] by (auto split: if_splits)

lemma Next_scan_work:
  assumes "cdc_scan tb (ck_pend c) n c = (i, hit, c')" and "ck_pend c \<noteq> []"
  shows "ck_work (c'\<lparr>ck_pend := drop i (ck_pend c)\<rparr>) < ck_work c"
  using cdc_scan_work[OF assms(1)] assms(2) ck_work_drop[where c = c' and q = "drop i (ck_pend c)"]
  by (cases hit; cases "ck_pend c") auto

termination cdc_Next_loop
proof (relation "measure (\<lambda>(tb, buf, c). ck_work c)", goal_cases)
  case (2 tb buf c e c1 i y hit c2 buf' c3)
  have "ck_work c1 \<le> ck_work c" "ck_pend c1 \<noteq> []"
    using Next_fill_work[of c e c1] 2(1,2) by auto
  then show ?case using Next_scan_work[of tb c1 "length buf" i hit c2] 2 by auto
qed simp

declare cdc_Next_loop.simps [simp del]

definition cdc_Next :: "(byte \<Rightarrow> u64) \<Rightarrow> chunker \<Rightarrow> (read_err + bytes) \<times> chunker" where
  "cdc_Next tb c = cdc_Next_loop tb [] c"

lemma cdc_Next_loop_work:
  "cdc_Next_loop tb buf c = (Inr out, c') \<Longrightarrow> ck_work c' < ck_work c \<or> (buf \<noteq> [] \<and> ck_work c' \<le> ck_work c)"
proof (induction tb buf c rule: cdc_Next_loop.induct)
  case (1 tb buf c)
  obtain e c1 where f: "(if ck_pend c = [] then cdc_fill 0 c else (None, c)) = (e, c1)" by (metis surj_pair)
  obtain i hit c2 where s: "cdc_scan tb (ck_pend c1) (length buf) c1 = (i, hit, c2)" by (metis surj_pair)
  have w1: "ck_work c1 \<le> ck_work c" and p1: "e = None \<Longrightarrow> ck_pend c1 \<noteq> []"
    using Next_fill_work[OF f] by auto
  show ?case
  proof (cases e)
    case None
    have w2: "ck_work (c2\<lparr>ck_pend := drop i (ck_pend c1)\<rparr>) < ck_work c"
      using Next_scan_work[OF s p1[OF None]] w1 by linarith
    show ?thesis
      using "1.prems" "1.IH"[OF f[symmetric] None s[symmetric] refl refl refl] w2
      by (subst (asm) cdc_Next_loop.simps) (auto simp: f s None Let_def split: if_splits)
  next
    case (Some x)
    then show ?thesis using "1.prems" w1
      by (subst (asm) cdc_Next_loop.simps) (auto simp: f split: if_splits)
  qed
qed

lemma cdc_Next_work: "cdc_Next tb c = (Inr d, c') \<Longrightarrow> ck_work c' < ck_work c"
  using cdc_Next_loop_work[of tb "[]" c d c'] by (simp add: cdc_Next_def)

text \<open>\<^verbatim>\<open>Next\<close> called until it fails: the chunks, and what it failed with.\<close>

function cut_all :: "(byte \<Rightarrow> u64) \<Rightarrow> chunker \<Rightarrow> bytes list \<times> read_err" where
  "cut_all tb c =
     (case cdc_Next tb c of
        (Inl e, c') \<Rightarrow> ([], e)
      | (Inr d, c') \<Rightarrow> let (ds, e) = cut_all tb c' in (d # ds, e))"
  by pat_completeness auto
termination
  by (relation "measure (\<lambda>(tb, c). ck_work c)") (auto dest: cdc_Next_work[OF sym])

declare cut_all.simps [simp del]

section \<open>What the chunker cuts\<close>

text \<open>The bytes a reader delivers before its first error, and that error; \<open>em\<close> reads returned
  nothing before.\<close>

fun rdr_stream :: "nat \<Rightarrow> rdr \<Rightarrow> bytes \<times> read_err" where
  "rdr_stream em [] = ([], EOF)"
| "rdr_stream em ((d, Some e) # rs) = (d, e)"
| "rdr_stream em ((d, None) # rs) =
     (if d = [] then if Suc em \<ge> 100 then ([], ErrNoProgress) else rdr_stream (Suc em) rs
      else let (bs, e) = rdr_stream 0 rs in (d @ bs, e))"

definition ck_stream :: "nat \<Rightarrow> chunker \<Rightarrow> bytes \<times> read_err" where
  "ck_stream em c =
     (let (bs, e) = (if ck_eof c then ([], EOF)
                     else case ck_rerr c of Some e \<Rightarrow> ([], e)
                          | None \<Rightarrow> rdr_stream (if ck_pend c = [] then em else 0) (ck_r c))
      in (ck_pend c @ bs, e))"

text \<open>The chunks of a byte sequence by the byte-at-a-time rule, and the bytes of the chunk under
  way at its end.\<close>

fun cuts :: "(byte \<Rightarrow> u64) \<Rightarrow> chunker \<Rightarrow> bytes \<Rightarrow> bytes \<Rightarrow> bytes list \<times> bytes" where
  "cuts tb c buf [] = ([], buf)"
| "cuts tb c buf (b # bs) =
     (let c = ck_roll tb b c; buf = buf @ [b] in
        if cut_here c (length buf) then let (ds, t) = cuts tb c [] bs in (buf # ds, t)
        else cuts tb c buf bs)"

definition ck_same :: "chunker \<Rightarrow> chunker \<Rightarrow> bool" where
  "ck_same c c' = (ck_g c = ck_g c' \<and> ck_hard c = ck_hard c' \<and> ck_easy c = ck_easy c' \<and>
     ck_win c = ck_win c' \<and> ck_pos c = ck_pos c' \<and> ck_hash c = ck_hash c')"

lemma cuts_same: "ck_same c c' \<Longrightarrow> cuts tb c buf bs = cuts tb c' buf bs"
proof (induction bs arbitrary: c c' buf)
  case (Cons b bs)
  have r: "ck_same (ck_roll tb b c) (ck_roll tb b c')"
    using Cons.prems by (auto simp: ck_same_def ck_roll_def)
  then have "cut_here (ck_roll tb b c) n = cut_here (ck_roll tb b c') n" for n
    by (simp add: cut_here_def ck_same_def)
  then show ?case using Cons.IH[OF r] by (simp add: Let_def)
qed simp

lemma cuts_scan:
  "scan_ref tb p (length buf) c = (i, hit, c') \<Longrightarrow>
   cuts tb c buf (p @ bs) =
     (if hit then let (ds, t) = cuts tb c' [] (drop i p @ bs) in ((buf @ take i p) # ds, t)
      else cuts tb c' (buf @ p) bs)"
proof (induction p arbitrary: buf c i)
  case (Cons b p)
  show ?case
  proof (cases "cut_here (ck_roll tb b c) (Suc (length buf))")
    case True
    then show ?thesis using Cons.prems by (auto simp: Let_def)
  next
    case False
    then obtain j where "scan_ref tb p (length (buf @ [b])) (ck_roll tb b c) = (j, hit, c')" and "i = Suc j"
      using Cons.prems by (auto simp: Let_def split: prod.splits)
    then show ?thesis using False Cons.IH[of "buf @ [b]" "ck_roll tb b c" j] by (simp add: Let_def)
  qed
qed simp

lemma rdr_stream_Read:
  assumes "rdr_Read k r = ((d, e), r')" and "1 \<le> k"
  shows "rdr_stream em r =
    (case e of Some x \<Rightarrow> (d, x)
     | None \<Rightarrow> if d = [] then if Suc em \<ge> 100 then ([], ErrNoProgress) else rdr_stream (Suc em) r'
               else let (bs, x) = rdr_stream 0 r' in (d @ bs, x))"
  using assms
proof (induction k r rule: rdr_Read.induct)
  case (2 k d e rs)
  have "take k d \<noteq> [] \<and> drop k d \<noteq> []" if "k < length d" using that 2 by auto
  then show ?case using 2 by (cases e) (auto simp: Let_def split: if_splits prod.splits)
qed auto

lemma fill_read_stream:
  assumes "fill_read c = ((d, e), c')" and "ck_pend c = []" and "\<not> ck_eof c" and "ck_rerr c = None"
    and "1 \<le> ck_rd c"
  shows "e = None \<Longrightarrow> d = [] \<Longrightarrow> Suc em \<ge> 100 \<Longrightarrow> ck_stream em c = ([], ErrNoProgress)"
    and "\<not> (e = None \<and> d = [] \<and> Suc em \<ge> 100) \<Longrightarrow>
           ck_stream em c = ck_stream (if e = None \<and> d = [] then Suc em else em) (fill_mark e c')"
    and "1 \<le> ck_rd c'" and "ck_same c' c"
proof -
  let ?c = "if ck_full c \<ge> 2 then c\<lparr>ck_rd := readSize, ck_full := 0\<rparr> else c"
  obtain r' where r: "rdr_Read (ck_rd ?c) (ck_r ?c) = ((d, e), r')" and r': "ck_r c' = r'"
    and rd: "ck_rd c' = ck_rd ?c"
    using assms(1) by (auto simp: fill_read_def Let_def split: prod.splits if_splits)
  have k: "1 \<le> ck_rd ?c" using assms(5) by (simp add: readSize_def)
  then show "1 \<le> ck_rd c'" using rd by simp
  show "ck_same c' c" using fill_read_fields[OF assms(1,2)] by (simp add: ck_same_def)
  have rs: "ck_r ?c = ck_r c" by simp
  note st = rdr_stream_Read[OF r k, unfolded rs]
  note f = fill_read_fields[OF assms(1,2)]
  show "ck_stream em c = ([], ErrNoProgress)" if "e = None" "d = []" "Suc em \<ge> 100"
    using that assms st[of em] by (simp add: ck_stream_def)
  show "ck_stream em c = ck_stream (if e = None \<and> d = [] then Suc em else em) (fill_mark e c')"
    if "\<not> (e = None \<and> d = [] \<and> Suc em \<ge> 100)"
    using that assms st[of em] f r'
    by (auto simp: ck_stream_def fill_mark_def split: option.splits prod.splits)
qed

lemma fill_mark_fields [simp]:
  "ck_rd (fill_mark e c) = ck_rd c" "ck_same (fill_mark e c) c' = ck_same c c'"
  by (auto simp: fill_mark_def ck_same_def split: option.splits)

lemma ck_same_trans: "ck_same a b \<Longrightarrow> ck_same b c \<Longrightarrow> ck_same a c"
  by (simp add: ck_same_def)

lemma cdc_fill_stream:
  assumes "cdc_fill em c = (e, c')" and "1 \<le> ck_rd c"
  shows "1 \<le> ck_rd c' \<and> ck_same c' c \<and>
    (case e of None \<Rightarrow> ck_stream 0 c' = ck_stream em c
     | Some x \<Rightarrow> ck_stream em c = ([], x) \<and> (x = EOF \<longrightarrow> ck_stream 0 c' = ([], EOF)))"
  using assms
proof (induction em c rule: cdc_fill.induct)
  case (1 em c)
  show ?case
  proof (cases "ck_pend c \<noteq> [] \<or> ck_eof c \<or> ck_rerr c \<noteq> None")
    case True
    then show ?thesis
      using "1.prems" 
      by (auto simp: cdc_fill.simps[of em c] ck_stream_def ck_same_def split: if_splits option.splits)
  next
    case False
    obtain d x c1 where r: "fill_read c = ((d, x), c1)" by (metis surj_pair)
    note st = fill_read_stream[OF r _ _ _ "1.prems"(2)]
    show ?thesis
    proof (cases "x = None \<and> d = [] \<and> Suc em \<ge> 100")
      case True
      then show ?thesis using "1.prems" False r st(1,3,4) by (auto simp: cdc_fill.simps[of em c])
    next
      case n: False
      let ?em = "if x = None \<and> d = [] then Suc em else em"
      have eq: "cdc_fill em c = cdc_fill ?em (fill_mark x c1)"
        using False n r by (subst cdc_fill.simps) (auto simp: Let_def)
      have IH: "1 \<le> ck_rd c' \<and> ck_same c' (fill_mark x c1) \<and>
          (case e of None \<Rightarrow> ck_stream 0 c' = ck_stream ?em (fill_mark x c1)
           | Some y \<Rightarrow> ck_stream ?em (fill_mark x c1) = ([], y) \<and> (y = EOF \<longrightarrow> ck_stream 0 c' = ([], EOF)))"
        by (rule "1.IH"[OF _ _ _ r[symmetric] refl refl]) (use False n eq st(3) "1.prems" in auto)
      have "ck_stream em c = ck_stream ?em (fill_mark x c1)" using st(2)[OF _ _ _ n] False by simp
      moreover have "ck_same c' c" using ck_same_trans[of c' "fill_mark x c1" c] IH st(4) False by simp
      ultimately show ?thesis using IH by (simp only: simp_thms)
    qed
  qed
qed

lemma Next_fill_stream:
  assumes "(if ck_pend c = [] then cdc_fill 0 c else (None, c)) = (e, c1)" and "1 \<le> ck_rd c"
  shows "1 \<le> ck_rd c1 \<and> ck_same c1 c \<and>
    (case e of None \<Rightarrow> ck_stream 0 c1 = ck_stream 0 c
     | Some x \<Rightarrow> ck_stream 0 c = ([], x) \<and> (x = EOF \<longrightarrow> ck_stream 0 c1 = ([], EOF)))"
  using assms cdc_fill_stream[of 0 c e c1] by (auto simp: ck_same_def split: if_splits)

lemma scan_ref_fields:
  "scan_ref tb p n c = (i, hit, c') \<Longrightarrow>
   ck_eof c' = ck_eof c \<and> ck_rerr c' = ck_rerr c \<and> ck_r c' = ck_r c \<and> ck_rd c' = ck_rd c \<and>
   ck_g c' = ck_g c \<and> i \<le> length p \<and> (\<not> hit \<longrightarrow> i = length p)"
  by (induction p arbitrary: n c i) (fastforce simp: Let_def split: if_splits prod.splits)+

lemma cuts_pend [simp]: "cuts tb (c\<lparr>ck_pend := q\<rparr>) buf bs = cuts tb c buf bs"
  by (rule cuts_same) (simp add: ck_same_def)

lemma ck_stream_pend:
  obtains q x where
    "\<And>c'. ck_eof c' = ck_eof c \<Longrightarrow> ck_rerr c' = ck_rerr c \<Longrightarrow> ck_r c' = ck_r c
        \<Longrightarrow> ck_stream 0 c' = (ck_pend c' @ q, x)"
proof -
  let ?s = "if ck_eof c then ([], EOF) else case ck_rerr c of Some e \<Rightarrow> ([], e) | None \<Rightarrow> rdr_stream 0 (ck_r c)"
  show thesis by (rule that[of "fst ?s" "snd ?s"]) (auto simp: ck_stream_def Let_def split: option.splits prod.splits)
qed

text \<open>What one \<^verbatim>\<open>Next\<close> takes off the stream: the first chunk of \<open>cuts\<close>, or the bytes left at the
  end of the stream.\<close>

definition next_takes :: "(byte \<Rightarrow> u64) \<Rightarrow> bytes \<Rightarrow> chunker \<Rightarrow> (read_err + bytes) \<Rightarrow> chunker \<Rightarrow> bool" where
  "next_takes tb buf c res c' =
     (let (bs, e) = ck_stream 0 c; (ds, t) = cuts tb c buf bs in
      case res of
        Inl x \<Rightarrow> x = e \<and> ds = [] \<and> (e = EOF \<longrightarrow> t = [])
      | Inr out \<Rightarrow>
          (let (bs', e') = ck_stream 0 c'; (ds', t') = cuts tb c' [] bs' in
             e' = e \<and> (ds = out # ds' \<and> t = t' \<or> e = EOF \<and> ds = [] \<and> t = out \<and> out \<noteq> [] \<and> ds' = [] \<and> t' = [])))"

lemma cdc_Next_loop_cuts:
  assumes "cdc_Next_loop tb buf c = (res, c')" and "1 \<le> ck_rd c" and "c_Min (ck_g c) \<le> c_Max (ck_g c)"
  shows "1 \<le> ck_rd c' \<and> ck_g c' = ck_g c \<and> next_takes tb buf c res c'"
  using assms
proof (induction tb buf c rule: cdc_Next_loop.induct)
  case (1 tb buf c)
  obtain e c1 where f: "(if ck_pend c = [] then cdc_fill 0 c else (None, c)) = (e, c1)" by (metis surj_pair)
  note st = Next_fill_stream[OF f "1.prems"(2)]
  show ?case
  proof (cases e)
    case (Some x)
    then show ?thesis using "1.prems" st
      by (subst (asm) cdc_Next_loop.simps) (auto simp: f ck_same_def next_takes_def split: if_splits)
  next
    case None
    have g: "c_Min (ck_g c1) \<le> c_Max (ck_g c1)" using st "1.prems"(3) by (simp add: ck_same_def)
    obtain i hit c2 where s: "cdc_scan tb (ck_pend c1) (length buf) c1 = (i, hit, c2)" by (metis surj_pair)
    have sr: "scan_ref tb (ck_pend c1) (length buf) c1 = (i, hit, c2)" using s cdc_scan_ref[OF g] by simp
    let ?c3 = "c2\<lparr>ck_pend := drop i (ck_pend c1)\<rparr>"
    note fs = scan_ref_fields[OF sr]
    obtain q x where all: "\<And>c'. ck_eof c' = ck_eof c1 \<Longrightarrow> ck_rerr c' = ck_rerr c1 \<Longrightarrow> ck_r c' = ck_r c1
        \<Longrightarrow> ck_stream 0 c' = (ck_pend c' @ q, x)"
      using ck_stream_pend[of c1] by blast
    then have str: "ck_stream 0 c1 = (ck_pend c1 @ q, x)" by simp
    have cu: "cuts tb c buf (ck_pend c1 @ q) =
       (if hit then let (ds, t) = cuts tb c2 [] (drop i (ck_pend c1) @ q) in ((buf @ take i (ck_pend c1)) # ds, t)
        else cuts tb c2 (buf @ ck_pend c1) q)"
      using cuts_scan[OF sr] cuts_same[of c1 c] st by simp
    have str3: "ck_stream 0 ?c3 = (drop i (ck_pend c1) @ q, x)" using all[of ?c3] fs by simp
    show ?thesis
    proof (cases hit)
      case True
      have "res = Inr (buf @ take i (ck_pend c1))" "c' = ?c3"
        using "1.prems"(1) f s None True by (auto simp: cdc_Next_loop.simps[of tb buf c] Let_def)
      then show ?thesis using cu str str3 st fs True None
        by (auto simp: next_takes_def ck_same_def split: prod.splits)
    next
      case False
      have eq: "cdc_Next_loop tb buf c = cdc_Next_loop tb (buf @ take i (ck_pend c1)) ?c3"
        using f s None False by (auto simp: cdc_Next_loop.simps[of tb buf c] Let_def)
      have i: "i = length (ck_pend c1)" and c: "ck_stream 0 c = (ck_pend c1 @ q, x)"
        and cc: "cuts tb c buf (ck_pend c1 @ q) = cuts tb c2 (buf @ ck_pend c1) q"
        using fs False None st str cu by simp_all
      have k: "1 \<le> ck_rd ?c3" "c_Min (ck_g ?c3) \<le> c_Max (ck_g ?c3)" and g3: "ck_g ?c3 = ck_g c"
        using fs st "1.prems"(3) by (simp_all add: ck_same_def)
      have "1 \<le> ck_rd c' \<and> ck_g c' = ck_g c \<and> next_takes tb (buf @ take i (ck_pend c1)) ?c3 res c'"
        using "1.IH"[OF f[symmetric] None s[symmetric] refl refl refl False _ k] eq "1.prems"(1) g3 by simp
      then show ?thesis using str3 by (simp add: next_takes_def c cc i)
    qed
  qed
qed

text \<open>The chunks cut from a stream are those of the byte-at-a-time rule over the bytes the reader
  delivers, in whatever blocks; at the end of the stream the bytes left are the last chunk, and at an
  error they are dropped.\<close>

lemma cut_all_cuts:
  assumes "1 \<le> ck_rd c" and "c_Min (ck_g c) \<le> c_Max (ck_g c)"
  shows "cut_all tb c =
    (let (bs, e) = ck_stream 0 c; (ds, t) = cuts tb c [] bs in
       (ds @ (if e = EOF \<and> t \<noteq> [] then [t] else []), e))"
  using assms
proof (induction tb c rule: cut_all.induct)
  case (1 tb c)
  obtain res c' where n: "cdc_Next tb c = (res, c')" by (metis surj_pair)
  note sp = cdc_Next_loop_cuts[OF n[unfolded cdc_Next_def] "1.prems"]
  show ?case
  proof (cases res)
    case (Inl e)
    then show ?thesis using sp by (subst cut_all.simps) (auto simp: n next_takes_def)
  next
    case (Inr d)
    have "cut_all tb c' = (let (bs, e) = ck_stream 0 c'; (ds, t) = cuts tb c' [] bs in
       (ds @ (if e = EOF \<and> t \<noteq> [] then [t] else []), e))"
      using "1.IH"[OF n[symmetric] Inr] sp "1.prems" by simp
    then show ?thesis using sp Inr by (subst cut_all.simps) (auto simp: n next_takes_def split: prod.splits)
  qed
qed

lemma cuts_concat: "cuts tb c buf bs = (ds, t) \<Longrightarrow> concat ds @ t = buf @ bs"
  by (induction bs arbitrary: c buf ds) (fastforce simp: Let_def split: if_splits prod.splits)+

lemma cuts_sizes:
  "cuts tb c buf bs = (ds, t) \<Longrightarrow> int (length buf) < c_Max (ck_g c) \<Longrightarrow> c_Min (ck_g c) \<le> c_Max (ck_g c) \<Longrightarrow> 0 < c_Max (ck_g c) \<Longrightarrow>
   (\<forall>d\<in>set ds. d \<noteq> [] \<and> int (length d) \<le> c_Max (ck_g c)) \<and> int (length t) < c_Max (ck_g c)"
proof (induction bs arbitrary: c buf ds)
  case (Cons b bs)
  let ?c = "ck_roll tb b c"
  show ?case
  proof (cases "cut_here ?c (length (buf @ [b]))")
    case True
    then obtain ds' where "cuts tb ?c [] bs = (ds', t)" "ds = (buf @ [b]) # ds'"
      using Cons.prems(1) by (auto simp: Let_def split: prod.splits)
    then show ?thesis using Cons.IH[of ?c "[]" ds'] Cons.prems by auto
  next
    case False
    then have "cuts tb ?c (buf @ [b]) bs = (ds, t)" using Cons.prems(1) by (simp add: Let_def)
    moreover have "int (length (buf @ [b])) < c_Max (ck_g c)"
      using False Cons.prems(3) by (auto simp: cut_here_def split: if_splits)
    ultimately show ?thesis using Cons.IH[of ?c "buf @ [b]" ds] Cons.prems by simp
  qed
qed simp

lemma cdc_ValidateD:
  assumes "cdc_Validate g = Inr u"
  shows "64 \<le> c_Min g" "c_Min g < c_Max g" "c_Max g \<le> 2 ^ 20"
  using assms by (auto simp: cdc_Validate_def split: if_splits)

lemma cdc_NewD:
  assumes "cdc_New tb r len g = Inr c"
  shows "ck_g c = g" "1 \<le> ck_rd c" "ck_stream 0 c = rdr_stream 0 r" "cdc_Validate g = Inr ()"
  using assms
  by (auto simp: cdc_New_def ck_stream_def readSize_def result_simps split: sum.splits option.splits)

text \<open>The chunks of a whole stream, from the state \<^verbatim>\<open>New\<close> leaves the chunker in.\<close>

definition cdc_chunks :: "(byte \<Rightarrow> u64) \<Rightarrow> cdc_geometry \<Rightarrow> bytes \<Rightarrow> bytes list" where
  "cdc_chunks tb g bs =
     (case cdc_New tb [] None g of
        Inl e \<Rightarrow> []
      | Inr c \<Rightarrow> let (ds, t) = cuts tb c [] bs in ds @ (if t = [] then [] else [t]))"

lemma cdc_chunks_sound:
  assumes "cdc_Validate g = Inr ()"
  shows "concat (cdc_chunks tb g bs) = bs"
    and "\<forall>d\<in>set (cdc_chunks tb g bs). d \<noteq> [] \<and> int (length d) \<le> c_Max g"
proof -
  obtain c where c: "cdc_New tb [] None g = Inr c" using assms by (auto simp: cdc_New_def result_simps)
  obtain ds t where d: "cuts tb c [] bs = (ds, t)" by (metis surj_pair)
  have "cdc_chunks tb g bs = ds @ (if t = [] then [] else [t])" by (simp add: cdc_chunks_def c d)
  then show "concat (cdc_chunks tb g bs) = bs"
    and "\<forall>d\<in>set (cdc_chunks tb g bs). d \<noteq> [] \<and> int (length d) \<le> c_Max g"
    using cuts_concat[OF d] cuts_sizes[OF d] cdc_NewD(1)[OF c] cdc_ValidateD[OF assms] by auto
qed

lemma cut_all_chunks:
  assumes "cdc_New tb r len g = Inr c" and "rdr_stream 0 r = (bs, EOF)"
  shows "cut_all tb c = (cdc_chunks tb g bs, EOF)"
proof -
  note n = cdc_NewD[OF assms(1)]
  obtain c0 where c0: "cdc_New tb [] None g = Inr c0" using n(4) by (auto simp: cdc_New_def result_simps)
  have same: "ck_same c c0"
    using assms(1) c0 n(4) by (auto simp: cdc_New_def result_simps ck_same_def)
  have "cut_all tb c = (let (ds, t) = cuts tb c [] bs in (ds @ (if t \<noteq> [] then [t] else []), EOF))"
    using cut_all_cuts[OF n(2)] n(1,3) cdc_ValidateD[OF n(4)] assms(2) by simp
  then show ?thesis by (auto simp: cdc_chunks_def c0 cuts_same[OF same] split: prod.splits)
qed

section \<open>Properties\<close>

text \<open>C7. However its reader hands the bytes over (any blocks, any size hint, empty reads under the
  limit), a chunker made by \<^verbatim>\<open>New\<close> and called until the end of the stream returns the chunks that
  the byte-at-a-time rule (hard mask below \<open>Min\<close>, easy mask from \<open>Min\<close>, forced at \<open>Max\<close>, window
  carried over) gives for the bytes alone; they are the stream's bytes in order, none is empty and
  none is over \<open>Max\<close>.\<close>

theorem chunker_cuts_by_content:
  assumes "cdc_New tb r len g = Inr c" and "rdr_stream 0 r = (bs, EOF)"
  shows "cut_all tb c = (cdc_chunks tb g bs, EOF)
    \<and> concat (cdc_chunks tb g bs) = bs
    \<and> list_all (\<lambda>d. d \<noteq> [] \<and> int (length d) \<le> c_Max g) (cdc_chunks tb g bs)"
  using cut_all_chunks[OF assms] cdc_chunks_sound[OF cdc_NewD(4)[OF assms(1)]]
  by (simp add: list_all_iff)

definition cdc_witness_geometry :: cdc_geometry where
  "cdc_witness_geometry = \<lparr>c_Min = 64, c_Max = 65, c_Mask = 0xFF\<rparr>"

theorem chunker_cuts_by_content_witness:
  "cut_all (\<lambda>_. 0) (projr (cdc_New (\<lambda>_. 0) [([1, 2], None), ([3], Some EOF)] None cdc_witness_geometry))
   = (cdc_chunks (\<lambda>_. 0) cdc_witness_geometry [1, 2, 3], EOF)"
proof -
  have v: "cdc_Validate cdc_witness_geometry = Inr ()"
    by (simp add: cdc_Validate_def cdc_witness_geometry_def Len64_def nat_len.simps)
  show ?thesis
    using chunker_cuts_by_content[of "\<lambda>_. 0" "[([1, 2], None), ([3], Some EOF)]" None cdc_witness_geometry]
    by (simp add: cdc_New_def v result_simps)
qed

end
