(* ===== verification/Stream.thy ===== *)
theory Stream
  imports Boundary Chunk Cdc
begin

text \<open>
  \<^verbatim>\<open>core/stream\<close>: byte sequences of any length as content-defined chunks under a content-defined
  index tree. First the index node codec, then the serial \<^verbatim>\<open>Write\<close> with its builder, the verifying
  reader (\<^verbatim>\<open>Open\<close>, \<^verbatim>\<open>chunkAt\<close>, \<^verbatim>\<open>ReadAt\<close>, \<^verbatim>\<open>Read\<close>, \<^verbatim>\<open>ReadAll\<close>) and \<^verbatim>\<open>Walk\<close>.
\<close>

section \<open>Index nodes\<close>

definition kindIndex :: byte where
  "kindIndex = 0x02"

definition maxDepth :: nat where
  "maxDepth = 63"

definition entryMin :: nat where
  "entryMin = 32 + 1"

record sref =
  sr_Root :: hash
  sr_Size :: u64
  sr_Depth :: byte

record sentry =
  e_child :: hash
  e_size :: u64

definition uvarintLen :: "u64 \<Rightarrow> int" where
  "uvarintLen v = (int (Len64 (v OR 1)) + 6) div 7"

definition entrySize :: "sentry \<Rightarrow> int" where
  "entrySize e = 32 + uvarintLen (e_size e)"

definition put_sentry :: "sentry \<Rightarrow> bytes" where
  "put_sentry e = hbytes (e_child e) @ put_Uvarint (e_size e)"

definition encodeIndex :: "nat \<Rightarrow> sentry list \<Rightarrow> bytes" where
  "encodeIndex level es =
     put_U8 kindIndex @ put_U8 (of_nat level) @ put_Uvarint (of_nat (length es)) @ concat (map put_sentry es)"

text \<open>One turn of the loop of \<^verbatim>\<open>decodeIndex\<close>; \<open>tot\<close> is the sizes' sum so far, the carry of
  \<^verbatim>\<open>bits.Add64\<close> is an error.\<close>

definition rd_sentry :: "u64 \<Rightarrow> reader \<Rightarrow> (sentry \<times> u64 \<times> reader) result" where
  "rd_sentry tot r =
     (let (c, r) = rd_Fixed 32 r; (sz, r) = rd_Uvarint r; carry = (2 ^ 64 \<le> unat tot + unat sz) in
        if rd_err r \<noteq> None \<or> sz = 0 \<or> carry then Inl ErrChunkCorrupt
        else Inr (\<lparr>e_child = copy_hash c, e_size = sz\<rparr>, tot + sz, r))"

definition decodeIndex :: "bytes \<Rightarrow> (nat \<times> sentry list) result" where
  "decodeIndex b =
     (let r = NewReader b; (kind, r) = rd_U8 r; (level, r) = rd_U8 r; (n, r) = rd_Uvarint r in
        if rd_err r \<noteq> None \<or> kind \<noteq> kindIndex \<or> level < 1 \<or> level > of_nat maxDepth \<or> n = 0
           \<or> n > of_nat (length b div entryMin)
        then Inl ErrChunkCorrupt
        else rbind (rd_loop rd_sentry (unat n) 0 r) (\<lambda>(es, _, r).
          if rd_Done r \<noteq> None then Inl ErrChunkCorrupt else Inr (unat level, es)))"

text \<open>What an index node may hold.\<close>

definition sizes_sum :: "sentry list \<Rightarrow> nat" where
  "sizes_sum es = sum_list (map (\<lambda>e. unat (e_size e)) es)"

definition index_ok :: "nat \<Rightarrow> sentry list \<Rightarrow> bool" where
  "index_ok level es \<longleftrightarrow> 1 \<le> level \<and> level \<le> maxDepth \<and> es \<noteq> [] \<and>
     list_all (\<lambda>e. e_size e \<noteq> 0) es \<and> sizes_sum es < 2 ^ 64"

subsection \<open>Sizes\<close>

lemma nat_len_div: "128 \<le> n \<Longrightarrow> nat_len n = nat_len (n div 128) + 7"
proof -
  assume "128 \<le> n"
  then have "nat_len n = nat_len (n div 2 div 2 div 2 div 2 div 2 div 2 div 2) + 7"
    by (simp add: nat_len.simps[of n] nat_len.simps[of "n div 2"] nat_len.simps[of "n div 4"]
        nat_len.simps[of "n div 8"] nat_len.simps[of "n div 16"] nat_len.simps[of "n div 32"]
        nat_len.simps[of "n div 64"] div_mult2_eq[symmetric] div_greater_zero_iff)
  then show ?thesis by (simp add: div_mult2_eq[symmetric])
qed

lemma nat_len_small: "n < 2 ^ k \<Longrightarrow> nat_len n \<le> k"
proof (induction k arbitrary: n)
  case (Suc k)
  then show ?case using Suc.IH[of "n div 2"] by (subst nat_len.simps) auto
qed (simp add: nat_len.simps)

lemma nat_len_pos: "0 < n \<Longrightarrow> 0 < nat_len n"
  by (subst nat_len.simps) simp

lemma unat_or_1: "unat (v OR 1 :: u64) = unat v + (if even (unat v) then 1 else 0)"
proof -
  have "unat (v OR 1) = unat v OR 1" by (simp only: unsigned_or_eq unsigned_1)
  then show ?thesis unfolding or_one_eq[of "unat v"] by simp
qed

lemma nat_len_or_1: "0 < unat v \<Longrightarrow> nat_len (unat (v OR 1 :: u64)) = nat_len (unat v)"
proof -
  assume v: "0 < unat v"
  have "nat_len (n + 1) = nat_len n" if "0 < n" "even n" for n
    using that by (simp add: nat_len.simps[of n] nat_len.simps[of "Suc n"])
  then show ?thesis using v by (simp add: unat_or_1)
qed

lemma uvarintLen_length: "uvarintLen v = int (length (put_Uvarint v))"
proof (induction v rule: put_Uvarint.induct)
  case (1 v)
  show ?case
  proof (cases "v < 0x80")
    case True
    then have "unat v < 128" by (simp add: word_less_nat_alt)
    then have "unat (v OR 1) < 2 ^ 7" "0 < unat (v OR 1)" by (auto simp: unat_or_1) presburger
    then have "nat_len (unat (v OR 1)) \<le> 7" "0 < nat_len (unat (v OR 1))"
      using nat_len_small nat_len_pos by blast+
    then show ?thesis using True by (subst put_Uvarint.simps) (auto simp: uvarintLen_def Len64_def)
  next
    case False
    then have v: "128 \<le> unat v" by (simp add: word_less_nat_alt)
    have d: "unat (drop_bit 7 v) = unat v div 128" unfolding unat_drop_bit_eq by (simp add: drop_bit_eq_div)
    have l: "nat_len (unat (v OR 1)) = nat_len (unat (drop_bit 7 v OR 1)) + 7"
      using v d nat_len_or_1[of v] nat_len_or_1[of "drop_bit 7 v"] nat_len_div[OF v] by simp
    have "uvarintLen v = uvarintLen (drop_bit 7 v) + 1" by (simp add: uvarintLen_def Len64_def l)
    then show ?thesis using 1 False by (subst put_Uvarint.simps) simp
  qed
qed

lemma entrySize_length: "entrySize e = int (length (put_sentry e))"
  by (simp add: entrySize_def put_sentry_def uvarintLen_length)

subsection \<open>Round trips\<close>

abbreviation sentry_fits :: "u64 \<Rightarrow> sentry \<Rightarrow> bool" where
  "sentry_fits tot e \<equiv> e_size e \<noteq> 0 \<and> unat tot + unat (e_size e) < 2 ^ 64"

lemma chain_sizes:
  "chain_ok sentry_fits (\<lambda>t e. t + e_size e) tot es \<and> unat tot + sizes_sum es < 2 ^ 64 \<longleftrightarrow>
   list_all (\<lambda>e. e_size e \<noteq> 0) es \<and> unat tot + sizes_sum es < 2 ^ 64"
proof (induction es arbitrary: tot)
  case (Cons e es)
  show ?case
  proof (cases "unat tot + unat (e_size e) < 2 ^ 64")
    case True
    then have "unat (tot + e_size e) = unat tot + unat (e_size e)" by (simp add: unat_word_ariths)
    then show ?thesis using Cons[of "tot + e_size e"] True by (auto simp: sizes_sum_def add.assoc)
  qed (auto simp: sizes_sum_def)
qed simp

lemma chain_sizes_sum:
  "chain_ok sentry_fits (\<lambda>t e. t + e_size e) tot es \<Longrightarrow> unat tot + sizes_sum es < 2 ^ 64"
proof (induction es arbitrary: tot)
  case Nil
  then show ?case using unat_lt2p[of tot] by (simp add: sizes_sum_def)
next
  case (Cons e es)
  then have "unat (tot + e_size e) = unat tot + unat (e_size e)" by (simp add: unat_word_ariths)
  then show ?case using Cons.IH[of "tot + e_size e"] Cons.prems by (simp add: sizes_sum_def add.assoc)
qed

lemma rd_sentry_at:
  assumes "sentry_fits tot e"
  shows "rd_sentry tot (rd_at pre (put_sentry e @ rest)) = Inr (e, tot + e_size e, rd_at (pre @ put_sentry e) rest)"
  using assms by (simp add: rd_sentry_def put_sentry_def wire_simps)

lemma rd_sentry_took:
  assumes "rd_sentry tot r = Inr (e, tot', r')"
  shows "rd_took r (put_sentry e) r' \<and> sentry_fits tot e \<and> tot' = tot + e_size e"
proof -
  obtain c r1 sz where c: "rd_Fixed 32 r = (c, r1)" and sz: "rd_Uvarint r1 = (sz, r')"
    and ok: "rd_err r' = None" "sz \<noteq> 0" "unat tot + unat sz < 2 ^ 64"
      "e = \<lparr>e_child = copy_hash c, e_size = sz\<rparr>" "tot' = tot + sz"
    using assms by (auto simp: rd_sentry_def not_le split: prod.splits if_splits)
  note t2 = rd_Uvarint_took[OF sz ok(1)]
  note t1 = rd_Fixed_took[OF c conjunct1[OF rd_tookD[OF t2]]]
  show ?thesis
    using rd_took_trans[OF conjunct1[OF t1] t2] t1 ok by (auto simp: put_sentry_def)
qed

lemma length_put_sentry: "33 \<le> length (put_sentry e)"
  by (simp add: put_sentry_def Suc_leI)

lemma decodeIndex_encodeIndex:
  assumes "index_ok level es" and "length (encodeIndex level es) < 2 ^ 64"
  shows "decodeIndex (encodeIndex level es) = Inr (level, es)"
proof -
  let ?b = "encodeIndex level es"
  have lv: "unat (of_nat level :: byte) = level"
    using assms(1) by (intro unat_of_nat_small) (auto simp: index_ok_def maxDepth_def)
  have "33 * length es \<le> length (concat (map put_sentry es))"
    using length_put_sentry by (induction es) (auto simp: add_mono)
  then have n: "length es \<le> length ?b div 33" "length es < 2 ^ 64" "length ?b div 33 < 2 ^ 64"
    using assms(2) by (auto simp: encodeIndex_def)
  have un: "unat (of_nat (length es) :: u64) = length es" "unat (of_nat (length ?b div 33) :: u64) = length ?b div 33"
    using n by (simp_all add: unat_of_nat_small)
  have "of_nat (length es) \<noteq> (0 :: u64)" "\<not> (of_nat (length es) :: u64) > of_nat (length ?b div 33)"
    using un n assms(1) by (auto simp: index_ok_def word_less_nat_alt simp del: unat_eq_zero dest: arg_cong[of _ _ unat])
  moreover have "\<not> (of_nat level :: byte) < 1" "\<not> (of_nat level :: byte) > of_nat maxDepth"
    using lv assms(1) by (auto simp: index_ok_def word_less_nat_alt maxDepth_def)
  moreover have "chain_ok sentry_fits (\<lambda>t e. t + e_size e) 0 es"
    using chain_sizes[of 0 es] assms(1) by (simp add: index_ok_def)
  note rd_loop_at[OF rd_sentry_at this, of _ "[]"]
  ultimately show ?thesis
    by (simp add: decodeIndex_def NewReader_at encodeIndex_def wire_simps entryMin_def un lv)
qed

lemma decodeIndex_inv:
  assumes "decodeIndex b = Inr (level, es)"
  shows "b = encodeIndex level es" and "index_ok level es"
proof -
  obtain kind r1 lv r2 n r3 tot r4 where k: "rd_U8 (NewReader b) = (kind, r1)" and l: "rd_U8 r1 = (lv, r2)"
    and n: "rd_Uvarint r2 = (n, r3)"
    and ok: "rd_err r3 = None" "kind = kindIndex" "\<not> lv < 1" "\<not> lv > of_nat maxDepth" "n \<noteq> 0"
    and es: "rd_loop rd_sentry (unat n) 0 r3 = Inr (es, tot, r4)" and dn: "rd_Done r4 = None" "level = unat lv"
    using assms by (auto simp: decodeIndex_def result_simps split: prod.splits if_splits)
  note t3 = rd_Uvarint_took[OF n ok(1)]
  note t2 = rd_U8_took[OF l conjunct1[OF rd_tookD[OF t3]]]
  note t1 = rd_U8_took[OF k conjunct1[OF rd_tookD[OF t2]]]
  note t4 = rd_loop_took[where enc = put_sentry and P = sentry_fits and nxt = "\<lambda>t e. t + e_size e",
      OF rd_sentry_took es rd_took_ok[OF t3]]
  have "of_nat (length es) = n" "of_nat level = lv" using t4 dn(2) by auto
  then show "b = encodeIndex level es"
    using rd_took_all[OF rd_took_trans[OF t1 rd_took_trans[OF t2 rd_took_trans[OF t3 conjunct1[OF t4]]]] dn(1)] ok(2)
    by (simp add: encodeIndex_def)
  have "1 \<le> level" "level \<le> maxDepth"
    using ok(3,4) dn(2) by (auto simp: word_less_nat_alt maxDepth_def)
  moreover have "es \<noteq> []" using t4 ok(5) by (auto simp: unat_eq_zero)
  moreover have "list_all (\<lambda>e. e_size e \<noteq> 0) es \<and> sizes_sum es < 2 ^ 64"
    using chain_sizes_sum[of 0 es] chain_sizes[of 0 es] t4 by simp
  ultimately show "index_ok level es" by (simp add: index_ok_def)
qed

section \<open>Writing\<close>

record slevel =
  l_split :: splitter
  l_entries :: "sentry list"
  l_total :: nat
  l_first :: sentry

record sconfig =
  sc_CDC :: cdc_geometry
  sc_Nodes :: geometry

text \<open>The level a builder makes room for; \<^verbatim>\<open>first\<close> is the zero entry until it takes one.\<close>

definition new_level :: "brule \<Rightarrow> nat \<Rightarrow> slevel" where
  "new_level rule lv = \<lparr>l_split = Splitter rule lv, l_entries = [], l_total = 0, l_first = \<lparr>e_child = zero_hash, e_size = 0\<rparr>\<rparr>"

text \<open>The node level \<open>lv\<close> is filling, as an entry one level up: the sizes added as words.\<close>

definition node_entry :: "(bytes \<Rightarrow> hash) \<Rightarrow> nat \<Rightarrow> sentry list \<Rightarrow> sentry" where
  "node_entry H lv es = \<lparr>e_child = H (encodeIndex lv es), e_size = sum_list (map e_size es)\<rparr>"

text \<open>\<^verbatim>\<open>add\<close>, with \<^verbatim>\<open>emit\<close> unfolded into it: the two call each other one level up. The builder's
  levels are passed and returned.\<close>

function b_add :: "(bytes \<Rightarrow> hash) \<Rightarrow> ('s, 'z) rw_scheme \<Rightarrow> brule \<Rightarrow> nat \<Rightarrow> sentry \<Rightarrow> slevel list \<Rightarrow> ('s, slevel list) comp" where
  "b_add H ops rule lv e levels s =
     (if lv > maxDepth then (Inl (ErrOther ''stream: too deep''), s)
      else
        let levels = (if length levels < lv then levels @ [new_level rule lv] else levels);
            l = levels ! (lv - 1);
            l = (if l_total l = 0 then l\<lparr>l_first := e\<rparr> else l);
            l = l\<lparr>l_total := l_total l + 1, l_entries := l_entries l @ [e]\<rparr>;
            (ends, sp) = sp_Append H (l_split l) (e_child e) (entrySize e);
            l = l\<lparr>l_split := sp\<rparr>
        in if \<not> ends then (Inr (levels[lv - 1 := l]), s)
           else sbind (rw_Put ops (encodeIndex lv (l_entries l)))
             (\<lambda>h s. b_add H ops rule (lv + 1) \<lparr>e_child = h, e_size = sum_list (map e_size (l_entries l))\<rparr>
                     (levels[lv - 1 := l\<lparr>l_entries := []\<rparr>]) s) s)"
  by pat_completeness auto
termination
  by (relation "measure (\<lambda>(H, ops, rule, lv, e, levels, s). maxDepth + 1 - lv)") auto

declare b_add.simps [simp del]

definition b_emit :: "(bytes \<Rightarrow> hash) \<Rightarrow> ('s, 'z) rw_scheme \<Rightarrow> brule \<Rightarrow> nat \<Rightarrow> slevel list \<Rightarrow> ('s, slevel list) comp" where
  "b_emit H ops rule lv levels =
     (let l = levels ! (lv - 1) in
        sbind (rw_Put ops (encodeIndex lv (l_entries l)))
          (\<lambda>h. b_add H ops rule (lv + 1) \<lparr>e_child = h, e_size = sum_list (map e_size (l_entries l))\<rparr>
                 (levels[lv - 1 := l\<lparr>l_entries := []\<rparr>])))"

text \<open>\<^verbatim>\<open>finish\<close> from level \<open>lv\<close> up. Indexing past the levels panics in Go; \<open>s_Write_stores\<close> shows it
  never happens.\<close>

function b_finish_from :: "(bytes \<Rightarrow> hash) \<Rightarrow> ('s, 'z) rw_scheme \<Rightarrow> brule \<Rightarrow> nat \<Rightarrow> slevel list \<Rightarrow> ('s, sref) comp" where
  "b_finish_from H ops rule lv levels s =
     (if lv = 0 \<or> length levels < lv then (Inl (ErrOther ''panic: index out of range''), s)
      else let l = levels ! (lv - 1) in
        if l_total l = 1 then
          (Inr \<lparr>sr_Root = e_child (l_first l), sr_Size = e_size (l_first l), sr_Depth = of_nat (lv - 1)\<rparr>, s)
        else if l_entries l \<noteq> [] then
          sbind (b_emit H ops rule lv levels) (\<lambda>levels s. b_finish_from H ops rule (lv + 1) levels s) s
        else b_finish_from H ops rule (lv + 1) levels s)"
  by pat_completeness auto

lemma b_emit_deep: "b_emit H ops rule lv levels s = (Inr levels', s') \<Longrightarrow> lv < maxDepth"
  by (auto simp: b_emit_def Let_def result_simps b_add.simps split: if_splits)

termination b_finish_from
  by (relation "measures [\<lambda>(H, ops, rule, lv, levels, s). maxDepth - lv,
        \<lambda>(H, ops, rule, lv, levels, s). Suc (length levels) - lv]")
    (auto dest: b_emit_deep)

declare b_finish_from.simps [simp del]

definition b_finish :: "(bytes \<Rightarrow> hash) \<Rightarrow> ('s, 'z) rw_scheme \<Rightarrow> brule \<Rightarrow> slevel list \<Rightarrow> ('s, sref) comp" where
  "b_finish H ops rule levels =
     (if levels = [] then sbind (rw_Put ops []) (\<lambda>h. sret \<lparr>sr_Root = h, sr_Size = 0, sr_Depth = 0\<rparr>)
      else b_finish_from H ops rule 1 levels)"

text \<open>The loop of the serial \<^verbatim>\<open>Write\<close>.\<close>

function s_write_loop :: "(bytes \<Rightarrow> hash) \<Rightarrow> (byte \<Rightarrow> u64) \<Rightarrow> ('s, 'z) rw_scheme \<Rightarrow> brule \<Rightarrow> chunker \<Rightarrow> slevel list \<Rightarrow> ('s, sref) comp" where
  "s_write_loop H tb ops rule ck levels s =
     (case cdc_Next tb ck of
        (Inl e, ck') \<Rightarrow>
          if e = EOF then b_finish H ops rule levels s else (Inl (ErrOther ''read''), s)
      | (Inr data, ck') \<Rightarrow>
          sbind (rw_Put ops data) (\<lambda>h. sbind (b_add H ops rule 1 \<lparr>e_child = h, e_size = of_nat (length data)\<rparr> levels)
            (\<lambda>levels s. s_write_loop H tb ops rule ck' levels s)) s)"
  by pat_completeness auto
termination
  by (relation "measure (\<lambda>(H, tb, ops, rule, ck, levels, s). ck_work ck)") (auto dest: cdc_Next_work[OF sym])

declare s_write_loop.simps [simp del]

text \<open>\<^verbatim>\<open>Write\<close> on its serial path; \<open>tb\<close> is the Buzhash table and \<open>len\<close> is what the reader says it has left, if it says.\<close>

definition s_Write :: "(bytes \<Rightarrow> hash) \<Rightarrow> (byte \<Rightarrow> u64) \<Rightarrow> ('s, 'z) rw_scheme \<Rightarrow> rdr \<Rightarrow> nat option \<Rightarrow> sconfig \<Rightarrow> ('s, sref) comp" where
  "s_Write H tb ops r len c =
     sbind (slift (boundary_New (sc_Nodes c))) (\<lambda>rule.
     sbind (slift (cdc_New tb r len (sc_CDC c))) (\<lambda>ck.
       s_write_loop H tb ops rule ck []))"

section \<open>What Write stores\<close>

text \<open>
  The tree as a function of the bytes alone: the level above entries \<open>es\<close> of level \<open>lv\<close> is the
  nodes the split rule cuts them into, until one entry is left.
\<close>

abbreviation s_chop where
  "s_chop H \<equiv> chop H e_child entrySize"

abbreviation s_chop_all where
  "s_chop_all H \<equiv> chop_all H e_child entrySize"

function s_top :: "(bytes \<Rightarrow> hash) \<Rightarrow> brule \<Rightarrow> nat \<Rightarrow> sentry list \<Rightarrow> sentry \<times> nat" where
  "s_top H r k es =
     (if length es \<le> 1 then (hd es, k)
      else s_top H r (Suc k) (map (node_entry H (Suc k)) (s_chop_all H r (Suc k) es)))"
  by pat_completeness auto
termination
proof (relation "measure (\<lambda>(H, r, k, es). length es)", goal_cases)
  case (2 H r k es)
  then show ?case using chop_all_halves[of "Suc k" H e_child entrySize r es] by simp
qed simp

declare s_top.simps [simp del]

definition chunk_entry :: "(bytes \<Rightarrow> hash) \<Rightarrow> bytes \<Rightarrow> sentry" where
  "chunk_entry H d = \<lparr>e_child = H d, e_size = of_nat (length d)\<rparr>"

definition s_ref :: "(bytes \<Rightarrow> hash) \<Rightarrow> brule \<Rightarrow> bytes list \<Rightarrow> sref" where
  "s_ref H r ds =
     (if ds = [] then \<lparr>sr_Root = H [], sr_Size = 0, sr_Depth = 0\<rparr>
      else let (e, k) = s_top H r 0 (map (chunk_entry H) ds) in
        \<lparr>sr_Root = e_child e, sr_Size = e_size e, sr_Depth = of_nat k\<rparr>)"

text \<open>Entry \<open>e\<close>, at depth \<open>k\<close>, names the bytes \<open>d\<close>, everything under it being among the chunks \<open>P\<close>.\<close>

fun s_holds :: "(bytes \<Rightarrow> hash) \<Rightarrow> bytes set \<Rightarrow> nat \<Rightarrow> sentry \<Rightarrow> bytes \<Rightarrow> bool" where
  "s_holds H P 0 e d \<longleftrightarrow> d \<in> P \<and> d \<noteq> [] \<and> e = chunk_entry H d"
| "s_holds H P (Suc k) e d \<longleftrightarrow>
     (\<exists>es ds. encodeIndex (Suc k) es \<in> P \<and> length (encodeIndex (Suc k) es) \<le> MaxChunkSize \<and>
        e = node_entry H (Suc k) es \<and> es \<noteq> [] \<and> list_all2 (s_holds H P k) es ds \<and> d = concat ds)"

declare s_holds.simps [simp del]

lemma s_holds_mono: "s_holds H P k e d \<Longrightarrow> P \<subseteq> Q \<Longrightarrow> s_holds H Q k e d"
proof (induction k arbitrary: e d)
  case (Suc k)
  then obtain es ds where a: "encodeIndex (Suc k) es \<in> P" "length (encodeIndex (Suc k) es) \<le> MaxChunkSize"
    "e = node_entry H (Suc k) es" "es \<noteq> []" "list_all2 (s_holds H P k) es ds" "d = concat ds"
    by (auto simp: s_holds.simps(2))
  have "list_all2 (s_holds H Q k) es ds" using a(5) Suc.IH Suc.prems(2) by (auto elim: list_all2_mono)
  then show ?case using a Suc.prems(2) by (auto simp: s_holds.simps(2))
qed (auto simp: s_holds.simps(1))

lemma s_holds_groups:
  assumes "list_all2 (s_holds H P k) (concat gs) ds"
    and "\<And>g. g \<in> set gs \<Longrightarrow> g \<noteq> [] \<and> encodeIndex (Suc k) g \<in> P \<and> length (encodeIndex (Suc k) g) \<le> MaxChunkSize"
  shows "\<exists>ds'. list_all2 (s_holds H P (Suc k)) (map (node_entry H (Suc k)) gs) ds' \<and> concat ds' = concat ds"
  using assms
proof (induction gs arbitrary: ds)
  case (Cons g gs)
  then obtain d1 d2 where d: "ds = d1 @ d2" "list_all2 (s_holds H P k) g d1" "list_all2 (s_holds H P k) (concat gs) d2"
    by (auto simp: list_all2_append1)
  obtain ds' where "list_all2 (s_holds H P (Suc k)) (map (node_entry H (Suc k)) gs) ds'" "concat ds' = concat d2"
    using Cons.IH[OF d(3)] Cons.prems(2) by (meson list.set_intros(2))
  moreover have "s_holds H P (Suc k) (node_entry H (Suc k) g) (concat d1)"
    using Cons.prems(2)[of g] d(2) by (auto simp: s_holds.simps(2))
  ultimately show ?case using d(1) by (intro exI[of _ "concat d1 # ds'"]) simp
qed auto

text \<open>The builder's levels from \<open>lv\<close> up, when level \<open>lv\<close> has taken \<open>es\<close>; every node finished so far
  is among the chunks \<open>P\<close>.\<close>

inductive lev_inv :: "(bytes \<Rightarrow> hash) \<Rightarrow> brule \<Rightarrow> bytes set \<Rightarrow> nat \<Rightarrow> sentry list \<Rightarrow> slevel list \<Rightarrow> bool"
  for H r P where
  lev_Nil: "lev_inv H r P lv [] []"
| lev_Cons: "\<lbrakk>es \<noteq> []; s_chop H r lv [] es = (gs, cur);
     \<And>g. g \<in> set gs \<Longrightarrow> encodeIndex lv g \<in> P;
     lev_inv H r P (Suc lv) (map (node_entry H lv) gs) L\<rbrakk> \<Longrightarrow>
   lev_inv H r P lv es (\<lparr>l_split = sp_at entrySize r lv cur, l_entries = cur, l_total = length es, l_first = hd es\<rparr> # L)"

inductive_cases lev_inv_NilE: "lev_inv H r P lv [] L"
inductive_cases lev_inv_ConsE: "lev_inv H r P lv (e # es) L"

lemma lev_inv_mono: "lev_inv H r P lv es L \<Longrightarrow> P \<subseteq> Q \<Longrightarrow> lev_inv H r Q lv es L"
  by (induction rule: lev_inv.induct) (auto intro!: lev_inv.intros)

subsection \<open>Sizes of the nodes\<close>

lemma length_put_Uvarint_le: "length (put_Uvarint v) \<le> 10"
proof -
  have "nat_len (unat (v OR 1)) \<le> 64" using unat_lt2p[of "v OR 1"] by (intro nat_len_small) simp
  then have "uvarintLen v \<le> 10" by (auto simp: uvarintLen_def Len64_def)
  then show ?thesis by (simp add: uvarintLen_length)
qed

lemma entrySize_bounds: "0 \<le> entrySize e \<and> entrySize e \<le> 42"
  using length_put_Uvarint_le[of "e_size e"] by (simp add: entrySize_def uvarintLen_length)

lemma length_encodeIndex: "int (length (encodeIndex lv es)) \<le> 12 + sum_list (map entrySize es)"
proof -
  have "sum_list (map entrySize es) = int (length (concat (map put_sentry es)))"
    by (induction es) (simp_all add: entrySize_length)
  then show ?thesis
    using length_put_Uvarint_le[of "of_nat (length es)"] by (simp add: encodeIndex_def put_U8_def)
qed

lemma group_fits:
  assumes "boundary_New g = Inr r" and "es' \<in> set (s_chop_all H r lv es)"
  shows "length (encodeIndex lv es') \<le> MaxChunkSize"
proof -
  have g: "g_Max g \<le> 32768" "64 \<le> g_Max g"
    using geometry_ValidateD[OF boundary_NewD(1)[OF assms(1)]] by auto
  have "sum_list (map entrySize es') \<le> (if lv = 0 then g_Max g else max (g_Max g) 42) + 42"
    using assms(2) entrySize_bounds by (intro chop_all_bound[OF assms(1)]) auto
  then have "sum_list (map entrySize es') \<le> g_Max g + 42" using g(2) by (simp split: if_splits)
  then show ?thesis using length_encodeIndex[of lv es'] g by (simp add: MaxChunkSize_def)
qed

text \<open>The top entry, when it is an index node, has two children at least.\<close>

definition top_two :: "(bytes \<Rightarrow> hash) \<Rightarrow> bytes set \<Rightarrow> nat \<Rightarrow> sentry \<Rightarrow> bool" where
  "top_two H P k e \<longleftrightarrow> k = 0 \<or> (\<exists>es. 2 \<le> length es \<and> encodeIndex k es \<in> P \<and> e = node_entry H k es)"

text \<open>The chunks \<open>P\<close> hold the stream \<open>bs\<close> under \<open>ref\<close>.\<close>

definition s_stored :: "(bytes \<Rightarrow> hash) \<Rightarrow> bytes set \<Rightarrow> sref \<Rightarrow> bytes \<Rightarrow> bool" where
  "s_stored H P ref bs \<longleftrightarrow>
     (if bs = [] then [] \<in> P \<and> ref = \<lparr>sr_Root = H [], sr_Size = 0, sr_Depth = 0\<rparr>
      else \<exists>e k. k < maxDepth \<and> ref = \<lparr>sr_Root = e_child e, sr_Size = e_size e, sr_Depth = of_nat k\<rparr> \<and>
             s_holds H P k e bs \<and> top_two H P k e)"

subsection \<open>The builder\<close>

text \<open>A level after it took an entry: its node grows, or is finished.\<close>

definition open_level :: "brule \<Rightarrow> nat \<Rightarrow> sentry list \<Rightarrow> sentry list \<Rightarrow> slevel" where
  "open_level r lv es cur =
     \<lparr>l_split = sp_at entrySize r lv cur, l_entries = cur, l_total = length es, l_first = hd es\<rparr>"

lemmas lev_Cons_open = lev_Cons[folded open_level_def]
lemmas lev_inv_ConsE_open = lev_inv_ConsE[folded open_level_def]

lemma b_add_step:
  assumes "lev_inv H r P lv es L" and "length Q = lv - 1" and "1 \<le> lv" and "lv \<le> maxDepth"
    and "s_chop H r lv [] es = (gs, cur)"
  obtains L0 where "\<And>g. g \<in> set gs \<Longrightarrow> encodeIndex lv g \<in> P" and "lev_inv H r P (Suc lv) (map (node_entry H lv) gs) L0"
    and "\<And>s. b_add H ops r lv e (Q @ L) s =
      (if ends_at H e_child entrySize r lv cur e then
         sbind (rw_Put ops (encodeIndex lv (cur @ [e])))
           (\<lambda>h s. b_add H ops r (Suc lv) \<lparr>e_child = h, e_size = sum_list (map e_size (cur @ [e]))\<rparr>
                   (Q @ open_level r lv (es @ [e]) [] # L0) s) s
       else (Inr (Q @ open_level r lv (es @ [e]) (cur @ [e]) # L0), s))"
proof (cases es)
  case Nil
  then have L: "L = []" and g: "gs = []" "cur = []" using assms by (auto elim: lev_inv_NilE)
  have n: "Q @ [new_level r lv] = (Q @ L) @ [new_level r lv]" "(Q @ [new_level r lv]) ! (lv - 1) = new_level r lv"
    using assms(2) L by (simp_all add: nth_append)
  have upd: "(Q @ [new_level r lv])[lv - 1 := l] = Q @ [l]" for l
    using assms(2) by (simp add: list_update_append)
  show thesis
  proof (rule that[of "[]"])
    show "lev_inv H r P (Suc lv) (map (node_entry H lv) gs) []" using g by (simp add: lev_Nil)
  qed (use assms(2-4) L g Nil n upd in \<open>auto simp: b_add.simps[of H ops r lv] Let_def new_level_def Splitter_at[of _ _ entrySize]
        sp_Append_at open_level_def\<close>)
next
  case (Cons a es')
  then obtain L0 where L: "L = open_level r lv es cur # L0"
    and i: "\<And>g. g \<in> set gs \<Longrightarrow> encodeIndex lv g \<in> P" "lev_inv H r P (Suc lv) (map (node_entry H lv) gs) L0"
    using assms(1,5) by (auto elim!: lev_inv_ConsE_open)
  have n: "(Q @ open_level r lv es cur # L0) ! (lv - 1) = open_level r lv es cur"
    "(Q @ open_level r lv es cur # L0)[lv - 1 := l] = Q @ l # L0" for l
    using assms(2) by (simp_all add: nth_append list_update_append)
  show thesis
    by (rule that[of L0, OF i]) (use assms(2-4) L Cons n in \<open>auto simp: b_add.simps[of H ops r lv] Let_def sp_Append_at open_level_def\<close>)
qed

context chunk_rw
begin

lemma b_add_inv:
  assumes "boundary_New g = Inr r" and "1 \<le> lv" and "lv \<le> maxDepth"
    and "length es + 1 \<le> 2 ^ (maxDepth - lv)"
    and "length Q = lv - 1" and "lev_inv H r (puts s) lv es L" and "ok s"
  shows "\<exists>L' s'. b_add H ops r lv e (Q @ L) s = (Inr (Q @ L'), s') \<and> grows s s' \<and>
           lev_inv H r (puts s') lv (es @ [e]) L'"
  using assms(2-7)
proof (induction "maxDepth - lv" arbitrary: lv e es Q L s rule: less_induct)
  case less
  obtain gs cur where c: "s_chop H r lv [] es = (gs, cur)" by (metis surj_pair)
  obtain L0 where gs: "\<And>g. g \<in> set gs \<Longrightarrow> encodeIndex lv g \<in> puts s"
    and L0: "lev_inv H r (puts s) (Suc lv) (map (node_entry H lv) gs) L0"
    and eq: "\<And>s. b_add H ops r lv e (Q @ L) s =
      (if ends_at H e_child entrySize r lv cur e then
         sbind (rw_Put ops (encodeIndex lv (cur @ [e])))
           (\<lambda>h s. b_add H ops r (Suc lv) \<lparr>e_child = h, e_size = sum_list (map e_size (cur @ [e]))\<rparr>
                   (Q @ open_level r lv (es @ [e]) [] # L0) s) s
       else (Inr (Q @ open_level r lv (es @ [e]) (cur @ [e]) # L0), s))"
    using b_add_step[OF less.prems(5,4,1,2) c] by metis
  note snoc = chop_snoc[OF c, of e]
  show ?case
  proof (cases "ends_at H e_child entrySize r lv cur e")
    case False
    have "lev_inv H r (puts s) lv (es @ [e]) (open_level r lv (es @ [e]) (cur @ [e]) # L0)"
      using False snoc gs L0 by (intro lev_Cons_open) auto
    then show ?thesis using eq[of s] False less.prems(6) by auto
  next
    case True
    let ?b = "encodeIndex lv (cur @ [e])"
    have "length ?b \<le> MaxChunkSize"
      using True snoc by (intro group_fits[OF assms(1), of _ H lv "es @ [e]"]) (simp add: chop_all_def)
    then obtain s1 where s1: "rw_Put ops ?b s = (Inr (H ?b), s1)" "grows s s1" "?b \<in> puts s1"
      using put_ok[OF less.prems(6)] by blast
    have sub: "puts s \<subseteq> puts s1" and ok1: "ok s1" using s1(2) by (auto simp: grows_def)
    have "2 * (length gs + 1) \<le> length es + 1"
      using chop_halves[OF less.prems(1), of H e_child entrySize r "[]" "es @ [e]"] True snoc by simp
    with less.prems(3) have two: "2 * (length gs + 1) \<le> 2 ^ (maxDepth - lv)" by linarith
    then have lv: "lv < maxDepth" by (cases "maxDepth - lv") auto
    then have "2 ^ (maxDepth - lv) = 2 * (2 :: nat) ^ (maxDepth - Suc lv)" by (metis Suc_diff_Suc power_Suc)
    with two have len: "length (map (node_entry H lv) gs) + 1 \<le> 2 ^ (maxDepth - Suc lv)" by simp
    obtain L' s' where "b_add H ops r (Suc lv) (node_entry H lv (cur @ [e]))
        ((Q @ [open_level r lv (es @ [e]) []]) @ L0) s1 = (Inr ((Q @ [open_level r lv (es @ [e]) []]) @ L'), s')"
      and g2: "grows s1 s'" and i2: "lev_inv H r (puts s') (Suc lv) (map (node_entry H lv) gs @ [node_entry H lv (cur @ [e])]) L'"
      using less.hyps[of "Suc lv" "map (node_entry H lv) gs" "Q @ [open_level r lv (es @ [e]) []]" s1 L0 "node_entry H lv (cur @ [e])"]
        diff_less_mono2[OF lessI lv] lv len less.prems(1,4) lev_inv_mono[OF L0 sub] ok1 by auto
    moreover have "puts s1 \<subseteq> puts s'" using g2 by (simp add: grows_def)
    then have "lev_inv H r (puts s') lv (es @ [e]) (open_level r lv (es @ [e]) [] # L')"
      using snoc True gs sub s1(3) i2 by (intro lev_Cons_open[where gs = "gs @ [cur @ [e]]"]) auto
    ultimately show ?thesis
      using eq[of s] True s1(1) grows_trans[OF s1(2) g2]
      by (auto simp: sbind_def node_entry_def)
  qed
qed

text \<open>One turn of \<^verbatim>\<open>finish\<close> at a level with more than one entry.\<close>

lemma b_finish_step:
  assumes "boundary_New g = Inr r" and "1 \<le> lv" and "length es \<le> 2 ^ (maxDepth - lv)" and "2 \<le> length es"
    and "length Q = lv - 1" and "lev_inv H r (puts s) lv es L" and "ok s"
  shows "lv < maxDepth \<and> (\<exists>Q' L' s'. b_finish_from H ops r lv (Q @ L) s = b_finish_from H ops r (Suc lv) (Q' @ L') s' \<and>
     length Q' = lv \<and> grows s s' \<and> lev_inv H r (puts s') (Suc lv) (map (node_entry H lv) (s_chop_all H r lv es)) L' \<and>
     (\<forall>g\<in>set (s_chop_all H r lv es). encodeIndex lv g \<in> puts s'))"
proof -
  have lv: "lv < maxDepth" using assms(3,4) by (cases "maxDepth - lv") auto
  obtain gs cur where c: "s_chop H r lv [] es = (gs, cur)" by (metis surj_pair)
  obtain L0 where gs: "\<And>g. g \<in> set gs \<Longrightarrow> encodeIndex lv g \<in> puts s"
    and L0: "lev_inv H r (puts s) (Suc lv) (map (node_entry H lv) gs) L0" and L: "L = open_level r lv es cur # L0"
    using assms(4,6) c by (cases es) (auto elim!: lev_inv_ConsE_open)
  have l: "(Q @ L) ! (lv - 1) = open_level r lv es cur" "(Q @ L)[lv - 1 := l'] = (Q @ [l']) @ L0" for l'
    using assms(5) L by (simp_all add: nth_append list_update_append)
  have all: "s_chop_all H r lv es = gs @ (if cur = [] then [] else [cur])" by (simp add: chop_all_def c)
  have fin: "b_finish_from H ops r lv (Q @ L) s =
      (if cur \<noteq> [] then sbind (b_emit H ops r lv (Q @ L)) (\<lambda>levels s. b_finish_from H ops r (lv + 1) levels s) s
       else b_finish_from H ops r (lv + 1) (Q @ L) s)"
    using assms(2,4,5) L l by (subst b_finish_from.simps) (auto simp: Let_def open_level_def)
  show ?thesis
  proof (cases "cur = []")
    case True
    show ?thesis
      by (rule conjI[OF lv], rule exI[of _ "Q @ [open_level r lv es []]"], rule exI[of _ L0], rule exI[of _ s])
        (use True fin L gs L0 all assms(2,5,7) in auto)
  next
    case False
    let ?b = "encodeIndex lv cur"
    have "length ?b \<le> MaxChunkSize" using False all by (intro group_fits[OF assms(1), of _ H lv es]) simp
    then obtain s1 where s1: "rw_Put ops ?b s = (Inr (H ?b), s1)" "grows s s1" "?b \<in> puts s1"
      using put_ok[OF assms(7)] by blast
    have sub: "puts s \<subseteq> puts s1" and ok1: "ok s1" using s1(2) by (auto simp: grows_def)
    have "2 * length (s_chop_all H r lv es) \<le> length es + 1" by (rule chop_all_halves[OF assms(2)])
    moreover have "2 ^ (maxDepth - lv) = 2 * (2 :: nat) ^ (maxDepth - Suc lv)" using lv by (metis Suc_diff_Suc power_Suc)
    ultimately have len: "length (map (node_entry H lv) gs) + 1 \<le> 2 ^ (maxDepth - Suc lv)" using False all assms(3) by simp
    let ?Q = "Q @ [(open_level r lv es cur)\<lparr>l_entries := []\<rparr>]"
    obtain L' s' where a: "b_add H ops r (Suc lv) (node_entry H lv cur) (?Q @ L0) s1 = (Inr (?Q @ L'), s')"
      and g2: "grows s1 s'" and i2: "lev_inv H r (puts s') (Suc lv) (map (node_entry H lv) gs @ [node_entry H lv cur]) L'"
      using b_add_inv[OF assms(1) _ _ len _ lev_inv_mono[OF L0 sub] ok1, of ?Q "node_entry H lv cur"] lv assms(2,5) by auto
    have em: "b_emit H ops r lv (Q @ L) s = (Inr (?Q @ L'), s')"
      using a s1(1) l by (simp add: b_emit_def Let_def sbind_def open_level_def node_entry_def)
    have all': "\<forall>g\<in>set (s_chop_all H r lv es). encodeIndex lv g \<in> puts s'"
      using all False gs sub s1(3) g2 by (auto simp: grows_def)
    show ?thesis
      by (rule conjI[OF lv], rule exI[of _ ?Q], rule exI[of _ L'], rule exI[of _ s'])
        (use em all' fin False all i2 grows_trans[OF s1(2) g2] assms(2,5) in \<open>auto simp: sbind_def\<close>)
  qed
qed

lemma b_finish_ok:
  assumes "boundary_New g = Inr r" and "1 \<le> lv" and "lv \<le> maxDepth" and "length es \<le> 2 ^ (maxDepth - lv)"
    and "es \<noteq> []" and "length Q = lv - 1" and "lev_inv H r (puts s) lv es L" and "ok s"
    and "list_all2 (s_holds H (puts s) (lv - 1)) es ds"
    and "\<And>e. es = [e] \<Longrightarrow> top_two H (puts s) (lv - 1) e"
  shows "\<exists>s' e k. b_finish_from H ops r lv (Q @ L) s =
       (Inr \<lparr>sr_Root = e_child e, sr_Size = e_size e, sr_Depth = of_nat k\<rparr>, s') \<and> grows s s' \<and>
     s_top H r (lv - 1) es = (e, k) \<and> k < maxDepth \<and> s_holds H (puts s') k e (concat ds) \<and> top_two H (puts s') k e"
  using assms(2-)
proof (induction "maxDepth - lv" arbitrary: lv es Q s L ds rule: less_induct)
  case less
  show ?case
  proof (cases "length es = 1")
    case True
    then obtain e where e: "es = [e]" by (auto simp: length_Suc_conv)
    then obtain cur L0 where L: "L = open_level r lv es cur # L0"
      using less.prems(6) by (auto elim!: lev_inv_ConsE_open)
    have "b_finish_from H ops r lv (Q @ L) s =
        (Inr \<lparr>sr_Root = e_child e, sr_Size = e_size e, sr_Depth = of_nat (lv - 1)\<rparr>, s)"
      using less.prems(1,5) L e by (subst b_finish_from.simps) (auto simp: nth_append open_level_def)
    moreover have "s_top H r (lv - 1) es = (e, lv - 1)" using e by (simp add: s_top.simps)
    moreover have "s_holds H (puts s) (lv - 1) e (concat ds)" using less.prems(8) e by (auto simp: list_all2_Cons1)
    ultimately show ?thesis
      using less.prems(1,2,7) less.prems(9)[OF e] by (intro exI[of _ s] exI[of _ e] exI[of _ "lv - 1"]) auto
  next
    case False
    then have two: "2 \<le> length es" using less.prems(4) by (cases es; cases "tl es") auto
    let ?gs = "s_chop_all H r lv es"
    let ?es = "map (node_entry H lv) ?gs"
    have lv: "lv < maxDepth" and st: "\<exists>Q' L' s'. b_finish_from H ops r lv (Q @ L) s = b_finish_from H ops r (Suc lv) (Q' @ L') s' \<and>
     length Q' = lv \<and> grows s s' \<and> lev_inv H r (puts s') (Suc lv) ?es L' \<and> (\<forall>g\<in>set ?gs. encodeIndex lv g \<in> puts s')"
      using b_finish_step[OF assms(1) less.prems(1,3) two less.prems(5-7)] by blast+
    then obtain Q' L' s1 where eq: "b_finish_from H ops r lv (Q @ L) s = b_finish_from H ops r (Suc lv) (Q' @ L') s1"
      and st: "length Q' = lv" "grows s s1" "lev_inv H r (puts s1) (Suc lv) ?es L'" "\<forall>g\<in>set ?gs. encodeIndex lv g \<in> puts s1"
      by blast
    have "2 * length ?gs \<le> length es + 1" by (rule chop_all_halves[OF less.prems(1)])
    moreover have "2 ^ (maxDepth - lv) = 2 * (2 :: nat) ^ (maxDepth - Suc lv)" using lv by (metis Suc_diff_Suc power_Suc)
    ultimately have len: "length ?es \<le> 2 ^ (maxDepth - Suc lv)" using less.prems(3) by simp
    have cc: "concat ?gs = es" by (rule chop_all_concat)
    then have ne: "?gs \<noteq> []" using less.prems(4) by auto
    obtain k where k: "lv = Suc k" using less.prems(1) by (cases lv) auto
    have "list_all2 (s_holds H (puts s1) k) (concat ?gs) ds"
      using less.prems(8) k cc st(2) s_holds_mono[of H "puts s" _ _ _ "puts s1"] by (auto simp: grows_def elim: list_all2_mono)
    then obtain ds' where ds': "list_all2 (s_holds H (puts s1) lv) ?es ds'" "concat ds' = concat ds"
      using s_holds_groups[of H "puts s1" k ?gs ds] chop_all_nonempty st(4) group_fits[OF assms(1)] unfolding k by metis
    have top: "top_two H (puts s1) lv e" if "?es = [e]" for e
    proof -
      from that obtain g where "?gs = [g]" "e = node_entry H lv g" by auto
      then show ?thesis using cc two st(4) by (auto simp: top_two_def)
    qed
    have "s_top H r (lv - 1) es = s_top H r lv ?es" using two k by (subst s_top.simps) simp
    then show ?thesis
      using less.hyps[of "Suc lv" ?es Q' s1 L' ds'] diff_less_mono2[OF lessI lv] lv len ne st ds' top eq
        grows_trans[OF st(2)] by (fastforce simp: grows_def)
  qed
qed

lemma s_write_loop_ok:
  assumes "boundary_New g = Inr r" and "cut_all tb ck = (ds, EOF)"
    and "\<And>d. d \<in> set ds \<Longrightarrow> d \<noteq> [] \<and> length d \<le> MaxChunkSize" and "length fs + length ds \<le> 2 ^ 62"
    and "lev_inv H r (puts s) 1 (map (chunk_entry H) fs) L" and "list_all2 (s_holds H (puts s) 0) (map (chunk_entry H) fs) fs"
    and "ok s"
  shows "\<exists>s'. s_write_loop H tb ops r ck L s = (Inr (s_ref H r (fs @ ds)), s') \<and> grows s s' \<and>
     s_stored H (puts s') (s_ref H r (fs @ ds)) (concat (fs @ ds))"
  using assms(2-)
proof (induction tb ck arbitrary: ds fs L s rule: cut_all.induct)
  case (1 tb ck)
  obtain res ck' where n: "cdc_Next tb ck = (res, ck')" by (metis surj_pair)
  show ?case
  proof (cases res)
    case (Inl e)
    then have ds: "ds = []" "e = EOF" using "1.prems"(1) n by (auto simp: cut_all.simps[of tb ck])
    then have eq: "s_write_loop H tb ops r ck L s = b_finish H ops r L s"
      using n Inl by (simp add: s_write_loop.simps)
    show ?thesis
    proof (cases "fs = []")
      case True
      then have L: "L = []" using "1.prems"(4) by (auto elim: lev_inv_NilE)
      obtain s' where "rw_Put ops [] s = (Inr (H []), s')" "grows s s'" "[] \<in> puts s'"
        using put_ok[OF "1.prems"(6), of "[]"] by auto
      then show ?thesis using eq L True ds by (auto simp: b_finish_def sbind_def s_ref_def s_stored_def)
    next
      case False
      then have L: "L \<noteq> []" using "1.prems"(4) by (cases fs) (auto elim: lev_inv_ConsE)
      have top: "top_two H (puts s) (1 - 1) e" for e by (simp add: top_two_def)
      obtain s' e k where f: "b_finish_from H ops r 1 ([] @ L) s =
          (Inr \<lparr>sr_Root = e_child e, sr_Size = e_size e, sr_Depth = of_nat k\<rparr>, s')" "grows s s'"
        "s_top H r 0 (map (chunk_entry H) fs) = (e, k)" "k < maxDepth" "s_holds H (puts s') k e (concat fs)" "top_two H (puts s') k e"
        using b_finish_ok[OF assms(1), of 1 "map (chunk_entry H) fs" "[]" s L fs] False top "1.prems"(3-6) ds
        by (auto simp: maxDepth_def)
      have ne: "concat fs \<noteq> []"
        using "1.prems"(5) False by (cases fs) (auto simp: list_all2_Cons1 s_holds.simps(1))
      then show ?thesis
        using eq f L ds False by (auto simp: b_finish_def s_ref_def s_stored_def)
    qed
  next
    case (Inr d)
    then obtain ds' where ds: "cut_all tb ck' = (ds', EOF)" "ds = d # ds'"
      using "1.prems"(1) n by (auto simp: cut_all.simps[of tb ck] split: prod.splits)
    have d: "d \<noteq> []" "length d \<le> MaxChunkSize" using "1.prems"(2) ds(2) by auto
    obtain s1 where s1: "rw_Put ops d s = (Inr (H d), s1)" "grows s s1" "d \<in> puts s1"
      using put_ok[OF "1.prems"(6) d(2)] by blast
    have sub: "puts s \<subseteq> puts s1" and ok1: "ok s1" using s1(2) by (auto simp: grows_def)
    obtain L' s2 where s2: "b_add H ops r 1 (chunk_entry H d) ([] @ L) s1 = (Inr ([] @ L'), s2)" "grows s1 s2"
      "lev_inv H r (puts s2) 1 (map (chunk_entry H) fs @ [chunk_entry H d]) L'"
      using b_add_inv[OF assms(1) _ _ _ _ lev_inv_mono[OF "1.prems"(4) sub] ok1, of "[]" "chunk_entry H d"] "1.prems"(3) ds(2)
      by (auto simp: maxDepth_def)
    have sub2: "puts s \<subseteq> puts s2" "puts s1 \<subseteq> puts s2" and ok2: "ok s2" using s2(2) sub by (auto simp: grows_def)
    have "list_all2 (s_holds H (puts s2) 0) (map (chunk_entry H) fs) fs"
      using "1.prems"(5) by (rule list_all2_mono) (rule s_holds_mono[OF _ sub2(1)])
    then have "list_all2 (s_holds H (puts s2) 0) (map (chunk_entry H) (fs @ [d])) (fs @ [d])"
      using d(1) s1(3) sub2(2) list_all2_appendI[of "s_holds H (puts s2) 0" _ fs "[chunk_entry H d]" "[d]"] by (auto simp: s_holds.simps(1))
    then obtain s' where s': "s_write_loop H tb ops r ck' L' s2 = (Inr (s_ref H r ((fs @ [d]) @ ds')), s')" "grows s2 s'"
      "s_stored H (puts s') (s_ref H r ((fs @ [d]) @ ds')) (concat ((fs @ [d]) @ ds'))"
      using "1.IH"[OF n[symmetric] Inr ds(1), of "fs @ [d]" s2 L'] "1.prems"(2,3) ds(2) s2(3) ok2 by auto
    have "s_write_loop H tb ops r ck L s = s_write_loop H tb ops r ck' L' s2"
      using n Inr s1(1) s2(1) by (subst s_write_loop.simps) (simp add: sbind_def chunk_entry_def)
    then show ?thesis
      using s' ds(2) grows_trans[OF s1(2) grows_trans[OF s2(2) s'(2)]] by auto
  qed
qed

text \<open>\<^verbatim>\<open>Write\<close> succeeds on every reader that ends within \<open>2^62\<close> bytes; the reference is a function of
  the bytes alone.\<close>

lemma s_Write_stores:
  assumes "boundary_New (sc_Nodes c) = Inr r" and "cdc_Validate (sc_CDC c) = Inr ()"
    and "rdr_stream 0 rdr = (bs, EOF)" and "length bs \<le> 2 ^ 62" and "ok s"
  shows "\<exists>s'. s_Write H tb ops rdr len c s = (Inr (s_ref H r (cdc_chunks tb (sc_CDC c) bs)), s') \<and> grows s s' \<and>
     s_stored H (puts s') (s_ref H r (cdc_chunks tb (sc_CDC c) bs)) bs"
proof -
  obtain ck where ck: "cdc_New tb rdr len (sc_CDC c) = Inr ck" using assms(2) by (auto simp: cdc_New_def)
  let ?ds = "cdc_chunks tb (sc_CDC c) bs"
  have cut: "cut_all tb ck = (?ds, EOF)" by (rule cut_all_chunks[OF ck assms(3)])
  note sound = cdc_chunks_sound[OF assms(2), of tb bs]
  have d: "d \<noteq> [] \<and> length d \<le> MaxChunkSize" if "d \<in> set ?ds" for d
  proof -
    from sound(2) that have "d \<noteq> []" "int (length d) \<le> c_Max (sc_CDC c)" by auto
    then show ?thesis using cdc_ValidateD(3)[OF assms(2)] by (simp add: MaxChunkSize_def)
  qed
  have "length ds \<le> length (concat ds)" if "\<forall>d\<in>set ds. d \<noteq> []" for ds :: "bytes list"
    using that
  proof (induction ds)
    case (Cons a ds)
    then show ?case by (cases a) auto
  qed simp
  then have "length ?ds \<le> 2 ^ 62" using sound assms(4) by (metis order_trans)
  then show ?thesis
    using s_write_loop_ok[OF assms(1) cut d, of "[]" s "[]"] assms(5) lev_Nil[of H r "puts s" 1] sound(1)
    by (simp add: s_Write_def sbind_def ck assms(1))
qed

end

end
