(* ===== verification/StreamRead.thy ===== *)
theory StreamRead
  imports Stream
begin

text \<open>
  The reading half of \<^verbatim>\<open>core/stream\<close>: \<^verbatim>\<open>Open\<close>, \<^verbatim>\<open>chunkAt\<close> with the index nodes it keeps,
  \<^verbatim>\<open>ReadAt\<close>, \<^verbatim>\<open>Read\<close>, \<^verbatim>\<open>ReadAll\<close> and \<^verbatim>\<open>Walk\<close>. A \<^verbatim>\<open>Reader\<close> is passed and returned; the store is
  only read. An \<^verbatim>\<open>int64\<close> offset is an \<open>int\<close>: \<^verbatim>\<open>Open\<close> refuses a size over \<^verbatim>\<open>MaxInt64\<close>.
\<close>

section \<open>The reader\<close>

record held =
  h_start :: int
  h_ends :: "int list"
  h_es :: "sentry list"

record sreader =
  sd_ref :: sref
  sd_off :: int
  sd_cur :: "bytes option"
  sd_curStart :: int
  sd_path :: "held list"

definition held_holds :: "int \<Rightarrow> held \<Rightarrow> bool" where
  "held_holds pos n \<longleftrightarrow> pos \<ge> h_start n \<and> pos < last (h_ends n)"

text \<open>\<^verbatim>\<open>child\<close>; past the last entry Go panics.\<close>

definition held_child :: "int \<Rightarrow> held \<Rightarrow> (hash \<times> u64 \<times> int) result" where
  "held_child pos n =
     (let i = sort_Search (length (h_ends n)) (\<lambda>i. h_ends n ! i > pos);
          start = (if i > 0 then h_ends n ! (i - 1) else h_start n)
      in if i < length (h_es n) then Inr (e_child (h_es n ! i), e_size (h_es n ! i), start)
         else Inl (ErrOther ''panic: index out of range''))"

fun running :: "int \<Rightarrow> sentry list \<Rightarrow> int list" where
  "running end [] = []"
| "running end (e # es) = (end + sint (e_size e)) # running (end + sint (e_size e)) es"

text \<open>\<^verbatim>\<open>node\<close>: an index node read and checked against what its parent says of it.\<close>

definition sd_node :: "('s, 'z) rw_scheme \<Rightarrow> 's \<Rightarrow> sref \<Rightarrow> hash \<Rightarrow> nat \<Rightarrow> u64 \<Rightarrow> int \<Rightarrow> held result" where
  "sd_node ops s ref h depth want start =
     rbind (rw_Get ops s h) (\<lambda>b.
     rbind (decodeIndex b) (\<lambda>(level, es).
       if level \<noteq> depth then Inl ErrChunkCorrupt
       else if depth = unat (sr_Depth ref) \<and> length es < 2 then Inl ErrChunkCorrupt
       else if sum_list (map e_size es) \<noteq> want then Inl ErrChunkCorrupt
       else Inr \<lparr>h_start = start, h_ends = running start es, h_es = es\<rparr>))"

text \<open>The loop of \<^verbatim>\<open>chunkAt\<close>, from \<open>depth\<close> down to the data.\<close>

primrec sd_down :: "nat \<Rightarrow> ('s, 'z) rw_scheme \<Rightarrow> 's \<Rightarrow> int \<Rightarrow> hash \<Rightarrow> u64 \<Rightarrow> int \<Rightarrow> sreader \<Rightarrow> (bytes \<times> int) result \<times> sreader" where
  "sd_down 0 ops s pos h want start r =
     (case rw_Get ops s h of
        Inl e \<Rightarrow> (Inl e, r)
      | Inr b \<Rightarrow> if of_nat (length b) \<noteq> want then (Inl ErrChunkCorrupt, r)
                 else (Inr (b, start), r\<lparr>sd_cur := Some b, sd_curStart := start\<rparr>))"
| "sd_down (Suc depth) ops s pos h want start r =
     (case sd_node ops s (sd_ref r) h (Suc depth) want start of
        Inl e \<Rightarrow> (Inl e, r)
      | Inr n \<Rightarrow>
          let r = r\<lparr>sd_path := sd_path r @ [n]\<rparr> in
          (case held_child pos n of
             Inl e \<Rightarrow> (Inl e, r)
           | Inr (h, want, start) \<Rightarrow> sd_down depth ops s pos h want start r))"

text \<open>\<^verbatim>\<open>chunkAt\<close> past its check of the chunk read last: the held nodes that do not hold \<open>pos\<close> are
  dropped, and the way down starts from the deepest left.\<close>

definition sd_descend :: "('s, 'z) rw_scheme \<Rightarrow> 's \<Rightarrow> int \<Rightarrow> sreader \<Rightarrow> (bytes \<times> int) result \<times> sreader" where
  "sd_descend ops s pos r =
     (let path = rev (dropWhile (\<lambda>n. \<not> held_holds pos n) (rev (sd_path r))) in
      case (if path = [] then Inr (sr_Root (sd_ref r), sr_Size (sd_ref r), 0) else held_child pos (last path)) of
        Inl e \<Rightarrow> (Inl e, r\<lparr>sd_path := path\<rparr>)
      | Inr (h, want, start) \<Rightarrow>
          sd_down (unat (sr_Depth (sd_ref r)) - length path) ops s pos h want start (r\<lparr>sd_path := path\<rparr>))"

definition sd_chunkAt :: "('s, 'z) rw_scheme \<Rightarrow> 's \<Rightarrow> int \<Rightarrow> sreader \<Rightarrow> (bytes \<times> int) result \<times> sreader" where
  "sd_chunkAt ops s pos r =
     (case sd_cur r of
        None \<Rightarrow> sd_descend ops s pos r
      | Some c \<Rightarrow>
          if pos \<ge> sd_curStart r \<and> pos < sd_curStart r + int (length c) then (Inr (c, sd_curStart r), r)
          else sd_descend ops s pos r)"

definition sd_Size :: "sreader \<Rightarrow> int" where
  "sd_Size r = sint (sr_Size (sd_ref r))"

definition sd_Open :: "('s, 'z) rw_scheme \<Rightarrow> 's \<Rightarrow> sref \<Rightarrow> sreader result" where
  "sd_Open ops s ref =
     (if sr_Depth ref > of_nat maxDepth \<or> sr_Size ref > 2 ^ 63 - 1 then Inl ErrChunkCorrupt
      else let r = \<lparr>sd_ref = ref, sd_off = 0, sd_cur = None, sd_curStart = 0, sd_path = []\<rparr> in
        if sr_Size ref = 0 then
          rbind (rw_Get ops s (sr_Root ref)) (\<lambda>b.
            if sr_Depth ref \<noteq> 0 \<or> length b \<noteq> 0 then Inl ErrChunkCorrupt else Inr r)
        else case sd_chunkAt ops s 0 r of
               (Inl e, r) \<Rightarrow> Inl e
             | (Inr _, r) \<Rightarrow> Inr r)"

text \<open>
  The copying loop of \<^verbatim>\<open>ReadAt\<close>: \<open>k\<close> bytes of room are left at \<open>pos\<close>. A chunk that does not reach
  \<open>pos\<close> would make Go panic, or copy nothing for ever; \<open>sd_ReadAt_safe\<close> shows that no store makes it.
\<close>

datatype read_end = REOF | RErr err

function sd_copy :: "('s, 'z) rw_scheme \<Rightarrow> 's \<Rightarrow> nat \<Rightarrow> int \<Rightarrow> sreader \<Rightarrow> (bytes \<times> read_end option) \<times> sreader" where
  "sd_copy ops s k pos r =
     (if 0 < k \<and> pos < sd_Size r then
        (case sd_chunkAt ops s pos r of
           (Inl e, r) \<Rightarrow> (([], Some (RErr e)), r)
         | (Inr (c, start), r) \<Rightarrow>
             if pos < start \<or> pos - start \<ge> int (length c) then (([], Some (RErr (ErrOther ''panic: no progress''))), r)
             else let p = take k (drop (nat (pos - start)) c);
                      ((q, e), r) = sd_copy ops s (k - length p) (pos + int (length p)) r
                  in ((p @ q, e), r))
      else (([], if 0 < k then Some REOF else None), r))"
  by pat_completeness auto
termination
  by (relation "measure (\<lambda>(ops, s, k, pos, r). k)") auto

declare sd_copy.simps [simp del]

definition sd_ReadAt :: "('s, 'z) rw_scheme \<Rightarrow> 's \<Rightarrow> nat \<Rightarrow> int \<Rightarrow> sreader \<Rightarrow> (bytes \<times> read_end option) \<times> sreader" where
  "sd_ReadAt ops s k off r =
     (if off < 0 then (([], Some (RErr (ErrOther ''stream: negative offset''))), r)
      else sd_copy ops s k off r)"

definition sd_Read :: "('s, 'z) rw_scheme \<Rightarrow> 's \<Rightarrow> nat \<Rightarrow> sreader \<Rightarrow> (bytes \<times> read_end option) \<times> sreader" where
  "sd_Read ops s k r =
     (let ((p, e), r) = sd_ReadAt ops s k (sd_off r) r;
          r = r\<lparr>sd_off := sd_off r + int (length p)\<rparr>
      in ((p, if p \<noteq> [] \<and> e = Some REOF then None else e), r))"

lemma sd_down_ref: "sd_down d ops s pos h want start r = (res, r') \<Longrightarrow> sd_ref r' = sd_ref r \<and> sd_off r' = sd_off r"
  by (induction d arbitrary: h want start r) (fastforce simp: Let_def split: sum.splits if_splits prod.splits)+

lemma sd_chunkAt_ref: "sd_chunkAt ops s pos r = (res, r') \<Longrightarrow> sd_ref r' = sd_ref r \<and> sd_off r' = sd_off r"
  by (auto simp: sd_chunkAt_def sd_descend_def Let_def split: option.splits if_splits sum.splits prod.splits dest!: sd_down_ref)

lemma sd_copy_ref:
  "sd_copy ops s k pos r = ((p, e), r') \<Longrightarrow>
   sd_ref r' = sd_ref r \<and> sd_off r' = sd_off r \<and> (0 < k \<and> p = [] \<longrightarrow> e \<noteq> None) \<and> (p \<noteq> [] \<longrightarrow> pos < sd_Size r)"
proof (induction ops s k pos r arbitrary: p e r' rule: sd_copy.induct)
  case (1 ops s k pos r)
  show ?case
  proof (cases "0 < k \<and> pos < sd_Size r")
    case False
    then show ?thesis using "1.prems" by (auto simp: sd_copy.simps[of ops s k pos r])
  next
    case True
    obtain res r1 where c: "sd_chunkAt ops s pos r = (res, r1)" by (metis surj_pair)
    note rr = sd_chunkAt_ref[OF c]
    show ?thesis
    proof (cases res)
      case (Inl x)
      then show ?thesis using "1.prems" True c rr by (auto simp: sd_copy.simps[of ops s k pos r])
    next
      case (Inr a)
      obtain b st where a: "a = (b, st)" by (metis surj_pair)
      show ?thesis
      proof (cases "pos < st \<or> pos - st \<ge> int (length b)")
        case bad: True
        then show ?thesis using "1.prems" True c rr Inr a by (auto simp: sd_copy.simps[of ops s k pos r])
      next
        case ok: False
        let ?p = "take k (drop (nat (pos - st)) b)"
        obtain q e' r2 where q: "sd_copy ops s (k - length ?p) (pos + int (length ?p)) r1 = ((q, e'), r2)" by (metis surj_pair)
        have "?p \<noteq> []" using ok True by auto
        moreover have "p = ?p @ q" "e = e'" "r' = r2"
          using "1.prems" True c Inr a ok q by (auto simp: sd_copy.simps[of ops s k pos r] Let_def)
        ultimately show ?thesis
          using "1.IH"[OF True c[symmetric] Inr a[symmetric] ok refl q] rr True by auto
      qed
    qed
  qed
qed

lemma sd_Read_progress:
  assumes "sd_Read ops s k r = ((p, None), r')" and "0 < k"
  shows "sd_off r < sd_off r'" and "sd_off r < sd_Size r" and "sd_Size r' = sd_Size r"
proof -
  obtain q e r1 where a: "sd_ReadAt ops s k (sd_off r) r = ((q, e), r1)" by (metis surj_pair)
  then have pr: "p = q" "r' = r1\<lparr>sd_off := sd_off r1 + int (length p)\<rparr>" "q \<noteq> [] \<or> e = None"
    using assms(1) by (auto simp: sd_Read_def split: if_splits)
  have c: "\<not> sd_off r < 0 \<Longrightarrow> sd_copy ops s k (sd_off r) r = ((q, e), r1)" and n: "sd_off r < 0 \<Longrightarrow> e \<noteq> None \<and> q = []"
    using a by (auto simp: sd_ReadAt_def split: if_splits)
  then have nn: "\<not> sd_off r < 0" using pr(3) by auto
  note rr = sd_copy_ref[OF c[OF nn]]
  then show "sd_off r < sd_off r'" "sd_off r < sd_Size r" "sd_Size r' = sd_Size r"
    using pr assms(2) by (auto simp: sd_Size_def)
qed

text \<open>
  \<^verbatim>\<open>io.Copy\<close> into a \<^verbatim>\<open>bytes.Buffer\<close> is its \<^verbatim>\<open>ReadFrom\<close>: reads of at least \<^verbatim>\<open>MinRead\<close> bytes of room.
  How much more room there is depends on how the buffer grew: \<open>grow\<close>.
\<close>

function buf_ReadFrom :: "(nat \<Rightarrow> nat) \<Rightarrow> ('s, 'z) rw_scheme \<Rightarrow> 's \<Rightarrow> bytes \<Rightarrow> sreader \<Rightarrow> bytes result" where
  "buf_ReadFrom grow ops s buf r =
     (case sd_Read ops s (512 + grow (length buf)) r of
        ((p, Some REOF), r) \<Rightarrow> Inr (buf @ p)
      | ((p, Some (RErr e)), r) \<Rightarrow> Inl e
      | ((p, None), r) \<Rightarrow> buf_ReadFrom grow ops s (buf @ p) r)"
  by pat_completeness auto
termination
proof (relation "measure (\<lambda>(grow, ops, s, buf, r). nat (sd_Size r - sd_off r))", goal_cases)
  case (2 grow ops s buf r x r1 p e)
  then have "sd_Read ops s (512 + grow (length buf)) r = ((p, None), r1)" by simp
  from sd_Read_progress[OF this] show ?case by simp
qed simp

declare buf_ReadFrom.simps [simp del]

definition s_ReadAll :: "(nat \<Rightarrow> nat) \<Rightarrow> ('s, 'z) rw_scheme \<Rightarrow> sref \<Rightarrow> u64 \<Rightarrow> 's \<Rightarrow> bytes result" where
  "s_ReadAll grow ops ref limit s =
     (if sr_Size ref > limit then Inl ErrStreamTooLarge
      else rbind (sd_Open ops s ref) (\<lambda>r. buf_ReadFrom grow ops s [] r))"

text \<open>\<^verbatim>\<open>Walk\<close>: \<open>visit\<close> carries a state of its own.\<close>

primrec s_walk :: "nat \<Rightarrow> ('s, 'z) rw_scheme \<Rightarrow> 's \<Rightarrow> hash \<Rightarrow> u64 \<Rightarrow> bool \<Rightarrow> (hash \<Rightarrow> bool \<Rightarrow> ('v, bool) comp) \<Rightarrow> ('v, unit) comp" where
  "s_walk 0 ops s h want istop visit = sbind (visit h True) (\<lambda>_. sret ())"
| "s_walk (Suc depth) ops s h want istop visit =
     sbind (visit h False) (\<lambda>deeper.
       if \<not> deeper then sret ()
       else
         sbind (slift (rw_Get ops s h)) (\<lambda>b.
         sbind (slift (decodeIndex b)) (\<lambda>(level, es).
           if level \<noteq> Suc depth then sfail ErrChunkCorrupt
           else if istop \<and> length es < 2 then sfail ErrChunkCorrupt
           else if sum_list (map e_size es) \<noteq> want then sfail ErrChunkCorrupt
           else sfold (\<lambda>e _. s_walk depth ops s (e_child e) (e_size e) False visit) es ())))"

definition s_Walk :: "('s, 'z) rw_scheme \<Rightarrow> 's \<Rightarrow> sref \<Rightarrow> (hash \<Rightarrow> bool \<Rightarrow> ('v, bool) comp) \<Rightarrow> ('v, unit) comp" where
  "s_Walk ops s ref visit =
     (if sr_Depth ref > of_nat maxDepth \<or> sr_Size ref > 2 ^ 63 - 1 then sfail ErrChunkCorrupt
      else s_walk (unat (sr_Depth ref)) ops s (sr_Root ref) (sr_Size ref) True visit)"

section \<open>Reading is safe on any store\<close>

abbreviation ints :: "sentry list \<Rightarrow> int" where
  "ints es \<equiv> sum_list (map (\<lambda>e. sint (e_size e)) es)"

lemma length_running [simp]: "length (running st es) = length es"
  by (induction es arbitrary: st) auto

lemma running_Nil [simp]: "running st es = [] \<longleftrightarrow> es = []"
  by (cases es) auto

lemma running_nth: "i < length es \<Longrightarrow> running st es ! i = st + ints (take (Suc i) es)"
proof (induction es arbitrary: st i)
  case (Cons e es)
  then show ?case by (cases i) auto
qed simp

lemma running_last: "es \<noteq> [] \<Longrightarrow> last (running st es) = st + ints es"
proof (induction es arbitrary: st)
  case (Cons e es)
  then show ?case by (cases es) auto
qed simp

lemma ints_take_mono:
  assumes "\<forall>e\<in>set es. 0 \<le> sint (e_size e)" and "i \<le> j"
  shows "ints (take i es) \<le> ints (take j es)"
proof -
  have "take j es = take i es @ take (j - i) (drop i es)" using assms(2) by (metis le_add_diff_inverse take_add)
  moreover have "0 \<le> ints (take (j - i) (drop i es))"
    using assms(1) by (intro sum_list_nonneg) (auto dest!: in_set_takeD in_set_dropD)
  ultimately show ?thesis by simp
qed

lemma held_child_ok:
  assumes "\<forall>e\<in>set es. 0 \<le> sint (e_size e)" and "st \<le> pos" and "pos < st + ints es"
  shows "\<exists>i < length es. held_child pos \<lparr>h_start = st, h_ends = running st es, h_es = es\<rparr> =
      Inr (e_child (es ! i), e_size (es ! i), st + ints (take i es)) \<and>
    st + ints (take i es) \<le> pos \<and> pos < st + ints (take i es) + sint (e_size (es ! i))"
proof -
  let ?f = "\<lambda>i. running st es ! i > pos"
  define i where "i = sort_Search (length es) ?f"
  have mono: "?f b" if "a \<le> b" "b < length es" "?f a" for a b
    using that ints_take_mono[OF assms(1), of "Suc a" "Suc b"] by (simp add: running_nth)
  have l: "i \<le> length es" "\<And>k. k < i \<Longrightarrow> \<not> ?f k" "i < length es \<Longrightarrow> ?f i"
    unfolding i_def using mono by (rule sort_Search_least; blast)+
  have ne: "es \<noteq> []" using assms(2,3) by auto
  have i: "i < length es"
  proof (rule ccontr)
    assume "\<not> i < length es"
    then have "\<not> ?f (length es - 1)" using l(1) l(2)[of "length es - 1"] ne by (cases es) auto
    then show False using assms(3) running_last[OF ne, of st] ne by (simp add: last_conv_nth)
  qed
  have sti: "(if i > 0 then running st es ! (i - 1) else st) = st + ints (take i es)"
    using i by (cases i) (auto simp: running_nth)
  have "st + ints (take i es) \<le> pos"
    using sti l(2)[of "i - 1"] assms(2) by (cases "i > 0") auto
  moreover have "pos < st + ints (take i es) + sint (e_size (es ! i))"
    using l(3)[OF i] i by (simp add: running_nth take_Suc_conv_app_nth)
  ultimately show ?thesis
    using i sti by (intro exI[of _ i]) (simp add: held_child_def i_def[symmetric] Let_def split: if_splits)
qed

lemma sint_small: "uint (w :: u64) < 2 ^ 63 \<Longrightarrow> sint w = uint w"
proof -
  assume "uint w < 2 ^ 63"
  then have "signed_take_bit 63 (uint w) = uint w"
    by (intro signed_take_bit_int_eq_self) (auto intro: order_trans[OF _ uint_ge_0])
  then show ?thesis by (simp add: sint_uint)
qed

lemma sizes_sum_word: "sum_list (map e_size es) = of_nat (sizes_sum es)"
  by (induction es) (auto simp: sizes_sum_def)

text \<open>The sizes in a checked node add up to what the parent says, as integers.\<close>

lemma sizes_ints:
  assumes "sizes_sum es < 2 ^ 64" and "sum_list (map e_size es) = want" and "uint want < 2 ^ 63"
  shows "\<forall>e\<in>set es. 0 \<le> sint (e_size e) \<and> uint (e_size e) < 2 ^ 63" and "ints es = uint want"
proof -
  have w: "uint want = int (sizes_sum es)"
    using assms(1,2) uint_of_nat_small[of "sizes_sum es", where ?'a = 64] by (simp add: sizes_sum_word)
  have le: "unat (e_size e) \<le> sizes_sum es" if "e \<in> set es" for e
    using that by (auto simp: sizes_sum_def intro: member_le_sum_list)
  then have sm: "uint (e_size e) < 2 ^ 63" if "e \<in> set es" for e
    using of_nat_mono[OF le[OF that], where ?'a = int] w assms(3) by simp
  then show "\<forall>e\<in>set es. 0 \<le> sint (e_size e) \<and> uint (e_size e) < 2 ^ 63"
    by (simp add: sint_small)
  have "ints es = int (sizes_sum es)"
    using sm by (induction es) (auto simp: sizes_sum_def sint_small)
  then show "ints es = uint want" using w by simp
qed

text \<open>A node the reader holds: checked, and inside the stream's size \<open>Z\<close>; and the reader itself.\<close>

definition held_ok :: "int \<Rightarrow> held \<Rightarrow> bool" where
  "held_ok Z n \<longleftrightarrow> (\<exists>st es. n = \<lparr>h_start = st, h_ends = running st es, h_es = es\<rparr> \<and> es \<noteq> [] \<and> 0 \<le> st \<and> st + ints es \<le> Z \<and>
     (\<forall>e\<in>set es. 0 \<le> sint (e_size e) \<and> uint (e_size e) < 2 ^ 63))"

definition sd_ok :: "sreader \<Rightarrow> bool" where
  "sd_ok r \<longleftrightarrow> uint (sr_Size (sd_ref r)) < 2 ^ 63 \<and> (\<forall>n\<in>set (sd_path r). held_ok (sd_Size r) n) \<and>
     (\<forall>c. sd_cur r = Some c \<longrightarrow> sd_curStart r + int (length c) \<le> sd_Size r)"

text \<open>\<open>pos\<close> falls inside the \<open>want\<close> bytes from \<open>st\<close>, and they inside the stream.\<close>

definition spans :: "int \<Rightarrow> int \<Rightarrow> int \<Rightarrow> u64 \<Rightarrow> bool" where
  "spans Z pos st want \<longleftrightarrow> 0 \<le> st \<and> st \<le> pos \<and> pos < st + uint want \<and> uint want < 2 ^ 63 \<and> st + uint want \<le> Z"

lemma sd_node_ok:
  assumes "sd_node ops s ref h depth want start = Inr n" and "spans Z pos start want"
  shows "held_ok Z n" and "held_holds pos n"
proof -
  obtain b es where d: "decodeIndex b = Inr (depth, es)" "sum_list (map e_size es) = want"
    "n = \<lparr>h_start = start, h_ends = running start es, h_es = es\<rparr>"
    using assms(1) by (auto simp: sd_node_def result_simps split: if_splits)
  have i: "es \<noteq> []" "sizes_sum es < 2 ^ 64" using decodeIndex_inv(2)[OF d(1)] by (auto simp: index_ok_def)
  note z = sizes_ints[OF i(2) d(2)]
  show "held_ok Z n" "held_holds pos n"
    using assms(2) d(3) i(1) z running_last[OF i(1)] by (auto simp: held_ok_def held_holds_def spans_def)
qed

lemma held_ok_child:
  assumes "held_ok Z n" and "held_holds pos n"
  shows "\<exists>h want st. held_child pos n = Inr (h, want, st) \<and> spans Z pos st want"
proof -
  obtain st es where n: "n = \<lparr>h_start = st, h_ends = running st es, h_es = es\<rparr>" "es \<noteq> []" "0 \<le> st" "st + ints es \<le> Z"
    "\<forall>e\<in>set es. 0 \<le> sint (e_size e) \<and> uint (e_size e) < 2 ^ 63"
    using assms(1) by (auto simp: held_ok_def)
  have "st \<le> pos" "pos < st + ints es" using assms(2) n running_last by (auto simp: held_holds_def)
  then obtain i where i: "i < length es" "held_child pos n = Inr (e_child (es ! i), e_size (es ! i), st + ints (take i es))"
    "st + ints (take i es) \<le> pos" "pos < st + ints (take i es) + sint (e_size (es ! i))"
    using held_child_ok[of es st pos] n by auto
  have nn: "\<forall>e\<in>set es. 0 \<le> sint (e_size e)" using n(5) by auto
  have "0 \<le> ints (take i es)" using ints_take_mono[OF nn, of 0 i] by simp
  moreover have "ints (take i es) + sint (e_size (es ! i)) \<le> ints es"
    using ints_take_mono[OF nn, of "Suc i" "length es"] i(1) by (simp add: take_Suc_conv_app_nth)
  ultimately show ?thesis using i n(3-5) by (auto simp: sint_small spans_def)
qed

text \<open>What a read may fail with: corruption, or what the store's \<^verbatim>\<open>Get\<close> failed with.\<close>

definition read_fault :: "('s, 'z) rw_scheme \<Rightarrow> 's \<Rightarrow> err \<Rightarrow> bool" where
  "read_fault ops s e \<longleftrightarrow> e = ErrChunkCorrupt \<or> (\<exists>h. rw_Get ops s h = Inl e)"

lemma rd_loop_sentry_err: "rd_loop rd_sentry n t r = Inl e \<Longrightarrow> e = ErrChunkCorrupt"
  by (induction n arbitrary: t r)
    (auto simp: result_simps rd_sentry_def split: prod.splits if_splits)

lemma decodeIndex_err: "decodeIndex b = Inl e \<Longrightarrow> e = ErrChunkCorrupt"
  by (auto simp: decodeIndex_def result_simps split: prod.splits if_splits dest: rd_loop_sentry_err)

lemma sd_node_err: "sd_node ops s ref h d want st = Inl e \<Longrightarrow> read_fault ops s e"
  by (auto simp: sd_node_def read_fault_def result_simps split: if_splits dest: decodeIndex_err)

text \<open>A chunk in memory is under \<open>2^64\<close> bytes long.\<close>

definition small_gets :: "('s, 'z) rw_scheme \<Rightarrow> 's \<Rightarrow> bool" where
  "small_gets ops s \<longleftrightarrow> (\<forall>h b. rw_Get ops s h = Inr b \<longrightarrow> length b < 2 ^ 64)"

definition good_chunk :: "('s, 'z) rw_scheme \<Rightarrow> 's \<Rightarrow> int \<Rightarrow> int \<Rightarrow> (bytes \<times> int) result \<Rightarrow> bool" where
  "good_chunk ops s Z pos res \<longleftrightarrow>
     (case res of Inl e \<Rightarrow> read_fault ops s e
      | Inr (b, st) \<Rightarrow> st \<le> pos \<and> pos < st + int (length b) \<and> st + int (length b) \<le> Z)"

lemma sd_down_ok:
  assumes "sd_down d ops s pos h want st r = (res, r')" and "spans (sd_Size r) pos st want" and "sd_ok r" and "small_gets ops s"
  shows "sd_ok r' \<and> good_chunk ops s (sd_Size r) pos res"
  using assms(1-3)
proof (induction d arbitrary: h want st r)
  case 0
  have "uint want = int (length b)" if "of_nat (length b) = want" "rw_Get ops s h = Inr b" for b :: bytes
    using that assms(4) uint_of_nat_small[of "length b", where ?'a = 64] by (auto simp: small_gets_def)
  then show ?case using 0
    by (auto simp: sd_ok_def read_fault_def good_chunk_def spans_def sd_Size_def split: sum.splits if_splits)
next
  case (Suc d)
  show ?case
  proof (cases "sd_node ops s (sd_ref r) h (Suc d) want st")
    case (Inl e)
    then show ?thesis using Suc.prems sd_node_err by (auto simp: sd_ok_def good_chunk_def)
  next
    case (Inr n)
    note n = sd_node_ok[OF Inr Suc.prems(2)]
    then obtain h' want' st' where c: "held_child pos n = Inr (h', want', st')" "spans (sd_Size r) pos st' want'"
      using held_ok_child by blast
    let ?r = "r\<lparr>sd_path := sd_path r @ [n]\<rparr>"
    have "sd_ok ?r" "sd_Size ?r = sd_Size r" using Suc.prems(3) n(1) by (auto simp: sd_ok_def sd_Size_def)
    then show ?thesis using Suc.IH[of h' want' st' ?r] Suc.prems(1) Inr c by (simp add: Let_def)
  qed
qed

lemma sd_chunkAt_ok:
  assumes "sd_chunkAt ops s pos r = (res, r')" and "sd_ok r" and "0 \<le> pos" and "pos < sd_Size r" and "small_gets ops s"
  shows "sd_ok r' \<and> good_chunk ops s (sd_Size r) pos res"
proof (cases "\<exists>b. sd_cur r = Some b \<and> pos \<ge> sd_curStart r \<and> pos < sd_curStart r + int (length b)")
  case True
  then show ?thesis using assms(1,2) by (auto simp: sd_chunkAt_def good_chunk_def sd_ok_def)
next
  case False
  let ?path = "rev (dropWhile (\<lambda>n. \<not> held_holds pos n) (rev (sd_path r)))"
  let ?r = "r\<lparr>sd_path := ?path\<rparr>"
  let ?c = "if ?path = [] then Inr (sr_Root (sd_ref r), sr_Size (sd_ref r), 0) else held_child pos (last ?path)"
  have d: "sd_descend ops s pos r = (res, r')" using assms(1) False by (auto simp: sd_chunkAt_def split: option.splits if_splits)
  have okr: "sd_ok ?r" "sd_Size ?r = sd_Size r"
    using assms(2) by (auto simp: sd_ok_def sd_Size_def dest: set_dropWhileD)
  have "\<exists>h want st. ?c = Inr (h, want, st) \<and> spans (sd_Size r) pos st want"
  proof (cases "?path = []")
    case True
    then show ?thesis using assms by (auto simp: sd_ok_def spans_def sd_Size_def sint_small)
  next
    case False
    then have "held_holds pos (last ?path)"
      using hd_dropWhile[of "\<lambda>n. \<not> held_holds pos n" "rev (sd_path r)"] by (simp add: last_rev)
    moreover have "held_ok (sd_Size r) (last ?path)"
      using False okr last_in_set[OF False] by (simp add: sd_ok_def)
    ultimately show ?thesis using False held_ok_child by auto
  qed
  then obtain h want st where c: "?c = Inr (h, want, st)" "spans (sd_Size r) pos st want" by blast
  have "sd_down (unat (sr_Depth (sd_ref r)) - length ?path) ops s pos h want st ?r = (res, r')"
    using d unfolding sd_descend_def Let_def c(1) by simp
  from sd_down_ok[OF this _ okr(1) assms(5)] c(2) show ?thesis by (simp add: okr(2))
qed

text \<open>A copy yields at most what is asked and what is left of the stream, and fails only as a read
  may fail.\<close>

lemma sd_copy_ok:
  "sd_copy ops s k pos r = ((p, e), r') \<Longrightarrow> sd_ok r \<Longrightarrow> 0 \<le> pos \<Longrightarrow> small_gets ops s \<Longrightarrow>
   sd_ok r' \<and> length p \<le> k \<and> int (length p) \<le> max 0 (sd_Size r - pos) \<and> (\<forall>x. e = Some (RErr x) \<longrightarrow> read_fault ops s x)"
proof (induction ops s k pos r arbitrary: p e r' rule: sd_copy.induct)
  case (1 ops s k pos r)
  show ?case
  proof (cases "0 < k \<and> pos < sd_Size r")
    case False
    then show ?thesis using "1.prems" by (auto simp: sd_copy.simps[of ops s k pos r] split: if_splits)
  next
    case True
    obtain res r1 where c: "sd_chunkAt ops s pos r = (res, r1)" by (metis surj_pair)
    have okc: "sd_ok r1" "good_chunk ops s (sd_Size r) pos res"
      using sd_chunkAt_ok[OF c] "1.prems" True by auto
    have Z: "sd_Size r1 = sd_Size r" using sd_chunkAt_ref[OF c] by (simp add: sd_Size_def)
    show ?thesis
    proof (cases res)
      case (Inl x)
      then show ?thesis using "1.prems" True c okc by (auto simp: sd_copy.simps[of ops s k pos r] good_chunk_def)
    next
      case (Inr a)
      obtain b st where a: "a = (b, st)" by (metis surj_pair)
      have ok: "\<not> (pos < st \<or> pos - st \<ge> int (length b))" "st + int (length b) \<le> sd_Size r"
        using okc(2) Inr a by (auto simp: good_chunk_def)
      define u where "u = take k (drop (nat (pos - st)) b)"
      obtain q e' r2 where q: "sd_copy ops s (k - length u) (pos + int (length u)) r1 = ((q, e'), r2)" by (metis surj_pair)
      have "p = u @ q" "e = e'" "r' = r2"
        using "1.prems"(1) True c Inr a ok(1) q by (auto simp: sd_copy.simps[of ops s k pos r] Let_def u_def)
      moreover have "int (length u) \<le> sd_Size r - pos" "length u \<le> k" using ok by (auto simp: u_def)
      ultimately show ?thesis
        using "1.IH"[OF True c[symmetric] Inr a[symmetric] ok(1) u_def q okc(1)] "1.prems" Z by auto
    qed
  qed
qed

lemma sd_Open_ok:
  assumes "sd_Open ops s ref = Inr r" and "small_gets ops s"
  shows "sd_ok r \<and> sd_ref r = ref"
proof -
  let ?r = "\<lparr>sd_ref = ref, sd_off = 0, sd_cur = None, sd_curStart = 0, sd_path = []\<rparr>"
  have "\<not> sr_Size ref > 2 ^ 63 - 1" using assms(1) by (auto simp: sd_Open_def split: if_splits)
  then have sz: "uint (sr_Size ref) < 2 ^ 63" by (simp add: word_less_def)
  then have ok: "sd_ok ?r" by (simp add: sd_ok_def)
  show ?thesis
  proof (cases "sr_Size ref = 0")
    case True
    then show ?thesis using assms(1) ok by (auto simp: sd_Open_def result_simps split: if_splits)
  next
    case False
    then obtain c where c: "sd_chunkAt ops s 0 ?r = (Inr c, r)"
      using assms(1) by (auto simp: sd_Open_def split: if_splits sum.splits prod.splits)
    have "0 < uint (sr_Size ref)" using False by (simp add: word_neq_0_conv[symmetric] word_less_def[symmetric] uint_0_iff less_le)
    then have "0 < sd_Size ?r" using sz by (simp add: sd_Size_def sint_small)
    then show ?thesis using sd_chunkAt_ok[OF c ok _ _ assms(2)] sd_chunkAt_ref[OF c] by simp
  qed
qed

section \<open>Reading what was written\<close>

lemma s_holds_size: "s_holds H P k e d \<Longrightarrow> e_size e = of_nat (length d) \<and> d \<noteq> []"
proof (induction k arbitrary: e d)
  case 0
  then show ?case by (auto simp: s_holds.simps(1) chunk_entry_def)
next
  case (Suc k)
  then obtain es ds where a: "e = node_entry H (Suc k) es" "es \<noteq> []" "list_all2 (s_holds H P k) es ds" "d = concat ds"
    by (auto simp: s_holds.simps(2))
  have "sum_list (map e_size es) = of_nat (length (concat ds))"
    using a(3) by (induction es ds rule: list_all2_induct) (use Suc.IH in auto)
  moreover have "concat ds \<noteq> []"
    using a(2,3) Suc.IH by (cases es) (auto simp: list_all2_Cons1)
  ultimately show ?case using a by (simp add: node_entry_def)
qed

lemma s_holds_ints:
  assumes "list_all2 (s_holds H P k) es ds" and "length (concat ds) < 2 ^ 63"
  shows "ints es = int (length (concat ds)) \<and> sizes_sum es = length (concat ds) \<and>
    list_all (\<lambda>e. e_size e \<noteq> 0) es \<and> (\<forall>e\<in>set es. 0 \<le> sint (e_size e))"
  using assms
proof (induction es ds rule: list_all2_induct)
  case (Cons e es d ds)
  have sz: "e_size e = of_nat (length d)" "d \<noteq> []" using s_holds_size[OF Cons.hyps(1)] by auto
  have u: "uint (e_size e) = int (length d)" "unat (e_size e) = length d"
    using sz Cons.prems by (simp_all add: uint_of_nat_small unat_of_nat_small)
  moreover have "e_size e \<noteq> 0" using sz(2) u(2) by auto
  moreover have "sint (e_size e) = int (length d)" using u Cons.prems by (subst sint_small) auto
  ultimately show ?case using Cons.IH Cons.prems by (simp add: sizes_sum_def)
qed (simp add: sizes_sum_def)

text \<open>The reader's held node stands for a stretch of \<open>bs\<close>.\<close>

definition held_of :: "(bytes \<Rightarrow> hash) \<Rightarrow> bytes set \<Rightarrow> bytes \<Rightarrow> nat \<Rightarrow> held \<Rightarrow> bool" where
  "held_of H P bs k n \<longleftrightarrow> (\<exists>es ds pre post. bs = pre @ concat ds @ post \<and> es \<noteq> [] \<and> list_all2 (s_holds H P k) es ds \<and>
     n = \<lparr>h_start = int (length pre), h_ends = running (int (length pre)) es, h_es = es\<rparr>)"

lemma held_of_child:
  assumes "held_of H P bs k n" and "held_holds pos n" and "length bs < 2 ^ 63"
  shows "\<exists>e d pre post. held_child pos n = Inr (e_child e, e_size e, int (length pre)) \<and> s_holds H P k e d \<and>
    bs = pre @ d @ post \<and> int (length pre) \<le> pos \<and> pos < int (length pre) + int (length d)"
proof -
  obtain es ds pre post where n: "bs = pre @ concat ds @ post" "es \<noteq> []" "list_all2 (s_holds H P k) es ds"
    "n = \<lparr>h_start = int (length pre), h_ends = running (int (length pre)) es, h_es = es\<rparr>"
    using assms(1) by (auto simp: held_of_def)
  have len: "length (concat ds) < 2 ^ 63" using n(1) assms(3) by simp
  note z = s_holds_ints[OF n(3) len]
  let ?st = "int (length pre)"
  have "?st \<le> pos" "pos < ?st + ints es" using assms(2) n running_last[OF n(2)] by (auto simp: held_holds_def)
  then obtain i where i: "i < length es" "held_child pos n = Inr (e_child (es ! i), e_size (es ! i), ?st + ints (take i es))"
    "?st + ints (take i es) \<le> pos" "pos < ?st + ints (take i es) + sint (e_size (es ! i))"
    using held_child_ok[of es ?st pos] z n(4) by auto
  have l: "length ds = length es" using n(3) by (simp add: list_all2_lengthD)
  have cc: "concat ds = concat (take i ds) @ ds ! i @ concat (drop (Suc i) ds)"
    using i(1) l by (metis concat.simps(2) concat_append id_take_nth_drop)
  have tk: "list_all2 (s_holds H P k) (take i es) (take i ds)" using n(3) by simp
  have "length (concat (take i ds)) < 2 ^ 63" using cc len by simp
  then have ti: "ints (take i es) = int (length (concat (take i ds)))" using s_holds_ints[OF tk] by blast
  have h: "s_holds H P k (es ! i) (ds ! i)" using n(3) i(1) by (simp add: list_all2_conv_all_nth)
  have "uint (e_size (es ! i)) = int (length (ds ! i))"
    using s_holds_size[OF h] cc len by (simp add: uint_of_nat_small)
  then have "sint (e_size (es ! i)) = int (length (ds ! i))"
    using cc len by (subst sint_small) auto
  then show ?thesis
    using i h ti cc n(1)
    by (intro exI[of _ "es ! i"] exI[of _ "ds ! i"] exI[of _ "pre @ concat (take i ds)"] exI[of _ "concat (drop (Suc i) ds) @ post"]) simp
qed

lemma put_Uvarint_prefix: "put_Uvarint a @ x = put_Uvarint b @ y \<Longrightarrow> a = b"
  using rd_Uvarint_at(1)[of "[]" a x] rd_Uvarint_at(1)[of "[]" b y] by simp

lemma encodeIndex_length:
  assumes "encodeIndex lv es = encodeIndex lv es'" and "length (encodeIndex lv es) \<le> MaxChunkSize"
  shows "length es = length es'"
proof -
  have "length xs \<le> length (encodeIndex lv xs)" for xs
  proof -
    have "length xs \<le> length (concat (map put_sentry xs))"
    proof (induction xs)
      case (Cons a xs)
      then show ?case using length_put_sentry[of a] by simp
    qed simp
    then show ?thesis by (simp add: encodeIndex_def)
  qed
  from this[of es] this[of es'] have "length es < 2 ^ 64" "length es' < 2 ^ 64"
    using assms by (auto simp: MaxChunkSize_def)
  then have a: "unat (of_nat (length es) :: u64) = length es" and b: "unat (of_nat (length es') :: u64) = length es'"
    by (simp_all add: unat_of_nat_small)
  have "(of_nat (length es) :: u64) = of_nat (length es')"
    using assms(1) put_Uvarint_prefix by (auto simp: encodeIndex_def put_U8_def)
  then show ?thesis by (metis a b)
qed

text \<open>A reader of the stream \<open>bs\<close>: the nodes it holds, each one level below the one before, and
  the chunk it read last.\<close>

definition sd_of :: "(bytes \<Rightarrow> hash) \<Rightarrow> bytes set \<Rightarrow> bytes \<Rightarrow> sreader \<Rightarrow> bool" where
  "sd_of H P bs r \<longleftrightarrow> length (sd_path r) \<le> unat (sr_Depth (sd_ref r)) \<and>
     (\<forall>j < length (sd_path r). held_of H P bs (unat (sr_Depth (sd_ref r)) - Suc j) (sd_path r ! j)) \<and>
     (\<forall>c. sd_cur r = Some c \<longrightarrow> (\<exists>pre post. bs = pre @ c @ post \<and> sd_curStart r = int (length pre)))"

definition got_chunk :: "bytes \<Rightarrow> int \<Rightarrow> (bytes \<times> int) result \<Rightarrow> bool" where
  "got_chunk bs pos res \<longleftrightarrow> (\<exists>c pre post. res = Inr (c, int (length pre)) \<and> bs = pre @ c @ post \<and>
     int (length pre) \<le> pos \<and> pos < int (length pre) + int (length c))"

lemma rev_dropWhile_rev: "\<exists>m \<le> length xs. rev (dropWhile P (rev xs)) = take m xs"
proof -
  have "rev (dropWhile P (rev xs)) = take (length xs - length (takeWhile P (rev xs))) xs"
    by (metis append_eq_conv_conj diff_diff_cancel dropWhile_eq_drop length_append length_rev length_takeWhile_le
        rev_append rev_rev_ident takeWhile_dropWhile_id add_diff_cancel_left')
  then show ?thesis using diff_le_self by blast
qed

context chunk_rw
begin

lemma sd_node_of:
  assumes "ok s" and "inj_on H (puts s)" and "s_holds H (puts s) (Suc k) e d" and "bs = pre @ d @ post" and "length bs < 2 ^ 63"
    and "Suc k \<le> maxDepth" and "Suc k = unat (sr_Depth ref) \<Longrightarrow> top_two H (puts s) (Suc k) e"
  shows "\<exists>n. sd_node ops s ref (e_child e) (Suc k) (e_size e) (int (length pre)) = Inr n \<and> held_of H (puts s) bs k n \<and>
    h_start n = int (length pre) \<and> last (h_ends n) = int (length pre) + int (length d)"
proof -
  obtain es ds where es: "encodeIndex (Suc k) es \<in> puts s" "length (encodeIndex (Suc k) es) \<le> MaxChunkSize"
    "e = node_entry H (Suc k) es" "es \<noteq> []" "list_all2 (s_holds H (puts s) k) es ds" "d = concat ds"
    using assms(3) by (auto simp: s_holds.simps(2))
  have len: "length (concat ds) < 2 ^ 63" using assms(4,5) es(6) by simp
  note z = s_holds_ints[OF es(5) len]
  have get: "rw_Get ops s (e_child e) = Inr (encodeIndex (Suc k) es)"
    using get_eq[OF assms(1)] view_put[OF assms(1,2) es(1)] es(3) by (simp add: node_entry_def)
  have dec: "decodeIndex (encodeIndex (Suc k) es) = Inr (Suc k, es)"
    using z len es(2,4) assms(6) by (intro decodeIndex_encodeIndex) (auto simp: index_ok_def MaxChunkSize_def)
  have two: "2 \<le> length es" if top: "Suc k = unat (sr_Depth ref)"
  proof -
    obtain es' where es': "2 \<le> length es'" "encodeIndex (Suc k) es' \<in> puts s" "e = node_entry H (Suc k) es'"
      using assms(7)[OF top] by (auto simp: top_two_def)
    have "encodeIndex (Suc k) es = encodeIndex (Suc k) es'"
      using es' es(1,3) assms(2) by (auto simp: node_entry_def inj_on_def)
    then show ?thesis using encodeIndex_length[OF _ es(2)] es'(1) by simp
  qed
  let ?n = "\<lparr>h_start = int (length pre), h_ends = running (int (length pre)) es, h_es = es\<rparr>"
  have "sd_node ops s ref (e_child e) (Suc k) (e_size e) (int (length pre)) = Inr ?n"
    using get dec two es(3) by (auto simp: sd_node_def node_entry_def)
  moreover have "held_of H (puts s) bs k ?n" using assms(4) es(4-6) by (auto simp: held_of_def)
  moreover have "last (running (int (length pre)) es) = int (length pre) + int (length d)"
    using running_last[OF es(4)] z es(6) by simp
  ultimately show ?thesis by (intro exI[of _ ?n]) simp
qed

lemma sd_down_of:
  assumes "ok s" and "inj_on H (puts s)" and "length bs < 2 ^ 63"
    and "s_holds H (puts s) k e d" and "bs = pre @ d @ post"
    and "int (length pre) \<le> pos" and "pos < int (length pre) + int (length d)"
    and "k = unat (sr_Depth (sd_ref r)) - length (sd_path r)" and "unat (sr_Depth (sd_ref r)) \<le> maxDepth"
    and "k = unat (sr_Depth (sd_ref r)) \<Longrightarrow> top_two H (puts s) k e"
    and "sd_of H (puts s) bs r"
  shows "\<exists>res r'. sd_down k ops s pos (e_child e) (e_size e) (int (length pre)) r = (res, r') \<and>
    got_chunk bs pos res \<and> sd_of H (puts s) bs r' \<and> sd_ref r' = sd_ref r"
  using assms(4-)
proof (induction k arbitrary: e d pre post r)
  case 0
  then have d: "d \<in> puts s" "e = chunk_entry H d" by (auto simp: s_holds.simps(1))
  have "rw_Get ops s (e_child e) = Inr d"
    using get_eq[OF assms(1)] view_put[OF assms(1,2) d(1)] d(2) by (simp add: chunk_entry_def)
  then show ?case
    using 0 d(2) by (auto simp: chunk_entry_def got_chunk_def sd_of_def)
next
  case (Suc k)
  obtain n where n: "sd_node ops s (sd_ref r) (e_child e) (Suc k) (e_size e) (int (length pre)) = Inr n"
    "held_of H (puts s) bs k n" "h_start n = int (length pre)" "last (h_ends n) = int (length pre) + int (length d)"
    using sd_node_of[OF assms(1,2) Suc.prems(1,2) assms(3)] Suc.prems(5,6,7) by force
  then have "held_holds pos n" using Suc.prems(3,4) by (simp add: held_holds_def)
  then obtain e' d' pre' post' where c: "held_child pos n = Inr (e_child e', e_size e', int (length pre'))"
    "s_holds H (puts s) k e' d'" "bs = pre' @ d' @ post'" "int (length pre') \<le> pos" "pos < int (length pre') + int (length d')"
    using held_of_child[OF n(2) _ assms(3)] by blast
  let ?r = "r\<lparr>sd_path := sd_path r @ [n]\<rparr>"
  have "unat (sr_Depth (sd_ref r)) - Suc (length (sd_path r)) = k" using Suc.prems(5) by simp
  then have "sd_of H (puts s) bs ?r"
    using Suc.prems(5,8) n(2) by (auto simp: sd_of_def nth_append less_Suc_eq)
  moreover have "k = unat (sr_Depth (sd_ref ?r)) - length (sd_path ?r)" "k \<noteq> unat (sr_Depth (sd_ref ?r))"
    using Suc.prems(5) by auto
  ultimately show ?case
    using Suc.IH[OF c(2-5), of ?r] Suc.prems(6) n(1) c(1) by (auto simp: Let_def)
qed

lemma sd_chunkAt_of:
  assumes "ok s" and "inj_on H (puts s)" and "length bs < 2 ^ 63"
    and "s_holds H (puts s) (unat (sr_Depth (sd_ref r))) e bs" and "top_two H (puts s) (unat (sr_Depth (sd_ref r))) e"
    and "sr_Root (sd_ref r) = e_child e" and "sr_Size (sd_ref r) = e_size e" and "unat (sr_Depth (sd_ref r)) \<le> maxDepth"
    and "sd_of H (puts s) bs r" and "0 \<le> pos" and "pos < int (length bs)"
  shows "\<exists>res r'. sd_chunkAt ops s pos r = (res, r') \<and> got_chunk bs pos res \<and> sd_of H (puts s) bs r' \<and> sd_ref r' = sd_ref r"
proof (cases "\<exists>b. sd_cur r = Some b \<and> pos \<ge> sd_curStart r \<and> pos < sd_curStart r + int (length b)")
  case True
  then obtain b pre post where b: "sd_cur r = Some b" "pos \<ge> sd_curStart r" "pos < sd_curStart r + int (length b)"
    "bs = pre @ b @ post" "sd_curStart r = int (length pre)"
    using assms(9) by (auto simp: sd_of_def)
  then have "got_chunk bs pos (Inr (b, sd_curStart r))" by (auto simp: got_chunk_def)
  then show ?thesis using b assms(9) by (auto simp: sd_chunkAt_def)
next
  case False
  let ?D = "unat (sr_Depth (sd_ref r))"
  obtain m where m: "m \<le> length (sd_path r)" "rev (dropWhile (\<lambda>n. \<not> held_holds pos n) (rev (sd_path r))) = take m (sd_path r)"
    using rev_dropWhile_rev by blast
  define path where "path = take m (sd_path r)"
  have len: "length path = m" and nth: "\<And>j. j < m \<Longrightarrow> path ! j = sd_path r ! j" using m(1) by (simp_all add: path_def)
  let ?r = "r\<lparr>sd_path := path\<rparr>"
  have r: "sd_of H (puts s) bs ?r" using assms(9) m(1) len nth by (auto simp: sd_of_def)
  have d: "sd_chunkAt ops s pos r =
      (case (if path = [] then Inr (sr_Root (sd_ref r), sr_Size (sd_ref r), 0) else held_child pos (last (path))) of
         Inl e \<Rightarrow> (Inl e, ?r) | Inr (h, want, start) \<Rightarrow> sd_down (?D - length (path)) ops s pos h want start ?r)"
  proof -
    have "sd_chunkAt ops s pos r = sd_descend ops s pos r" using False by (auto simp: sd_chunkAt_def split: option.splits)
    then show ?thesis unfolding sd_descend_def Let_def m(2)[folded path_def] .
  qed
  show ?thesis
  proof (cases "path = []")
    case True
    have "sd_chunkAt ops s pos r = sd_down ?D ops s pos (e_child e) (e_size e) (int (length ([] :: bytes))) ?r"
      unfolding d True by (simp add: assms(6,7))
    moreover have "\<exists>res r'. sd_down ?D ops s pos (e_child e) (e_size e) (int (length ([] :: bytes))) ?r = (res, r') \<and>
        got_chunk bs pos res \<and> sd_of H (puts s) bs r' \<and> sd_ref r' = sd_ref ?r"
      by (rule sd_down_of[OF assms(1-4), where post = "[]"]) (use assms(5,8,10,11) r True len in simp_all)
    ultimately show ?thesis by simp
  next
    case ne: False
    then have m0: "0 < m" using len by auto
    have l: "last (path) = sd_path r ! (m - 1)" using m m0 ne len nth by (simp add: last_conv_nth)
    have "held_holds pos (last (path))"
      using hd_dropWhile[of "\<lambda>n. \<not> held_holds pos n" "rev (sd_path r)"] ne m(2)[folded path_def] by (metis last_rev rev_is_Nil_conv rev_rev_ident)
    moreover have "held_of H (puts s) bs (?D - m) (last (path))"
      using assms(9) m(1) m0 l by (cases m) (auto simp: sd_of_def)
    ultimately obtain e' d' pre' post' where c: "held_child pos (last (path)) = Inr (e_child e', e_size e', int (length pre'))"
      "s_holds H (puts s) (?D - m) e' d'" "bs = pre' @ d' @ post'" "int (length pre') \<le> pos" "pos < int (length pre') + int (length d')"
      using held_of_child[OF _ _ assms(3)] by blast
    have "m \<le> ?D" using assms(9) m(1) by (simp add: sd_of_def)
    have "sd_chunkAt ops s pos r = sd_down (?D - m) ops s pos (e_child e') (e_size e') (int (length pre')) ?r"
      unfolding d len using ne c(1) by simp
    moreover have "\<exists>res r'. sd_down (?D - m) ops s pos (e_child e') (e_size e') (int (length pre')) ?r = (res, r') \<and>
        got_chunk bs pos res \<and> sd_of H (puts s) bs r' \<and> sd_ref r' = sd_ref ?r"
      by (rule sd_down_of[OF assms(1-3) c(2-5)]) (use assms(8) r len \<open>m \<le> ?D\<close> m0 in simp_all)
    ultimately show ?thesis by simp
  qed
qed

text \<open>A reader of the stream that \<open>ref\<close> names.\<close>

definition sd_reads :: "'s \<Rightarrow> bytes \<Rightarrow> sreader \<Rightarrow> bool" where
  "sd_reads s bs r \<longleftrightarrow> (\<exists>e k. sd_ref r = \<lparr>sr_Root = e_child e, sr_Size = e_size e, sr_Depth = of_nat k\<rparr> \<and> k < maxDepth \<and>
     s_holds H (puts s) k e bs \<and> top_two H (puts s) k e) \<and> sd_of H (puts s) bs r"

lemma sd_reads_chunkAt:
  assumes "ok s" and "inj_on H (puts s)" and "length bs < 2 ^ 63" and "sd_reads s bs r" and "0 \<le> pos" and "pos < int (length bs)"
  shows "\<exists>res r'. sd_chunkAt ops s pos r = (res, r') \<and> got_chunk bs pos res \<and> sd_reads s bs r' \<and> sd_off r' = sd_off r"
proof -
  obtain e k where e: "sd_ref r = \<lparr>sr_Root = e_child e, sr_Size = e_size e, sr_Depth = of_nat k\<rparr>" "k < maxDepth"
    "s_holds H (puts s) k e bs" "top_two H (puts s) k e" "sd_of H (puts s) bs r"
    using assms(4) by (auto simp: sd_reads_def)
  have k: "unat (of_nat k :: byte) = k" using e(2) by (intro unat_of_nat_small) (simp add: maxDepth_def)
  obtain res r' where "sd_chunkAt ops s pos r = (res, r')" "got_chunk bs pos res" "sd_of H (puts s) bs r'" "sd_ref r' = sd_ref r"
    using sd_chunkAt_of[OF assms(1-3), of r e pos] e k assms(5,6) by auto
  then show ?thesis using e sd_chunkAt_ref[of ops s pos r res r'] by (auto simp: sd_reads_def)
qed

lemma sd_reads_Size: "sd_reads s bs r \<Longrightarrow> length bs < 2 ^ 63 \<Longrightarrow> sd_Size r = int (length bs)"
  using s_holds_size by (fastforce simp: sd_reads_def sd_Size_def sint_small uint_of_nat_small)

text \<open>A copy is the slice of the stream.\<close>

lemma sd_copy_of:
  assumes "ok s" and "inj_on H (puts s)" and "length bs < 2 ^ 63" and "sd_reads s bs r" and "0 \<le> pos"
  shows "\<exists>r'. sd_copy ops s k pos r =
      ((take k (drop (nat pos) bs), if 0 < k \<and> length bs < nat pos + k then Some REOF else None), r') \<and>
    sd_reads s bs r' \<and> sd_off r' = sd_off r"
  using assms(4,5)
proof (induction k arbitrary: pos r rule: less_induct)
  case (less k)
  have Z: "sd_Size r = int (length bs)" by (rule sd_reads_Size[OF less.prems(1) assms(3)])
  show ?case
  proof (cases "0 < k \<and> pos < int (length bs)")
    case False
    then show ?thesis
      using less.prems Z by (subst sd_copy.simps) (auto simp: nat_le_iff not_less)
  next
    case True
    obtain c pre post r1 where c: "sd_chunkAt ops s pos r = (Inr (c, int (length pre)), r1)" "bs = pre @ c @ post"
      "int (length pre) \<le> pos" "pos < int (length pre) + int (length c)" "sd_reads s bs r1" "sd_off r1 = sd_off r"
      using sd_reads_chunkAt[OF assms(1-3) less.prems] True by (auto simp: got_chunk_def)
    define i where "i = nat (pos - int (length pre))"
    have i: "pos = int (length pre + i)" "i < length c" using c(3,4) by (auto simp: i_def)
    define u where "u = take k (drop i c)"
    have u: "u \<noteq> []" "length u \<le> k" using True i by (auto simp: u_def)
    then have dec: "k - length u < k" by (cases u) auto
    obtain r2 where q: "sd_copy ops s (k - length u) (pos + int (length u)) r1 =
        ((take (k - length u) (drop (nat (pos + int (length u))) bs),
          if 0 < k - length u \<and> length bs < nat (pos + int (length u)) + (k - length u) then Some REOF else None), r2)"
      "sd_reads s bs r2" "sd_off r2 = sd_off r1"
      using less.IH[of "k - length u" r1 "pos + int (length u)"] dec c(5) less.prems(2) by auto
    have n: "nat (pos + int (length u)) = nat pos + length u" using less.prems(2) by simp
    have "drop (nat pos) bs = drop i c @ post" using c(2) i by (simp add: nat_add_distrib)
    then have "u = take (length u) (drop (nat pos) bs)" by (simp add: u_def min_def)
    then have split: "take k (drop (nat pos) bs) = u @ take (k - length u) (drop (nat pos + length u) bs)"
      using take_add[of "length u" "k - length u" "drop (nat pos) bs"] u(2)
      by (simp add: drop_drop add.commute[of "length u"])
    have "sd_copy ops s k pos r = ((u @ take (k - length u) (drop (nat (pos + int (length u))) bs),
          if 0 < k - length u \<and> length bs < nat (pos + int (length u)) + (k - length u) then Some REOF else None), r2)"
      using True Z c(1,3,4) q(1) by (subst sd_copy.simps) (auto simp: Let_def u_def i_def)
    moreover have "nat pos + length u \<le> length bs" using i c(2) by (auto simp: u_def)
    ultimately show ?thesis using split n u q(2,3) c(6) True by (auto simp: algebra_simps)
  qed
qed

lemma sd_Read_of:
  assumes "ok s" and "inj_on H (puts s)" and "length bs < 2 ^ 63" and "sd_reads s bs r" and "0 \<le> sd_off r" and "0 < k"
  shows "\<exists>r'. sd_Read ops s k r = ((take k (drop (nat (sd_off r)) bs), if length bs \<le> nat (sd_off r) then Some REOF else None), r') \<and>
    sd_reads s bs r' \<and> sd_off r' = sd_off r + int (length (take k (drop (nat (sd_off r)) bs)))"
proof -
  let ?p = "take k (drop (nat (sd_off r)) bs)"
  obtain r1 where r1: "sd_copy ops s k (sd_off r) r = ((?p, if 0 < k \<and> length bs < nat (sd_off r) + k then Some REOF else None), r1)"
    "sd_reads s bs r1" "sd_off r1 = sd_off r"
    using sd_copy_of[OF assms(1-5)] by blast
  let ?r = "r1\<lparr>sd_off := sd_off r1 + int (length ?p)\<rparr>"
  have "sd_Read ops s k r = ((?p, if length bs \<le> nat (sd_off r) then Some REOF else None), ?r)"
    using r1(1) assms(5,6) by (auto simp: sd_Read_def sd_ReadAt_def)
  moreover have "sd_reads s bs ?r" using r1(2) by (auto simp: sd_reads_def sd_of_def)
  ultimately show ?thesis using r1(3) by auto
qed

lemma buf_ReadFrom_of:
  assumes "ok s" and "inj_on H (puts s)" and "length bs < 2 ^ 63" and "sd_reads s bs r" and "sd_off r = int (length buf)"
    and "bs = buf @ rest"
  shows "buf_ReadFrom grow ops s buf r = Inr bs"
  using assms(4-6)
proof (induction "length rest" arbitrary: buf rest r rule: less_induct)
  case less
  let ?k = "512 + grow (length buf)"
  have off: "0 \<le> sd_off r" "nat (sd_off r) = length buf" using less.prems(2) by auto
  obtain r' where r': "sd_Read ops s ?k r = ((take ?k rest, if rest = [] then Some REOF else None), r')"
    "sd_reads s bs r'" "sd_off r' = int (length buf) + int (length (take ?k rest))"
    using sd_Read_of[OF assms(1-3) less.prems(1) off(1), of ?k] off less.prems(2,3) by auto
  show ?case
  proof (cases "rest = []")
    case True
    then show ?thesis using r'(1) less.prems(3) by (subst buf_ReadFrom.simps) simp
  next
    case False
    have "length (drop ?k rest) < length rest" using False by (cases rest) auto
    moreover have "sd_off r' = int (length (buf @ take ?k rest))" "bs = (buf @ take ?k rest) @ drop ?k rest"
      using r'(3) less.prems(3) by simp_all
    ultimately have "buf_ReadFrom grow ops s (buf @ take ?k rest) r' = Inr bs"
      using less.hyps r'(2) by blast
    then show ?thesis using r'(1) False by (subst buf_ReadFrom.simps) simp
  qed
qed

lemma sd_Open_of:
  assumes "ok s" and "inj_on H (puts s)" and "length bs < 2 ^ 63" and "s_stored H (puts s) ref bs" and "bs \<noteq> []"
  shows "\<exists>r. sd_Open ops s ref = Inr r \<and> sd_reads s bs r \<and> sd_off r = 0"
proof -
  obtain e k where e: "k < maxDepth" "ref = \<lparr>sr_Root = e_child e, sr_Size = e_size e, sr_Depth = of_nat k\<rparr>"
    "s_holds H (puts s) k e bs" "top_two H (puts s) k e"
    using assms(4,5) by (auto simp: s_stored_def)
  let ?r = "\<lparr>sd_ref = ref, sd_off = 0, sd_cur = None, sd_curStart = 0, sd_path = []\<rparr>"
  have k: "unat (of_nat k :: byte) = k" "unat (of_nat maxDepth :: byte) = maxDepth"
    using e(1) by (auto simp: maxDepth_def intro: unat_of_nat_small)
  have sz: "unat (e_size e) = length bs" using s_holds_size[OF e(3)] assms(3) by (simp add: unat_of_nat_small)
  have "sd_reads s bs ?r" using e by (auto simp: sd_reads_def sd_of_def)
  then obtain res r' where c: "sd_chunkAt ops s 0 ?r = (res, r')" "got_chunk bs 0 res" "sd_reads s bs r'" "sd_off r' = 0"
    using sd_reads_chunkAt[OF assms(1-3), of ?r 0] assms(5) by auto
  have "\<not> sr_Depth ref > of_nat maxDepth" using k e(1,2) by (simp add: word_less_nat_alt)
  moreover have "\<not> sr_Size ref > 2 ^ 63 - 1" using sz e(2) assms(3) by (simp add: word_less_nat_alt)
  moreover have "sr_Size ref \<noteq> 0" using sz e(2) assms(5) by auto
  ultimately show ?thesis using c by (auto simp: sd_Open_def got_chunk_def)
qed

lemma s_ReadAll_stored:
  assumes "ok s" and "inj_on H (puts s)" and "length bs < 2 ^ 63" and "s_stored H (puts s) ref bs" and "length bs \<le> unat limit"
  shows "s_ReadAll grow ops ref limit s = Inr bs"
proof (cases "bs = []")
  case True
  let ?r = "\<lparr>sd_ref = ref, sd_off = 0, sd_cur = None, sd_curStart = 0, sd_path = []\<rparr>"
  have ref: "[] \<in> puts s" "ref = \<lparr>sr_Root = H [], sr_Size = 0, sr_Depth = 0\<rparr>" using assms(4) True by (auto simp: s_stored_def)
  have "rw_Get ops s (H []) = Inr []" using get_eq[OF assms(1)] view_put[OF assms(1,2) ref(1)] by simp
  then have "sd_Open ops s ref = Inr ?r" by (simp add: sd_Open_def ref(2))
  moreover have "buf_ReadFrom grow ops s [] ?r = Inr []"
    by (subst buf_ReadFrom.simps) (simp add: sd_Read_def sd_ReadAt_def sd_copy.simps sd_Size_def ref(2))
  ultimately show ?thesis using True ref(2) by (simp add: s_ReadAll_def)
next
  case False
  obtain r where r: "sd_Open ops s ref = Inr r" "sd_reads s bs r" "sd_off r = 0"
    using sd_Open_of[OF assms(1-4) False] by blast
  have "unat (sr_Size ref) = length bs"
    using assms(3,4) False s_holds_size by (fastforce simp: s_stored_def unat_of_nat_small)
  then have "\<not> sr_Size ref > limit" using assms(5) by (simp add: word_less_nat_alt)
  then show ?thesis
    using r buf_ReadFrom_of[OF assms(1-3) r(2), of "[]" bs grow] by (simp add: s_ReadAll_def)
qed

text \<open>Any slice, from a reader that has read any others before.\<close>

lemma sd_ReadAt_stored:
  assumes "ok s" and "inj_on H (puts s)" and "length bs < 2 ^ 63" and "sd_reads s bs r" and "0 \<le> off"
  shows "\<exists>r'. sd_ReadAt ops s k off r =
      ((take k (drop (nat off) bs), if 0 < k \<and> length bs < nat off + k then Some REOF else None), r') \<and> sd_reads s bs r'"
  using sd_copy_of[OF assms, of k] assms(5) unfolding sd_ReadAt_def by (simp only: not_less[symmetric] if_False) blast

end

section \<open>Properties\<close>

text \<open>C6. Writing a stream of up to \<open>2^62\<close> bytes to an open memory store succeeds however its reader
  hands the bytes over; the reference is a function of the bytes and the geometry alone, and, unless
  two chunks put collide, reading it back gives the bytes, whatever the store held before and however
  the reading buffer grows.\<close>

theorem stream_write_read:
  assumes "boundary_New (sc_Nodes c) = Inr rule" and "cdc_Validate (sc_CDC c) = Inr ()"
    and "rdr_stream 0 r = (bs, EOF)" and "length bs \<le> 2 ^ 62" and "ms_ok H s"
  shows "\<exists>s'. s_Write H tb (memstore_ops H) r len c s = (Inr (s_ref H rule (cdc_chunks tb (sc_CDC c) bs)), s') \<and> ms_ok H s' \<and>
    (inj_on H (set (ms_puts s')) \<longrightarrow> length bs \<le> unat limit \<longrightarrow>
       s_ReadAll grow (memstore_ops H) (s_ref H rule (cdc_chunks tb (sc_CDC c) bs)) limit s' = Inr bs)"
proof -
  obtain s' where s': "s_Write H tb (memstore_ops H) r len c s = (Inr (s_ref H rule (cdc_chunks tb (sc_CDC c) bs)), s')"
    "ms.grows H s s'" "s_stored H (set (ms_puts s')) (s_ref H rule (cdc_chunks tb (sc_CDC c) bs)) bs"
    using ms.s_Write_stores[OF assms] by blast
  moreover have "ms_ok H s'" using s'(2) by (simp add: ms.grows_def)
  moreover have "length bs < 2 ^ 63" using assms(4) by simp
  ultimately show ?thesis using ms.s_ReadAll_stored by blast
qed

definition witness_config :: sconfig where
  "witness_config = \<lparr>sc_CDC = cdc_witness_geometry, sc_Nodes = DefaultGeometry\<rparr>"

theorem stream_write_read_witness:
  "\<exists>rule s'. boundary_New DefaultGeometry = Inr rule \<and>
     s_Write copy_hash (\<lambda>_. 0) (memstore_ops copy_hash) [([1, 2], None), ([3], Some EOF)] None witness_config ms_New
     = (Inr (s_ref copy_hash rule (cdc_chunks (\<lambda>_. 0) cdc_witness_geometry [1, 2, 3])), s')"
proof -
  obtain rule where rule: "boundary_New DefaultGeometry = Inr rule"
    by (simp add: boundary_New_def geometry_Validate_def DefaultGeometry_def Let_def)
  have v: "cdc_Validate cdc_witness_geometry = Inr ()"
    by (simp add: cdc_Validate_def cdc_witness_geometry_def Len64_def nat_len.simps)
  show ?thesis
    using stream_write_read[of witness_config rule "[([1, 2], None), ([3], Some EOF)]" "[1, 2, 3]" copy_hash ms_New
        "\<lambda>_. 0" None 3 id] rule v
    by (auto simp: witness_config_def ms_New_ok)
qed

text \<open>C8. On any store, corrupt or malicious, a reader that \<^verbatim>\<open>Open\<close> returned yields no more bytes than
  were asked for and than the reference's size leaves from the offset, never panics or loops, and
  fails only with corruption or with what the store's \<^verbatim>\<open>Get\<close> failed with.\<close>

theorem stream_read_bounded:
  assumes "sd_Open ops s ref = Inr r" and "small_gets ops s" and "0 \<le> off"
    and "sd_ReadAt ops s k off r = ((p, e), r')"
  shows "length p \<le> k \<and> int (length p) \<le> max 0 (uint (sr_Size ref) - off) \<and> (\<forall>x. e = Some (RErr x) \<longrightarrow> read_fault ops s x)"
proof -
  note rr = sd_Open_ok[OF assms(1,2)]
  then have sz: "uint (sr_Size ref) < 2 ^ 63" by (auto simp: sd_ok_def)
  show ?thesis using sd_copy_ok[of ops s k off r p e r'] assms(2-4) rr sz
    by (auto simp: sd_ReadAt_def sd_Size_def sint_small)
qed

definition witness_store :: memstore where
  "witness_store = snd (ms_Put copy_hash [7, 8] ms_New)"

definition witness_ref :: sref where
  "witness_ref = \<lparr>sr_Root = copy_hash [7, 8], sr_Size = 2, sr_Depth = 0\<rparr>"

theorem stream_read_bounded_witness:
  "\<exists>r r'. sd_Open (memstore_ops copy_hash) witness_store witness_ref = Inr r \<and>
     sd_ReadAt (memstore_ops copy_hash) witness_store 5 1 r = (([8], Some REOF), r') \<and>
     int (length [8 :: byte]) \<le> max 0 (uint (sr_Size witness_ref) - 1)"
proof -
  let ?ops = "memstore_ops copy_hash"
  let ?r = "\<lparr>sd_ref = witness_ref, sd_off = 0, sd_cur = Some [7, 8], sd_curStart = 0, sd_path = []\<rparr>"
  have get: "rw_Get ?ops witness_store h = (if h = copy_hash [7, 8] then Inr [7, 8] else Inl ErrChunkNotFound)" for h
    by (simp add: memstore_ops_def ms_Get_def witness_store_def ms_Put_def ms_New_def MaxChunkSize_def Let_def)
  have op: "sd_Open ?ops witness_store witness_ref = Inr ?r"
    by (simp add: sd_Open_def witness_ref_def maxDepth_def sd_chunkAt_def sd_descend_def get)
  have rd: "sd_ReadAt ?ops witness_store 5 1 ?r = (([8], Some REOF), ?r)"
    by (simp add: sd_ReadAt_def sd_copy.simps sd_Size_def witness_ref_def sd_chunkAt_def)
  have "small_gets ?ops witness_store" by (simp add: small_gets_def get)
  from stream_read_bounded[OF op this _ rd] op rd show ?thesis by (simp add: witness_ref_def)
qed

end
