(* ===== verification/ProllyNode.thy ===== *)
theory ProllyNode
  imports StreamRead
begin

text \<open>
  \<^verbatim>\<open>core/prolly/node.go\<close>: the nodes of the ordered map, their canonical encoding, and the decoder
  that accepts nothing else. \<open>decodeNode_encode\<close> and \<open>decodeNode_inv\<close> are the two directions.
\<close>

definition MaxKeySize :: nat where
  "MaxKeySize = 4 * 2 ^ 10"

definition kindNode :: byte where
  "kindNode = 0x01"

definition maxLevel :: nat where
  "maxLevel = 63"

record pvalue =
  v_inline :: bytes
  v_ref :: "sref option"

definition v_equal :: "pvalue \<Rightarrow> pvalue \<Rightarrow> bool" where
  "v_equal v w \<longleftrightarrow>
     (if (v_ref v = None) \<noteq> (v_ref w = None) then False
      else if v_ref v \<noteq> None then v_ref v = v_ref w
      else v_inline v = v_inline w)"

record pentry =
  p_key :: bytes
  p_val :: pvalue
  p_child :: hash
  p_count :: u64

record pnode =
  n_level :: nat
  n_entries :: "pentry list"

definition zero_value :: pvalue where
  "zero_value = \<lparr>v_inline = [], v_ref = None\<rparr>"

definition n_total :: "pnode \<Rightarrow> u64" where
  "n_total n = (if n_level n = 0 then of_nat (length (n_entries n)) else sum_list (map p_count (n_entries n)))"

definition n_lastKey :: "pnode \<Rightarrow> bytes" where
  "n_lastKey n = p_key (last (n_entries n))"

definition put_pvalue :: "pvalue \<Rightarrow> bytes" where
  "put_pvalue v =
     (case v_ref v of
        Some ref \<Rightarrow> put_U8 0x01 @ hbytes (sr_Root ref) @ put_Uvarint (sr_Size ref) @ put_U8 (sr_Depth ref)
      | None \<Rightarrow> put_U8 0x00 @ put_LenBytes (v_inline v))"

definition put_pentry :: "nat \<Rightarrow> pentry \<Rightarrow> bytes" where
  "put_pentry level e =
     put_LenBytes (p_key e) @
     (if level > 0 then hbytes (p_child e) @ put_Uvarint (p_count e) else put_pvalue (p_val e))"

definition n_encode :: "pnode \<Rightarrow> bytes" where
  "n_encode n =
     put_U8 kindNode @ put_U8 (of_nat (n_level n)) @ put_Uvarint (of_nat (length (n_entries n))) @
     concat (map (put_pentry (n_level n)) (n_entries n))"

definition p_entrySize :: "nat \<Rightarrow> pentry \<Rightarrow> int" where
  "p_entrySize level e =
     (let n = uvarintLen (of_nat (length (p_key e))) + int (length (p_key e)) in
      if level > 0 then n + 32 + uvarintLen (p_count e)
      else case v_ref (p_val e) of
        Some ref \<Rightarrow> n + 1 + 32 + uvarintLen (sr_Size ref) + 1
      | None \<Rightarrow> n + 1 + uvarintLen (of_nat (length (v_inline (p_val e)))) + int (length (v_inline (p_val e))))"

text \<open>One turn of the loop of \<^verbatim>\<open>decodeNode\<close>: \<open>prev\<close> is the key before, \<open>tot\<close> the counts' sum so far.\<close>

definition rd_pvalue :: "int \<Rightarrow> reader \<Rightarrow> (pvalue \<times> reader) result" where
  "rd_pvalue inlineLimit r =
     (let (tag, r) = rd_U8 r in
        if tag = 0x00 then
          let (b, r) = rd_LenBytes inlineLimit r in Inr (\<lparr>v_inline = b, v_ref = None\<rparr>, r)
        else if tag = 0x01 then
          let (root, r) = rd_Fixed 32 r; (sz, r) = rd_Uvarint r; (depth, r) = rd_U8 r in
            if rd_err r = None \<and> (sz \<le> word_of_int inlineLimit \<or> depth > of_nat maxLevel) then Inl ErrChunkCorrupt
            else Inr (\<lparr>v_inline = [], v_ref = Some \<lparr>sr_Root = copy_hash root, sr_Size = sz, sr_Depth = depth\<rparr>\<rparr>, r)
        else Inl ErrChunkCorrupt)"

definition rd_pentry :: "nat \<Rightarrow> int \<Rightarrow> bytes option \<times> u64 \<Rightarrow> reader \<Rightarrow> (pentry \<times> (bytes option \<times> u64) \<times> reader) result" where
  "rd_pentry level inlineLimit st r =
     (let (prev, tot) = st; (key, r) = rd_LenBytes (int MaxKeySize) r in
      rbind
        (if level > 0 then
           let (c, r) = rd_Fixed 32 r; (n, r) = rd_Uvarint r in
             if n = 0 \<or> 2 ^ 64 \<le> unat tot + unat n then Inl ErrChunkCorrupt
             else Inr (\<lparr>p_key = key, p_val = zero_value, p_child = copy_hash c, p_count = n\<rparr>, tot + n, r)
         else
           rbind (rd_pvalue inlineLimit r) (\<lambda>(v, r).
             Inr (\<lparr>p_key = key, p_val = v, p_child = zero_hash, p_count = 0\<rparr>, tot, r)))
        (\<lambda>(e, tot, r).
           if rd_err r \<noteq> None then Inl ErrChunkCorrupt
           else if prev \<noteq> None \<and> the prev \<ge> p_key e then Inl ErrChunkCorrupt
           else Inr (e, (Some (p_key e), tot), r)))"

definition decodeNode :: "bytes \<Rightarrow> int \<Rightarrow> pnode result" where
  "decodeNode b inlineLimit =
     (let r = NewReader b; (kind, r) = rd_U8 r; (lv, r) = rd_U8 r; level = unat lv; (count, r) = rd_Uvarint r in
        if rd_err r \<noteq> None \<or> kind \<noteq> kindNode \<or> level > maxLevel \<or> count > of_nat (length b) \<or> (level > 0 \<and> count = 0)
        then Inl ErrChunkCorrupt
        else rbind (rd_loop (rd_pentry level inlineLimit) (unat count) (None, 0) r) (\<lambda>(es, _, r).
          if rd_Done r \<noteq> None then Inl ErrChunkCorrupt else Inr \<lparr>n_level = level, n_entries = es\<rparr>))"

section \<open>The forms a node may have\<close>

definition pvalue_ok :: "int \<Rightarrow> pvalue \<Rightarrow> bool" where
  "pvalue_ok inl v \<longleftrightarrow>
     (case v_ref v of
        None \<Rightarrow> int (length (v_inline v)) \<le> inl
      | Some ref \<Rightarrow> v_inline v = [] \<and> uint (sr_Size ref) > inl \<and> unat (sr_Depth ref) \<le> maxLevel)"

definition pentry_ok :: "nat \<Rightarrow> int \<Rightarrow> pentry \<Rightarrow> bool" where
  "pentry_ok level inl e \<longleftrightarrow> length (p_key e) \<le> MaxKeySize \<and>
     (if level > 0 then p_val e = zero_value \<and> p_count e \<noteq> 0
      else pvalue_ok inl (p_val e) \<and> p_child e = zero_hash \<and> p_count e = 0)"

definition counts_sum :: "pentry list \<Rightarrow> nat" where
  "counts_sum es = sum_list (map (\<lambda>e. unat (p_count e)) es)"

definition pnode_ok :: "int \<Rightarrow> pnode \<Rightarrow> bool" where
  "pnode_ok inl n \<longleftrightarrow> n_level n \<le> maxLevel \<and> (n_level n > 0 \<longrightarrow> n_entries n \<noteq> []) \<and>
     list_all (pentry_ok (n_level n) inl) (n_entries n) \<and> strictly_sorted (map p_key (n_entries n)) \<and>
     counts_sum (n_entries n) < 2 ^ 64"

lemma v_equal_iff: "pvalue_ok inl v \<Longrightarrow> pvalue_ok inl' w \<Longrightarrow> v_equal v w \<longleftrightarrow> v = w"
  by (cases v; cases w) (auto simp: v_equal_def pvalue_ok_def split: option.splits)

lemma p_entrySize_length: "p_entrySize level e = int (length (put_pentry level e))"
  by (auto simp: p_entrySize_def put_pentry_def put_pvalue_def put_LenBytes_def put_U8_def uvarintLen_length Let_def split: option.splits)

text \<open>An entry is allowed after a key and a sum.\<close>

definition pentry_fits :: "nat \<Rightarrow> int \<Rightarrow> bytes option \<times> u64 \<Rightarrow> pentry \<Rightarrow> bool" where
  "pentry_fits level inl st e \<longleftrightarrow> pentry_ok level inl e \<and> (\<forall>k. fst st = Some k \<longrightarrow> k < p_key e) \<and>
     unat (snd st) + unat (p_count e) < 2 ^ 64"

definition pentry_next :: "bytes option \<times> u64 \<Rightarrow> pentry \<Rightarrow> bytes option \<times> u64" where
  "pentry_next st e = (Some (p_key e), snd st + p_count e)"

lemma rd_pvalue_at:
  assumes "pvalue_ok inl v" and "0 \<le> inl" and "inl < 2 ^ 63"
  shows "rd_pvalue inl (rd_at pre (put_pvalue v @ rest)) = Inr (v, rd_at (pre @ put_pvalue v) rest)"
proof (cases "v_ref v")
  case None
  then show ?thesis using assms by (cases v) (simp add: rd_pvalue_def put_pvalue_def wire_simps pvalue_ok_def)
next
  case (Some ref)
  have "uint (word_of_int inl :: u64) = inl" using assms(2,3) by (simp add: uint_word_of_int)
  then have "\<not> sr_Size ref \<le> word_of_int inl" "\<not> sr_Depth ref > of_nat maxLevel"
    using assms(1) Some by (auto simp: pvalue_ok_def word_le_def word_less_nat_alt maxLevel_def)
  then show ?thesis using assms(1) Some by (cases v) (simp add: rd_pvalue_def put_pvalue_def wire_simps pvalue_ok_def)
qed

lemma rd_pentry_at:
  assumes "pentry_fits level inl st e" and "0 \<le> inl" and "inl < 2 ^ 63"
  shows "rd_pentry level inl st (rd_at pre (put_pentry level e @ rest)) =
    Inr (e, pentry_next st e, rd_at (pre @ put_pentry level e) rest)"
proof -
  obtain prev tot where st: "st = (prev, tot)" by (cases st)
  have prev: "\<not> (prev \<noteq> None \<and> the prev \<ge> p_key e)" using assms(1) st by (auto simp: pentry_fits_def)
  have key: "int (length (p_key e)) \<le> int MaxKeySize" "int MaxKeySize < 2 ^ 63"
    using assms(1) by (auto simp: pentry_fits_def pentry_ok_def MaxKeySize_def)
  show ?thesis
  proof (cases "level > 0")
    case True
    then have "p_val e = zero_value" "p_count e \<noteq> 0" "\<not> 2 ^ 64 \<le> unat tot + unat (p_count e)"
      using assms(1) st by (auto simp: pentry_fits_def pentry_ok_def)
    then show ?thesis
      using True key prev st by (cases e) (simp add: rd_pentry_def put_pentry_def wire_simps pentry_next_def)
  next
    case False
    then have v: "pvalue_ok inl (p_val e)" and e: "p_child e = zero_hash" "p_count e = 0"
      using assms(1) by (auto simp: pentry_fits_def pentry_ok_def)
    show ?thesis
      using False key prev st e rd_pvalue_at[OF v assms(2,3)]
      by (cases e) (simp add: rd_pentry_def put_pentry_def wire_simps pentry_next_def)
  qed
qed

lemma rd_pvalue_took:
  assumes "rd_pvalue inl r = Inr (v, r')" and "rd_err r' = None" and "0 \<le> inl" and "inl < 2 ^ 63"
  shows "rd_took r (put_pvalue v) r' \<and> pvalue_ok inl v"
proof -
  obtain tag r1 where tag: "rd_U8 r = (tag, r1)" by fastforce
  show ?thesis
  proof (cases "tag = 0x00")
    case True
    then obtain b where b: "rd_LenBytes inl r1 = (b, r')" "v = \<lparr>v_inline = b, v_ref = None\<rparr>"
      using assms(1) tag by (auto simp: rd_pvalue_def split: prod.splits)
    note t2 = rd_LenBytes_took[OF b(1) assms(2-4)]
    note t1 = rd_U8_took[OF tag conjunct1[OF rd_tookD[OF conjunct1[OF t2]]]]
    show ?thesis
      using rd_took_trans[OF t1 conjunct1[OF t2]] t2 True b(2) by (simp add: put_pvalue_def pvalue_ok_def)
  next
    case False
    then obtain root r2 sz r3 depth where f: "rd_Fixed 32 r1 = (root, r2)" "rd_Uvarint r2 = (sz, r3)" "rd_U8 r3 = (depth, r')"
      and ok: "tag = 0x01" "\<not> sz \<le> word_of_int inl" "\<not> depth > of_nat maxLevel"
      and v: "v = \<lparr>v_inline = [], v_ref = Some \<lparr>sr_Root = copy_hash root, sr_Size = sz, sr_Depth = depth\<rparr>\<rparr>"
      using assms(1,2) tag by (auto simp: rd_pvalue_def split: prod.splits if_splits)
    note t4 = rd_U8_took[OF f(3) assms(2)]
    note t3 = rd_Uvarint_took[OF f(2) conjunct1[OF rd_tookD[OF t4]]]
    note t2 = rd_Fixed_took[OF f(1) conjunct1[OF rd_tookD[OF t3]]]
    note t1 = rd_U8_took[OF tag conjunct1[OF rd_tookD[OF conjunct1[OF t2]]]]
    have "uint (word_of_int inl :: u64) = inl" using assms(3,4) by (simp add: uint_word_of_int)
    then have "pvalue_ok inl v"
      using ok(2,3) v by (simp add: pvalue_ok_def word_le_def word_less_nat_alt maxLevel_def)
    then show ?thesis
      using rd_took_trans[OF t1 rd_took_trans[OF conjunct1[OF t2] rd_took_trans[OF t3 t4]]] t2 ok(1) v
      by (simp add: put_pvalue_def)
  qed
qed

lemma rd_pentry_took:
  assumes inl: "0 \<le> inl" "inl < 2 ^ 63" and rd: "rd_pentry level inl st r = Inr (e, st', r')"
  shows "rd_took r (put_pentry level e) r' \<and> pentry_fits level inl st e \<and> st' = pentry_next st e"
proof -
  obtain prev tot where st: "st = (prev, tot)" by (cases st)
  obtain key r1 where key: "rd_LenBytes (int MaxKeySize) r = (key, r1)" by fastforce
  have mx: "0 \<le> int MaxKeySize" "int MaxKeySize < 2 ^ 63" by (simp_all add: MaxKeySize_def)
  have err: "rd_err r' = None" and prev: "\<forall>k. prev = Some k \<longrightarrow> k < p_key e"
    using rd st key by (auto simp: rd_pentry_def result_simps not_le split: prod.splits if_splits)
  show ?thesis
  proof (cases "level > 0")
    case True
    then obtain c r2 n where f: "rd_Fixed 32 r1 = (c, r2)" "rd_Uvarint r2 = (n, r')"
      and ok: "n \<noteq> 0" "unat tot + unat n < 2 ^ 64" "st' = (Some key, tot + n)"
      and e: "e = \<lparr>p_key = key, p_val = zero_value, p_child = copy_hash c, p_count = n\<rparr>"
      using rd st key by (auto simp: rd_pentry_def result_simps not_le split: prod.splits if_splits)
    note t3 = rd_Uvarint_took[OF f(2) err]
    note t2 = rd_Fixed_took[OF f(1) conjunct1[OF rd_tookD[OF t3]]]
    note t1 = rd_LenBytes_took[OF key conjunct1[OF rd_tookD[OF conjunct1[OF t2]]] mx]
    show ?thesis
      using rd_took_trans[OF conjunct1[OF t1] rd_took_trans[OF conjunct1[OF t2] t3]] t1 t2 ok e prev st True
      by (simp add: put_pentry_def pentry_fits_def pentry_ok_def pentry_next_def)
  next
    case False
    then obtain v where v: "rd_pvalue inl r1 = Inr (v, r')" and st': "st' = (Some key, tot)"
      and e: "e = \<lparr>p_key = key, p_val = v, p_child = zero_hash, p_count = 0\<rparr>"
      using rd st key by (auto simp: rd_pentry_def result_simps split: prod.splits if_splits)
    note t2 = rd_pvalue_took[OF v err inl]
    note t1 = rd_LenBytes_took[OF key conjunct1[OF rd_tookD[OF conjunct1[OF t2]]] mx]
    show ?thesis
      using rd_took_trans[OF conjunct1[OF t1] conjunct1[OF t2]] t1 t2 st' e prev st False unat_lt2p[of tot]
      by (simp add: put_pentry_def pentry_fits_def pentry_ok_def pentry_next_def)
  qed
qed

lemma chain_pentries:
  "chain_ok (pentry_fits level inl) pentry_next st es \<longleftrightarrow>
     list_all (pentry_ok level inl) es \<and> strictly_sorted (map p_key es) \<and>
     (\<forall>k e. fst st = Some k \<longrightarrow> e \<in> set es \<longrightarrow> k < p_key e) \<and> unat (snd st) + counts_sum es < 2 ^ 64"
proof (induction es arbitrary: st)
  case Nil
  then show ?case using unat_lt2p[of "snd st"] by (simp add: counts_sum_def)
next
  case (Cons e es)
  show ?case
  proof (cases "unat (snd st) + unat (p_count e) < 2 ^ 64")
    case True
    then have "unat (snd st + p_count e) = unat (snd st) + unat (p_count e)" by (intro unat_add_small) simp
    then show ?thesis using Cons[of "pentry_next st e"] True
      by (auto simp: pentry_fits_def pentry_next_def counts_sum_def add.assoc) (meson less_trans)
  qed (auto simp: pentry_fits_def counts_sum_def)
qed

lemma length_put_pentry: "1 \<le> length (put_pentry level e)"
  by (simp add: put_pentry_def put_LenBytes_def Suc_leI)

lemma length_n_encode: "length (n_entries n) \<le> length (n_encode n)"
proof -
  have "length es \<le> length (concat (map (put_pentry lv) es))" for lv es
  proof (induction es)
    case (Cons e es)
    then show ?case using length_put_pentry[of lv e] by simp
  qed simp
  then show ?thesis by (simp add: n_encode_def trans_le_add2 le_SucI)
qed

lemma decodeNode_encode:
  assumes "pnode_ok inl n" and "0 \<le> inl" "inl < 2 ^ 63" and "length (n_encode n) < 2 ^ 64"
  shows "decodeNode (n_encode n) inl = Inr n"
proof -
  let ?es = "n_entries n" and ?b = "n_encode n"
  have lv: "unat (of_nat (n_level n) :: byte) = n_level n"
    using assms(1) by (intro unat_of_nat_small) (auto simp: pnode_ok_def maxLevel_def)
  have un: "unat (of_nat (length ?es) :: u64) = length ?es" "unat (of_nat (length ?b) :: u64) = length ?b"
    using length_n_encode[of n] assms(4) by (simp_all add: unat_of_nat_small)
  have "\<not> (of_nat (length ?es) :: u64) > of_nat (length ?b)"
    using un length_n_encode[of n] by (simp add: word_less_nat_alt)
  moreover have "\<not> (n_level n > 0 \<and> of_nat (length ?es) = (0 :: u64))"
    using un assms(1) by (auto simp: pnode_ok_def simp del: unat_eq_zero dest: arg_cong[of _ _ unat])
  moreover have "rd_Done (rd_at pre []) = None" for pre by (simp add: rd_Done_at)
  moreover have "\<not> n_level n > maxLevel" using assms(1) by (simp add: pnode_ok_def)
  moreover have "chain_ok (pentry_fits (n_level n) inl) pentry_next (None, 0) ?es"
    using assms(1) by (simp add: chain_pentries pnode_ok_def)
  note rd_loop_at[where step = "rd_pentry (n_level n) inl", OF rd_pentry_at[OF _ assms(2,3)] this, of _ "[]"]
  ultimately show ?thesis
    by (simp add: decodeNode_def NewReader_at n_encode_def wire_simps un lv Let_def del: not_gr_zero neq0_conv)
qed

lemma decodeNode_inv:
  assumes "decodeNode b inl = Inr n" and "0 \<le> inl" "inl < 2 ^ 63"
  shows "b = n_encode n" and "pnode_ok inl n"
proof -
  obtain kind r1 lv r2 c r3 st r4 where k: "rd_U8 (NewReader b) = (kind, r1)" and l: "rd_U8 r1 = (lv, r2)"
    and c: "rd_Uvarint r2 = (c, r3)"
    and ok: "rd_err r3 = None" "kind = kindNode" "unat lv \<le> maxLevel" "unat lv > 0 \<longrightarrow> c \<noteq> 0"
    and es: "rd_loop (rd_pentry (unat lv) inl) (unat c) (None, 0) r3 = Inr (n_entries n, st, r4)"
    and dn: "rd_Done r4 = None" "n_level n = unat lv"
    using assms(1) by (auto simp: decodeNode_def result_simps Let_def split: prod.splits if_splits)
  note t3 = rd_Uvarint_took[OF c ok(1)]
  note t2 = rd_U8_took[OF l conjunct1[OF rd_tookD[OF t3]]]
  note t1 = rd_U8_took[OF k conjunct1[OF rd_tookD[OF t2]]]
  note t4 = rd_loop_took[where enc = "put_pentry (unat lv)" and P = "pentry_fits (unat lv) inl" and nxt = pentry_next,
      OF rd_pentry_took[OF assms(2,3)] es rd_took_ok[OF t3]]
  have "of_nat (length (n_entries n)) = c" "of_nat (n_level n) = lv" using t4 dn(2) by auto
  then show "b = n_encode n"
    using rd_took_all[OF rd_took_trans[OF t1 rd_took_trans[OF t2 rd_took_trans[OF t3 conjunct1[OF t4]]]] dn(1)] ok(2) dn(2)
    by (simp add: n_encode_def)
  have "unat lv > 0 \<longrightarrow> n_entries n \<noteq> []" using t4 ok(4) by (auto simp: unat_eq_zero)
  then show "pnode_ok inl n" using t4 ok(3) dn(2) by (simp add: pnode_ok_def chain_pentries)
qed

section \<open>Properties\<close>

text \<open>C17. A node has one encoding, and whatever decodes is a well-formed node: bytes are read as a node exactly when they
  are its encoding and its level, its keys' order and bounds, its values' form under the inline limit and its counts'
  sum are as the format says. It holds of bytes a slice can have.\<close>

theorem node_canonical:
  assumes "0 \<le> inl" and "inl < 2 ^ 63" and "length b < 2 ^ 64"
  shows "decodeNode b inl = Inr n \<longleftrightarrow> b = n_encode n \<and> pnode_ok inl n"
  using decodeNode_inv[OF _ assms(1,2)] decodeNode_encode[OF _ assms(1,2)] assms(3) by blast

theorem node_canonical_witness:
  "decodeNode (n_encode \<lparr>n_level = 0, n_entries = []\<rparr>) 1024 = Inr \<lparr>n_level = 0, n_entries = []\<rparr>"
proof -
  have l: "length (n_encode \<lparr>n_level = 0, n_entries = []\<rparr>) < 2 ^ 64" by (simp add: n_encode_def put_U8_def put_Uvarint.simps)
  have "pnode_ok 1024 \<lparr>n_level = 0, n_entries = []\<rparr>" by (simp add: pnode_ok_def counts_sum_def)
  then show ?thesis using node_canonical[OF _ _ l, of 1024] by simp
qed

end
