(* ===== verification/Prolly.thy ===== *)
theory Prolly
  imports ProllyNode "HOL-Library.AList"
begin

text \<open>
  \<^verbatim>\<open>core/prolly\<close>: the ordered map. A \<^verbatim>\<open>Map\<close> is the record \<open>pmap\<close>; its store is the argument \<open>ops\<close>
  with the store's state, as everywhere above the chunk port. A \<^verbatim>\<open>cursor\<close> with its chain of parents
  is the list of their frames, the level's own first. Reading never writes, so the reading half
  takes the state and returns a result; the writing half is a computation over it.
\<close>

section \<open>Maps\<close>

definition maxInlineLimit :: int where
  "maxInlineLimit = 512 * 2 ^ 10"

definition DefaultMaxValue :: int where
  "DefaultMaxValue = 64 * 2 ^ 20"

record pconfig =
  pc_Nodes :: geometry
  pc_InlineLimit :: int
  pc_Stream :: sconfig
  pc_MaxValue :: int

definition pc_maxValue :: "pconfig \<Rightarrow> int" where
  "pc_maxValue c = (if pc_MaxValue c = 0 then DefaultMaxValue else pc_MaxValue c)"

definition pc_rule :: "pconfig \<Rightarrow> brule result" where
  "pc_rule c =
     (if pc_InlineLimit c < 0 \<or> pc_InlineLimit c > maxInlineLimit then Inl (ErrOther ''prolly: inline limit'')
      else if pc_MaxValue c < 0 then Inl (ErrOther ''prolly: value limit is negative'')
      else boundary_New (pc_Nodes c))"

record pmap =
  pm_cfg :: pconfig
  pm_rule :: brule
  pm_root :: hash
  pm_count :: u64
  pm_height :: nat
  pm_top :: "pnode option"
  pm_flushed :: bool
  pm_base :: hash
  pm_changed :: "bytes list"

definition empty_node :: pnode where
  "empty_node = \<lparr>n_level = 0, n_entries = []\<rparr>"

definition new_map :: "pconfig \<Rightarrow> brule \<Rightarrow> hash \<Rightarrow> pnode option \<Rightarrow> pmap" where
  "new_map c rule root tp = \<lparr>pm_cfg = c, pm_rule = rule, pm_root = root, pm_count = 0, pm_height = 0, pm_top = tp,
     pm_flushed = False, pm_base = zero_hash, pm_changed = []\<rparr>"

definition m_Empty :: "('s, 'z) rw_scheme \<Rightarrow> pconfig \<Rightarrow> ('s, pmap) comp" where
  "m_Empty ops c =
     sbind (slift (pc_rule c)) (\<lambda>rule.
     sbind (rw_Put ops (n_encode empty_node)) (\<lambda>h.
       sret (new_map c rule h (Some empty_node))))"

definition m_read :: "('s, 'z) rw_scheme \<Rightarrow> 's \<Rightarrow> pmap \<Rightarrow> hash \<Rightarrow> pnode result" where
  "m_read ops s m h =
     (if h = pm_root m \<and> pm_top m \<noteq> None then Inr (the (pm_top m))
      else rbind (rw_Get ops s h) (\<lambda>b. decodeNode b (pc_InlineLimit (pm_cfg m))))"

definition m_Open :: "('s, 'z) rw_scheme \<Rightarrow> 's \<Rightarrow> pconfig \<Rightarrow> hash \<Rightarrow> pmap result" where
  "m_Open ops s c root =
     rbind (pc_rule c) (\<lambda>rule.
       let m = new_map c rule root None in
       rbind (m_read ops s m root) (\<lambda>n.
         if n_level n > 0 \<and> length (n_entries n) < 2 then Inl ErrChunkCorrupt
         else Inr (m\<lparr>pm_count := n_total n, pm_height := n_level n, pm_top := Some n\<rparr>)))"

definition checkChild :: "pnode \<Rightarrow> nat \<Rightarrow> pnode \<Rightarrow> unit result" where
  "checkChild p i c =
     (let e = n_entries p ! i in
      if int (n_level c) \<noteq> int (n_level p) - 1 then Inl ErrChunkCorrupt
      else if length (n_entries c) = 0 then Inl ErrChunkCorrupt
      else if n_lastKey c \<noteq> p_key e then Inl ErrChunkCorrupt
      else if n_total c \<noteq> p_count e then Inl ErrChunkCorrupt
      else if i > 0 \<and> p_key (n_entries c ! 0) \<le> p_key (n_entries p ! (i - 1)) then Inl ErrChunkCorrupt
      else Inr ())"

definition m_child :: "('s, 'z) rw_scheme \<Rightarrow> 's \<Rightarrow> pmap \<Rightarrow> pnode \<Rightarrow> nat \<Rightarrow> pnode result" where
  "m_child ops s m p i =
     rbind (m_read ops s m (p_child (n_entries p ! i))) (\<lambda>c.
     rbind (checkChild p i c) (\<lambda>_. Inr c))"

definition readValue :: "(nat \<Rightarrow> nat) \<Rightarrow> ('s, 'z) rw_scheme \<Rightarrow> 's \<Rightarrow> sref \<Rightarrow> int \<Rightarrow> bytes result" where
  "readValue grow ops s ref limit =
     (case s_ReadAll grow ops ref (word_of_int limit) s of
        Inl e \<Rightarrow> Inl (if e = ErrStreamTooLarge then ErrValueTooLarge else e)
      | Inr b \<Rightarrow> Inr b)"

definition materialize :: "(nat \<Rightarrow> nat) \<Rightarrow> ('s, 'z) rw_scheme \<Rightarrow> 's \<Rightarrow> pmap \<Rightarrow> pvalue \<Rightarrow> bytes result" where
  "materialize grow ops s m v =
     (case v_ref v of
        None \<Rightarrow> Inr (v_inline v)
      | Some ref \<Rightarrow> readValue grow ops s ref (pc_maxValue (pm_cfg m)))"

definition pn_search :: "pnode \<Rightarrow> bytes \<Rightarrow> nat" where
  "pn_search n key = sort_Search (length (n_entries n)) (\<lambda>i. p_key (n_entries n ! i) \<ge> key)"

lemma m_child_level: "m_child ops s m p i = Inr c \<Longrightarrow> Suc (n_level c) = n_level p"
  by (auto simp: m_child_def result_simps checkChild_def Let_def split: if_splits)

text \<open>The loop of \<^verbatim>\<open>Get\<close>, from node \<open>n\<close> down; every child is a level lower, since \<^verbatim>\<open>checkChild\<close> says so.\<close>

function m_get_from :: "(nat \<Rightarrow> nat) \<Rightarrow> ('s, 'z) rw_scheme \<Rightarrow> 's \<Rightarrow> pmap \<Rightarrow> bytes \<Rightarrow> pnode \<Rightarrow> bytes option result" where
  "m_get_from grow ops s m key n =
     (let i = pn_search n key in
      if n_level n > 0 then
        if i = length (n_entries n) then Inr None
        else rbind (m_child ops s m n i) (\<lambda>c. m_get_from grow ops s m key c)
      else if i = length (n_entries n) \<or> p_key (n_entries n ! i) \<noteq> key then Inr None
      else rbind (materialize grow ops s m (p_val (n_entries n ! i))) (\<lambda>v. Inr (Some v)))"
  by pat_completeness auto
termination m_get_from
  by (relation "measure (\<lambda>(grow, ops, s, m, key, n). n_level n)") (auto dest!: m_child_level)

declare m_get_from.simps [simp del]

definition m_Get :: "(nat \<Rightarrow> nat) \<Rightarrow> ('s, 'z) rw_scheme \<Rightarrow> 's \<Rightarrow> pmap \<Rightarrow> bytes \<Rightarrow> bytes option result" where
  "m_Get grow ops s m key = rbind (m_read ops s m (pm_root m)) (\<lambda>n. m_get_from grow ops s m key n)"

section \<open>Cursors\<close>

record frame =
  cf_n :: pnode
  cf_i :: nat
  cf_end :: bool

type_synonym cursor = "frame list"

definition new_frame :: "pnode \<Rightarrow> frame" where
  "new_frame n = \<lparr>cf_n = n, cf_i = 0, cf_end = False\<rparr>"

function m_seek_from :: "('s, 'z) rw_scheme \<Rightarrow> 's \<Rightarrow> pmap \<Rightarrow> nat \<Rightarrow> bytes \<Rightarrow> pnode \<Rightarrow> cursor \<Rightarrow> cursor result" where
  "m_seek_from ops s m level key n ps =
     (if n_level n > level then
        let i = min (pn_search n key) (length (n_entries n) - 1) in
        rbind (m_child ops s m n i) (\<lambda>c. m_seek_from ops s m level key c ((new_frame n)\<lparr>cf_i := i\<rparr> # ps))
      else Inr (new_frame n # ps))"
  by pat_completeness auto
termination m_seek_from
  by (relation "measure (\<lambda>(ops, s, m, level, key, n, ps). n_level n)") (auto dest!: m_child_level)

declare m_seek_from.simps [simp del]

definition m_seek :: "('s, 'z) rw_scheme \<Rightarrow> 's \<Rightarrow> pmap \<Rightarrow> nat \<Rightarrow> bytes \<Rightarrow> cursor result" where
  "m_seek ops s m level key = rbind (m_read ops s m (pm_root m)) (\<lambda>n. m_seek_from ops s m level key n [])"

definition c_valid :: "cursor \<Rightarrow> bool" where
  "c_valid c \<longleftrightarrow> c \<noteq> [] \<and> \<not> cf_end (hd c) \<and> cf_i (hd c) < length (n_entries (cf_n (hd c)))"

definition c_current :: "cursor \<Rightarrow> pentry" where
  "c_current c = n_entries (cf_n (hd c)) ! cf_i (hd c)"

definition c_atNodeEnd :: "cursor \<Rightarrow> bool" where
  "c_atNodeEnd c \<longleftrightarrow> Suc (cf_i (hd c)) = length (n_entries (cf_n (hd c)))"

definition c_fetch :: "('s, 'z) rw_scheme \<Rightarrow> 's \<Rightarrow> pmap \<Rightarrow> frame \<Rightarrow> cursor \<Rightarrow> unit result \<times> cursor" where
  "c_fetch ops s m f ps =
     (case m_child ops s m (cf_n (hd ps)) (cf_i (hd ps)) of
        Inl e \<Rightarrow> (Inl e, f # ps)
      | Inr n \<Rightarrow> (Inr (), f\<lparr>cf_n := n, cf_i := 0\<rparr> # ps))"

text \<open>\<^verbatim>\<open>nextNode\<close> of the frame \<open>f\<close> over its parents \<open>ps\<close>, given what \<^verbatim>\<open>advance\<close> does to the parents.\<close>

definition c_next :: "('s, 'z) rw_scheme \<Rightarrow> 's \<Rightarrow> pmap \<Rightarrow> frame \<Rightarrow> cursor \<Rightarrow> unit result \<times> cursor \<Rightarrow> unit result \<times> cursor" where
  "c_next ops s m f ps adv =
     (if ps = [] then (Inr (), [f\<lparr>cf_end := True\<rparr>])
      else case adv of
             (Inl e, ps) \<Rightarrow> (Inl e, f # ps)
           | (Inr _, ps) \<Rightarrow>
               if \<not> c_valid ps then (Inr (), f\<lparr>cf_end := True\<rparr> # ps)
               else c_fetch ops s m f ps)"

fun c_advance :: "('s, 'z) rw_scheme \<Rightarrow> 's \<Rightarrow> pmap \<Rightarrow> cursor \<Rightarrow> unit result \<times> cursor" where
  "c_advance ops s m [] = (Inr (), [])"
| "c_advance ops s m (f # ps) =
     (if cf_end f then (Inr (), f # ps)
      else let f = f\<lparr>cf_i := cf_i f + 1\<rparr> in
        if cf_i f < length (n_entries (cf_n f)) then (Inr (), f # ps)
        else c_next ops s m f ps (c_advance ops s m ps))"

definition c_nextNode :: "('s, 'z) rw_scheme \<Rightarrow> 's \<Rightarrow> pmap \<Rightarrow> cursor \<Rightarrow> unit result \<times> cursor" where
  "c_nextNode ops s m c = c_next ops s m (hd c) (tl c) (c_advance ops s m (tl c))"

definition c_lastNode :: "cursor \<Rightarrow> bool" where
  "c_lastNode c \<longleftrightarrow> list_all (\<lambda>p. \<not> Suc (cf_i p) < length (n_entries (cf_n p))) (tl c)"

section \<open>Iterating\<close>

record piter =
  it_m :: pmap
  it_c :: cursor
  it_hi :: "bytes option"

definition m_IterRange :: "('s, 'z) rw_scheme \<Rightarrow> 's \<Rightarrow> pmap \<Rightarrow> bytes \<Rightarrow> bytes option \<Rightarrow> piter result" where
  "m_IterRange ops s m lo hi =
     rbind (m_seek ops s m 0 lo) (\<lambda>c.
       let f = hd c; n = length (n_entries (cf_n f)); i = pn_search (cf_n f) lo in
       if i = n \<and> n > 0 then
         (case c_advance ops s m (f\<lparr>cf_i := i - 1\<rparr> # tl c) of
            (Inl e, c) \<Rightarrow> Inl e
          | (Inr _, c) \<Rightarrow> Inr \<lparr>it_m = m, it_c = c, it_hi = hi\<rparr>)
       else Inr \<lparr>it_m = m, it_c = f\<lparr>cf_i := i\<rparr> # tl c, it_hi = hi\<rparr>)"

definition it_Next :: "(nat \<Rightarrow> nat) \<Rightarrow> ('s, 'z) rw_scheme \<Rightarrow> 's \<Rightarrow> piter \<Rightarrow> (bytes \<times> bytes) option result \<times> piter" where
  "it_Next grow ops s it =
     (if \<not> c_valid (it_c it) then (Inr None, it)
      else let e = c_current (it_c it) in
        if it_hi it \<noteq> None \<and> p_key e \<ge> the (it_hi it) then (Inr None, it)
        else case materialize grow ops s (it_m it) (p_val e) of
          Inl x \<Rightarrow> (Inl x, it)
        | Inr v \<Rightarrow>
            (case c_advance ops s (it_m it) (it_c it) of
               (Inl x, c) \<Rightarrow> (Inl x, it\<lparr>it_c := c\<rparr>)
             | (Inr _, c) \<Rightarrow> (Inr (Some (p_key e, v)), it\<lparr>it_c := c\<rparr>)))"

end
