(* ===== verification/ProllyFlush.thy ===== *)
theory ProllyFlush
  imports Prolly
begin

text \<open>
  \<^verbatim>\<open>core/prolly/flush.go\<close> and the editor of \<^verbatim>\<open>prolly.go\<close>: edits applied to the tree level by level.
  The chunker of a level is the record \<open>pchunker\<close>, passed and returned; the \<^verbatim>\<open>changed\<close> list its
  pointer collects into is carried in it.
\<close>

definition bytes_Compare :: "bytes \<Rightarrow> bytes \<Rightarrow> int" where
  "bytes_Compare a b = (if a < b then - 1 else if a = b then 0 else 1)"

definition zero_entry :: pentry where
  "zero_entry = \<lparr>p_key = [], p_val = zero_value, p_child = zero_hash, p_count = 0\<rparr>"

record edit =
  ed_key :: bytes
  ed_del :: bool
  ed_e :: pentry

record pchunker =
  pk_level :: nat
  pk_split :: splitter
  pk_pending :: "pentry list"
  pk_out :: "pentry list"
  pk_nodes :: "pnode list"
  pk_hold :: bool
  pk_existing :: "hash list"
  pk_changed :: "bytes list option"

definition newChunker :: "pmap \<Rightarrow> nat \<Rightarrow> bool \<Rightarrow> pchunker" where
  "newChunker m level hold = \<lparr>pk_level = level, pk_split = Splitter (pm_rule m) level, pk_pending = [], pk_out = [],
     pk_nodes = [], pk_hold = hold, pk_existing = [], pk_changed = None\<rparr>"

definition pk_log :: "bytes list \<Rightarrow> pchunker \<Rightarrow> pchunker" where
  "pk_log changed c = (if pk_level c = 0 then c\<lparr>pk_changed := Some changed\<rparr> else c)"

definition pk_change :: "bytes \<Rightarrow> pchunker \<Rightarrow> pchunker" where
  "pk_change key c = c\<lparr>pk_changed := map_option (\<lambda>ks. ks @ [key]) (pk_changed c)\<rparr>"

text \<open>The entry a level up that names a node.\<close>

definition up_entry :: "(bytes \<Rightarrow> hash) \<Rightarrow> pnode \<Rightarrow> pentry" where
  "up_entry H n = \<lparr>p_key = n_lastKey n, p_val = zero_value, p_child = H (n_encode n), p_count = n_total n\<rparr>"

definition m_store :: "(bytes \<Rightarrow> hash) \<Rightarrow> ('s, 'z) rw_scheme \<Rightarrow> pnode \<Rightarrow> hash list \<Rightarrow> ('s, pentry) comp" where
  "m_store H ops n existing =
     (let b = n_encode n; put = (case rw_PutRaw ops of Some praw \<Rightarrow> praw | None \<Rightarrow> rw_Put ops) in
      if H b \<notin> set existing then sbind (put b) (\<lambda>_. sret (up_entry H n))
      else sret (up_entry H n))"

definition pk_end :: "(bytes \<Rightarrow> hash) \<Rightarrow> ('s, 'z) rw_scheme \<Rightarrow> pchunker \<Rightarrow> ('s, pchunker) comp" where
  "pk_end H ops c =
     (if pk_pending c = [] then sret c
      else let n = \<lparr>n_level = pk_level c, n_entries = pk_pending c\<rparr>; c = c\<lparr>pk_pending := []\<rparr> in
        if pk_hold c then sret (c\<lparr>pk_nodes := pk_nodes c @ [n]\<rparr>)
        else sbind (m_store H ops n (pk_existing c)) (\<lambda>e. sret (c\<lparr>pk_out := pk_out c @ [e]\<rparr>)))"

definition pk_add :: "(bytes \<Rightarrow> hash) \<Rightarrow> ('s, 'z) rw_scheme \<Rightarrow> pentry \<Rightarrow> pchunker \<Rightarrow> ('s, pchunker) comp" where
  "pk_add H ops e c =
     (let (ends, sp) = sp_Append H (pk_split c) (H (p_key e)) (p_entrySize (pk_level c) e);
          c = c\<lparr>pk_pending := pk_pending c @ [e], pk_split := sp\<rparr>
      in if \<not> ends then sret c else pk_end H ops c)"

text \<open>The edits a merge may use: those up to the limit.\<close>

definition within :: "bytes option \<Rightarrow> edit list \<Rightarrow> bool" where
  "within limit edits \<longleftrightarrow> edits \<noteq> [] \<and> (limit = None \<or> ed_key (hd edits) \<le> the limit)"

definition merge_cmp :: "bytes option \<Rightarrow> pentry list \<Rightarrow> edit list \<Rightarrow> int" where
  "merge_cmp limit old edits =
     (if \<not> within limit edits then 1
      else if old = [] then - 1
      else bytes_Compare (ed_key (hd edits)) (p_key (hd old)))"

function pk_merge :: "(bytes \<Rightarrow> hash) \<Rightarrow> ('s, 'z) rw_scheme \<Rightarrow> bytes option \<Rightarrow> pentry list \<Rightarrow> edit list \<Rightarrow> pchunker \<Rightarrow>
    ('s, edit list \<times> pchunker) comp" where
  "pk_merge H ops limit old edits c s =
     (if old \<noteq> [] \<or> within limit edits then
        let cmp = merge_cmp limit old edits; d = hd edits in
        if cmp < 0 then
          sbind (if \<not> ed_del d then pk_add H ops (ed_e d) (pk_change (ed_key d) c) else sret c)
            (\<lambda>c s. pk_merge H ops limit old (tl edits) c s) s
        else if cmp = 0 then
          let c = (if ed_del d \<or> \<not> v_equal (p_val (ed_e d)) (p_val (hd old)) then pk_change (ed_key d) c else c) in
          sbind (if \<not> ed_del d then pk_add H ops (ed_e d) c else sret c)
            (\<lambda>c s. pk_merge H ops limit (tl old) (tl edits) c s) s
        else
          sbind (pk_add H ops (hd old) c) (\<lambda>c s. pk_merge H ops limit (tl old) edits c s) s
      else (Inr (edits, c), s))"
  by pat_completeness auto
termination pk_merge
  by (relation "measure (\<lambda>(H, ops, limit, old, edits, c, s). length old + length edits)")
    (auto simp: merge_cmp_def within_def bytes_Compare_def length_greater_0_conv[symmetric]
      simp del: length_greater_0_conv split: if_splits)

declare pk_merge.simps [simp del]

fun pm_replace :: "pentry list \<Rightarrow> pentry list \<Rightarrow> edit list" where
  "pm_replace [] [] = []"
| "pm_replace (r # rs) [] = \<lparr>ed_key = p_key r, ed_del = True, ed_e = zero_entry\<rparr> # pm_replace rs []"
| "pm_replace [] (a # as) = \<lparr>ed_key = p_key a, ed_del = False, ed_e = a\<rparr> # pm_replace [] as"
| "pm_replace (r # rs) (a # as) =
     (if p_key r < p_key a then \<lparr>ed_key = p_key r, ed_del = True, ed_e = zero_entry\<rparr> # pm_replace rs (a # as)
      else if p_key r > p_key a then \<lparr>ed_key = p_key a, ed_del = False, ed_e = a\<rparr> # pm_replace (r # rs) as
      else if p_child r \<noteq> p_child a \<or> p_count r \<noteq> p_count a
        then \<lparr>ed_key = p_key a, ed_del = False, ed_e = a\<rparr> # pm_replace rs as
      else pm_replace rs as)"

section \<open>One level\<close>

text \<open>What is left to a cursor, from the root down; it shrinks whenever the cursor moves to a valid place.\<close>

definition c_rest :: "cursor \<Rightarrow> nat list" where
  "c_rest c = map (\<lambda>f. length (n_entries (cf_n f)) - cf_i f) (rev c)"

lemma c_rest_Cons: "c_rest (f # ps) = c_rest ps @ [length (n_entries (cf_n f)) - cf_i f]"
  by (simp add: c_rest_def)

lemma length_c_rest [simp]: "length (c_rest c) = length c"
  by (simp add: c_rest_def)

lemma c_next_valid:
  assumes "c_next ops s m f ps adv = (Inr u, c')" and "c_valid c'"
  obtains f' ps' where "ps \<noteq> []" and "adv = (Inr (), ps')" and "c_valid ps'" and "c' = f' # ps'"
  using assms by (auto simp: c_next_def c_fetch_def c_valid_def split: if_splits prod.splits sum.splits)

lemma c_advance_shrinks:
  "c_advance ops s m c = (Inr u, c') \<Longrightarrow> c_valid c' \<Longrightarrow> c \<noteq> [] \<Longrightarrow> length c' = length c \<and> (c_rest c', c_rest c) \<in> lex less_than"
proof (induction c arbitrary: u c')
  case (Cons f ps)
  let ?f = "f\<lparr>cf_i := cf_i f + 1\<rparr>"
  show ?case
  proof (cases "cf_end f \<or> cf_i ?f < length (n_entries (cf_n f))")
    case True
    then have "\<not> cf_end f" "c' = ?f # ps" "cf_i ?f < length (n_entries (cf_n f))"
      using Cons.prems(1,2) by (auto simp: c_valid_def split: if_splits)
    then show ?thesis by (auto simp: c_rest_Cons intro: lex_append_leftI)
  next
    case False
    then have "c_next ops s m ?f ps (c_advance ops s m ps) = (Inr u, c')" using Cons.prems(1) by (auto simp: Let_def)
    then obtain f' ps' where p: "ps \<noteq> []" "c_advance ops s m ps = (Inr (), ps')" "c_valid ps'" "c' = f' # ps'"
      using Cons.prems(2) by (elim c_next_valid)
    from Cons.IH[OF p(2,3,1)] p(4) show ?thesis by (auto simp: c_rest_Cons intro: lex_append_rightI)
  qed
qed simp

lemma c_nextNode_shrinks:
  assumes "c_nextNode ops s m c = (Inr u, c')" and "c_valid c'"
  shows "(c_rest (tl c'), c_rest (tl c)) \<in> lex less_than"
proof -
  obtain f' ps' where p: "tl c \<noteq> []" "c_advance ops s m (tl c) = (Inr (), ps')" "c_valid ps'" "c' = f' # ps'"
    using assms unfolding c_nextNode_def by (elim c_next_valid)
  from c_advance_shrinks[OF p(2,3,1)] p(4) show ?thesis by simp
qed

definition nodeHash :: "cursor \<Rightarrow> hash" where
  "nodeHash c = p_child (c_current (tl c))"

text \<open>
  One stretch of \<^verbatim>\<open>applyLevel\<close>: from the cursor's node on, until a new node ends where an old one
  did or the level is over. A cursor past its level would make Go loop for ever:
  \<open>m_apply_wrote\<close> shows it does not come to that.
\<close>

function al_stretch :: "(bytes \<Rightarrow> hash) \<Rightarrow> ('s, 'z) rw_scheme \<Rightarrow> pmap \<Rightarrow> cursor \<Rightarrow> pentry list \<Rightarrow> edit list \<Rightarrow> pchunker \<Rightarrow>
    ('s, pentry list \<times> edit list \<times> pchunker) comp" where
  "al_stretch H ops m c removed edits ch s =
     (let n = cf_n (hd c);
          removed = removed @ [\<lparr>p_key = n_lastKey n, p_val = zero_value, p_child = nodeHash c, p_count = n_total n\<rparr>];
          ch = ch\<lparr>pk_existing := nodeHash c # pk_existing ch\<rparr>;
          limit = (if \<not> c_lastNode c then Some (n_lastKey n) else None)
      in sbind (pk_merge H ops limit (n_entries n) edits ch) (\<lambda>(edits, ch) s.
           if pk_pending ch = [] then (Inr (removed, edits, ch), s)
           else if limit = None then sbind (pk_end H ops ch) (\<lambda>ch. sret (removed, edits, ch)) s
           else case c_nextNode ops s m c of
                  (Inl e, c) \<Rightarrow> (Inl e, s)
                | (Inr _, c') \<Rightarrow>
                    if c_valid c' then al_stretch H ops m c' removed edits ch s
                    else (Inl (ErrOther ''loops for ever''), s)) s)"
  by pat_completeness auto
termination al_stretch
  by (relation "inv_image (lex less_than) (\<lambda>(H, ops, m, c, removed, edits, ch, s). c_rest (tl c))")
    (auto intro!: wf_inv_image wf_lex dest!: c_nextNode_shrinks[OF sym])

declare al_stretch.simps [simp del]

text \<open>The outer loop of \<^verbatim>\<open>applyLevel\<close>; a stretch uses at least the edit it started at.\<close>

function applyLevel :: "(bytes \<Rightarrow> hash) \<Rightarrow> ('s, 'z) rw_scheme \<Rightarrow> pmap \<Rightarrow> nat \<Rightarrow> edit list \<Rightarrow> bytes list \<Rightarrow> ('s, edit list \<times> bytes list) comp" where
  "applyLevel H ops m level edits changed s =
     (if edits = [] then (Inr ([], changed), s)
      else case m_seek ops s m level (ed_key (hd edits)) of
        Inl e \<Rightarrow> (Inl e, s)
      | Inr c \<Rightarrow>
          sbind (al_stretch H ops m c [] edits (pk_log changed (newChunker m level False))) (\<lambda>(removed, rest, ch) s.
            let changed = (case pk_changed ch of Some ks \<Rightarrow> ks | None \<Rightarrow> changed) in
            if length rest < length edits then
              sbind (\<lambda>s. applyLevel H ops m level rest changed s)
                (\<lambda>(up, changed). sret (pm_replace removed (pk_out ch) @ up, changed)) s
            else (Inl (ErrOther ''loops for ever''), s)) s)"
  by pat_completeness auto
termination applyLevel
  by (relation "measure (\<lambda>(H, ops, m, level, edits, changed, s). length edits)") auto

declare applyLevel.simps [simp del]

section \<open>What a chunker draws\<close>

abbreviation p_chop where
  "p_chop H r lv \<equiv> chop H (\<lambda>e. H (p_key e)) (p_entrySize lv) r lv"

abbreviation p_chop_all where
  "p_chop_all H r lv \<equiv> chop_all H (\<lambda>e. H (p_key e)) (p_entrySize lv) r lv"

abbreviation p_node :: "nat \<Rightarrow> pentry list \<Rightarrow> pnode" where
  "p_node lv es \<equiv> \<lparr>n_level = lv, n_entries = es\<rparr>"

definition pk_steady :: "brule \<Rightarrow> pchunker \<Rightarrow> bool" where
  "pk_steady r c \<longleftrightarrow> pk_split c = sp_at (p_entrySize (pk_level c)) r (pk_level c) (pk_pending c)"

text \<open>The chunker after it has drawn the nodes \<open>gs\<close> and has \<open>cur\<close> in hand.\<close>

definition pk_after :: "(bytes \<Rightarrow> hash) \<Rightarrow> brule \<Rightarrow> pentry list list \<Rightarrow> pentry list \<Rightarrow> pchunker \<Rightarrow> pchunker" where
  "pk_after H r gs cur c = c\<lparr>pk_pending := cur, pk_split := sp_at (p_entrySize (pk_level c)) r (pk_level c) cur,
     pk_out := pk_out c @ (if pk_hold c then [] else map (\<lambda>g. up_entry H (p_node (pk_level c) g)) gs),
     pk_nodes := pk_nodes c @ (if pk_hold c then map (p_node (pk_level c)) gs else [])\<rparr>"

lemma pk_after_simps [simp]:
  "pk_level (pk_after H r gs cur c) = pk_level c" "pk_pending (pk_after H r gs cur c) = cur"
  "pk_hold (pk_after H r gs cur c) = pk_hold c" "pk_existing (pk_after H r gs cur c) = pk_existing c"
  "pk_changed (pk_after H r gs cur c) = pk_changed c"
  by (simp_all add: pk_after_def)

lemma pk_steady_after [simp]: "pk_steady r (pk_after H r gs cur c)"
  by (simp add: pk_steady_def pk_after_def)

lemma pk_after_after [simp]: "pk_after H r gs' cur' (pk_after H r gs cur c) = pk_after H r (gs @ gs') cur' c"
  by (cases c) (simp add: pk_after_def)

lemma pk_after_Nil: "pk_steady r c \<Longrightarrow> pk_after H r [] (pk_pending c) c = c"
  by (cases c) (simp add: pk_after_def pk_steady_def)

lemma newChunker_steady [simp]: "pk_steady (pm_rule m) (newChunker m lv hold)"
  by (simp add: pk_steady_def newChunker_def Splitter_at)

lemma m_store_Inr: "m_store H ops n ex s = (Inr e, s') \<Longrightarrow> e = up_entry H n"
  by (auto simp: m_store_def Let_def result_simps split: if_splits)

lemma pk_add_Inr:
  assumes "pk_add H ops e c s = (Inr c', s')" and "pk_steady r c" and "p_chop H r (pk_level c) (pk_pending c) [e] = (gs, cur)"
  shows "c' = pk_after H r gs cur c"
  using assms by (cases c) (auto simp: pk_add_def pk_steady_def sp_Append_at[where sz = "p_entrySize _" and dig = "\<lambda>e. H (p_key e)"] pk_end_def
      pk_after_def Let_def result_simps split: if_splits dest!: m_store_Inr)

lemma pk_adds_Inr:
  assumes "sfold (pk_add H ops) es c s = (Inr c', s')" and "pk_steady r c" and "p_chop H r (pk_level c) (pk_pending c) es = (gs, cur)"
  shows "c' = pk_after H r gs cur c"
  using assms
proof (induction es arbitrary: c s gs)
  case Nil
  then show ?case using pk_after_Nil[of r c H] by auto
next
  case (Cons e es)
  obtain c1 s1 where c1: "pk_add H ops e c s = (Inr c1, s1)" "sfold (pk_add H ops) es c1 s1 = (Inr c', s')"
    using Cons.prems(1) by (auto simp: result_simps)
  obtain g1 u1 where g1: "p_chop H r (pk_level c) (pk_pending c) [e] = (g1, u1)" by (metis surj_pair)
  obtain g2 where g2: "p_chop H r (pk_level c) u1 es = (g2, cur)" "gs = g1 @ g2"
    using Cons.prems(3) g1 chop_append[of H _ _ r "pk_level c" "pk_pending c" "[e]" es] by (auto split: prod.splits)
  have "c1 = pk_after H r g1 u1 c" by (rule pk_add_Inr[OF c1(1) Cons.prems(2) g1])
  with Cons.IH[OF c1(2), of g2] g2 show ?case by simp
qed

lemma pk_end_Inr:
  assumes "pk_end H ops c s = (Inr c', s')"
  shows "pk_out c' = pk_out c @ (if pk_hold c \<or> pk_pending c = [] then [] else [up_entry H (p_node (pk_level c) (pk_pending c))])"
    and "pk_nodes c' = pk_nodes c @ (if pk_hold c \<and> pk_pending c \<noteq> [] then [p_node (pk_level c) (pk_pending c)] else [])"
    and "pk_pending c' = []" and "pk_changed c' = pk_changed c"
  using assms by (auto simp: pk_end_def Let_def result_simps split: if_splits dest!: m_store_Inr)

text \<open>A level drawn whole.\<close>

definition pk_draw :: "(bytes \<Rightarrow> hash) \<Rightarrow> ('s, 'z) rw_scheme \<Rightarrow> pmap \<Rightarrow> nat \<Rightarrow> pentry list \<Rightarrow> ('s, pentry list) comp" where
  "pk_draw H ops m level up =
     sbind (sfold (pk_add H ops) up (newChunker m level False)) (\<lambda>c.
     sbind (pk_end H ops c) (\<lambda>c. sret (pk_out c)))"

lemma pk_draw_Inr:
  assumes "pk_draw H ops m level up s = (Inr out, s')"
  shows "out = map (\<lambda>g. up_entry H (p_node level g)) (p_chop_all H (pm_rule m) level up)"
proof -
  obtain c s1 c1 where a: "sfold (pk_add H ops) up (newChunker m level False) s = (Inr c, s1)"
    and e: "pk_end H ops c s1 = (Inr c1, s')" "out = pk_out c1"
    using assms by (auto simp: pk_draw_def result_simps)
  obtain gs cur where g: "p_chop H (pm_rule m) level [] up = (gs, cur)" by (metis surj_pair)
  have "c = pk_after H (pm_rule m) gs cur (newChunker m level False)"
    using pk_adds_Inr[OF a newChunker_steady, of gs cur] g by (simp add: newChunker_def)
  then show ?thesis
    using pk_end_Inr(1)[OF e(1)] e(2) g by (auto simp: pk_after_def newChunker_def chop_all_def)
qed

section \<open>The root\<close>

text \<open>Growing: the levels above the old root are drawn whole, until one has one node.\<close>

function m_grow :: "(bytes \<Rightarrow> hash) \<Rightarrow> ('s, 'z) rw_scheme \<Rightarrow> pmap \<Rightarrow> nat \<Rightarrow> pentry list \<Rightarrow> ('s, pentry list) comp" where
  "m_grow H ops m below up s =
     (if length up > 1 then
        sbind (pk_draw H ops m (Suc below) up) (\<lambda>up s. m_grow H ops m (Suc below) up s) s
      else (Inr up, s))"
  by pat_completeness auto
termination m_grow
proof (relation "measure (\<lambda>(H, ops, m, below, up, s). length up)", goal_cases)
  case (2 H ops m below up s out s')
  then show ?case
    using chop_all_halves[of "Suc below" H "\<lambda>e. H (p_key e)" "p_entrySize (Suc below)" "pm_rule m" up] pk_draw_Inr[OF 2(2)] by simp
qed simp

declare m_grow.simps [simp del]

function m_collapse :: "('s, 'z) rw_scheme \<Rightarrow> 's \<Rightarrow> pmap \<Rightarrow> pnode \<Rightarrow> pnode result" where
  "m_collapse ops s m n =
     (if n_level n > 0 \<and> length (n_entries n) = 1 then rbind (m_child ops s m n 0) (\<lambda>c. m_collapse ops s m c) else Inr n)"
  by pat_completeness auto
termination m_collapse
  by (relation "measure (\<lambda>(ops, s, m, n). n_level n)") (auto dest!: m_child_level)

declare m_collapse.simps [simp del]

definition m_with :: "pmap \<Rightarrow> hash \<Rightarrow> pnode \<Rightarrow> pmap" where
  "m_with m root n = \<lparr>pm_cfg = pm_cfg m, pm_rule = pm_rule m, pm_root = root, pm_count = n_total n, pm_height = n_level n,
     pm_top = Some n, pm_flushed = False, pm_base = zero_hash, pm_changed = []\<rparr>"

definition applyRoot :: "(bytes \<Rightarrow> hash) \<Rightarrow> ('s, 'z) rw_scheme \<Rightarrow> pmap \<Rightarrow> pnode \<Rightarrow> edit list \<Rightarrow> bytes list \<Rightarrow> ('s, pmap \<times> bytes list) comp" where
  "applyRoot H ops m root edits changed =
     sbind (pk_merge H ops None (n_entries root) edits (pk_log changed (newChunker m (n_level root) True))) (\<lambda>(_, ch).
     sbind (pk_end H ops ch) (\<lambda>ch.
       let changed = (case pk_changed ch of Some ks \<Rightarrow> ks | None \<Rightarrow> changed) in
       if pk_nodes ch = [] then sbind (m_Empty ops (pm_cfg m)) (\<lambda>m'. sret (m', changed))
       else if length (pk_nodes ch) = 1 then
         sbind (\<lambda>s. (m_collapse ops s m (hd (pk_nodes ch)), s)) (\<lambda>n.
         sbind (m_store H ops n []) (\<lambda>e. sret (m_with m (p_child e) n, changed)))
       else
         sbind (sfold (\<lambda>n up. sbind (m_store H ops n []) (\<lambda>e. sret (up @ [e]))) (pk_nodes ch) []) (\<lambda>up.
         sbind (m_grow H ops m (n_level root) up) (\<lambda>up.
         sbind (\<lambda>s. (m_read ops s m (p_child (hd up)), s)) (\<lambda>t.
           sret (m_with m (p_child (hd up)) t, changed))))))"

text \<open>The loop of \<^verbatim>\<open>apply\<close> from \<open>level\<close> up to the root, \<open>k\<close> levels away.\<close>

primrec m_apply_from :: "nat \<Rightarrow> (bytes \<Rightarrow> hash) \<Rightarrow> ('s, 'z) rw_scheme \<Rightarrow> pmap \<Rightarrow> pnode \<Rightarrow> nat \<Rightarrow> edit list \<Rightarrow> bytes list \<Rightarrow>
    ('s, pmap \<times> bytes list) comp" where
  "m_apply_from 0 H ops m root level edits changed = applyRoot H ops m root edits changed"
| "m_apply_from (Suc k) H ops m root level edits changed =
     sbind (applyLevel H ops m level edits changed) (\<lambda>(edits, changed).
       if edits = [] then sret (m, changed)
       else m_apply_from k H ops m root (Suc level) edits changed)"

definition m_apply :: "(bytes \<Rightarrow> hash) \<Rightarrow> ('s, 'z) rw_scheme \<Rightarrow> pmap \<Rightarrow> edit list \<Rightarrow> ('s, pmap \<times> bytes list) comp" where
  "m_apply H ops m edits =
     sbind (\<lambda>s. (m_read ops s m (pm_root m), s)) (\<lambda>root.
       m_apply_from (n_level root) H ops m root 0 edits [])"

section \<open>The editor\<close>

text \<open>The edits of a Go map, in no order: an association list with one entry a key.\<close>

record editor =
  eo_m :: pmap
  eo_edits :: "(bytes \<times> bytes option) list"

definition m_Editor :: "pmap \<Rightarrow> editor" where
  "m_Editor m = \<lparr>eo_m = m, eo_edits = []\<rparr>"

definition eo_Put :: "bytes \<Rightarrow> bytes \<Rightarrow> (editor, unit) comp" where
  "eo_Put key val e =
     (if length key > MaxKeySize then (Inl ErrKeyTooLarge, e)
      else if int (length val) > pc_maxValue (pm_cfg (eo_m e)) then (Inl ErrValueTooLarge, e)
      else (Inr (), e\<lparr>eo_edits := AList.update key (Some val) (eo_edits e)\<rparr>))"

definition eo_Delete :: "bytes \<Rightarrow> (editor, unit) comp" where
  "eo_Delete key e =
     (if length key > MaxKeySize then (Inl ErrKeyTooLarge, e)
      else (Inr (), e\<lparr>eo_edits := AList.update key None (eo_edits e)\<rparr>))"

definition eo_edit :: "(bytes \<Rightarrow> hash) \<Rightarrow> (byte \<Rightarrow> u64) \<Rightarrow> ('s, 'z) rw_scheme \<Rightarrow> pmap \<Rightarrow> bytes \<Rightarrow> bytes option \<Rightarrow> ('s, edit) comp" where
  "eo_edit H tb ops m k p =
     (case p of
        None \<Rightarrow> sret \<lparr>ed_key = k, ed_del = True, ed_e = zero_entry\<rparr>
      | Some b \<Rightarrow>
          sbind (if int (length b) > pc_InlineLimit (pm_cfg m)
                 then sbind (s_Write H tb ops (bytes_rdr b) (Some (length b)) (pc_Stream (pm_cfg m)))
                        (\<lambda>ref. sret \<lparr>v_inline = [], v_ref = Some ref\<rparr>)
                 else sret \<lparr>v_inline = b, v_ref = None\<rparr>)
            (\<lambda>v. sret \<lparr>ed_key = k, ed_del = False, ed_e = \<lparr>p_key = k, p_val = v, p_child = zero_hash, p_count = 0\<rparr>\<rparr>))"

text \<open>The first half of \<^verbatim>\<open>Flush\<close>: the edits in key order, long values written as streams.\<close>

definition eo_collect :: "(bytes \<Rightarrow> hash) \<Rightarrow> (byte \<Rightarrow> u64) \<Rightarrow> ('s, 'z) rw_scheme \<Rightarrow> editor \<Rightarrow> ('s, edit list) comp" where
  "eo_collect H tb ops e =
     sfold (\<lambda>k edits. sbind (eo_edit H tb ops (eo_m e) k (the (map_of (eo_edits e) k))) (\<lambda>d. sret (edits @ [d])))
       (sort (map fst (eo_edits e))) []"

definition eo_Flush :: "(bytes \<Rightarrow> hash) \<Rightarrow> (byte \<Rightarrow> u64) \<Rightarrow> ('s, 'z) rw_scheme \<Rightarrow> editor \<Rightarrow> ('s, pmap \<times> editor) comp" where
  "eo_Flush H tb ops e =
     (let m = eo_m e in
      sbind (eo_collect H tb ops e) (\<lambda>edits.
      sbind (m_apply H ops m edits) (\<lambda>(nxt, changed).
        let m' = nxt\<lparr>pm_flushed := True, pm_base := pm_root m, pm_changed := changed\<rparr> in
        sret (m', \<lparr>eo_m = m', eo_edits = []\<rparr>))))"

definition m_Changes :: "pmap \<Rightarrow> (hash \<times> bytes list) option" where
  "m_Changes m = (if \<not> pm_flushed m then None else Some (pm_base m, pm_changed m))"

end
