(* ===== verification/ProllyDiff.thy ===== *)
theory ProllyDiff
  imports ProllyFlush
begin

text \<open>
  \<^verbatim>\<open>core/prolly/diff.go\<close> and \<^verbatim>\<open>walk.go\<close>: the changes between two maps, skipping what they share, and
  the walk of every chunk of one. Both cursors of a diff are passed and returned.
\<close>

section \<open>Diff\<close>

datatype ChangeKind = Added | Removed | Modified

record change =
  ch_Kind :: ChangeKind
  ch_Key :: bytes
  ch_From :: "bytes option"
  ch_To :: "bytes option"

text \<open>The two sides' maps and cursors; no cursors for maps with equal roots.\<close>

record pdiff =
  df_mf :: pmap
  df_mt :: pmap
  df_cs :: "(cursor \<times> cursor) option"

definition m_Diff :: "('s, 'z) rw_scheme \<Rightarrow> 's \<Rightarrow> pmap \<Rightarrow> pmap \<Rightarrow> pdiff result" where
  "m_Diff ops s from to =
     (if pm_root from = pm_root to then Inr \<lparr>df_mf = from, df_mt = to, df_cs = None\<rparr>
      else rbind (m_seek ops s from 0 []) (\<lambda>f.
           rbind (m_seek ops s to 0 []) (\<lambda>t.
             Inr \<lparr>df_mf = from, df_mt = to, df_cs = Some (f, t)\<rparr>)))"

definition equalItems :: "cursor \<Rightarrow> cursor \<Rightarrow> bool" where
  "equalItems a b \<longleftrightarrow>
     (let x = c_current a; y = c_current b in
      if p_key x \<noteq> p_key y then False
      else if n_level (cf_n (hd a)) > 0 then p_child x = p_child y
      else v_equal (p_val x) (p_val y))"

text \<open>The end of \<^verbatim>\<open>skipCommonParents\<close> on one side, whose parents have moved to \<open>ps\<close>.\<close>

definition c_settle :: "('s, 'z) rw_scheme \<Rightarrow> 's \<Rightarrow> pmap \<Rightarrow> frame \<Rightarrow> cursor \<Rightarrow> unit result \<times> cursor" where
  "c_settle ops s m f ps = (if \<not> c_valid ps then (Inr (), f\<lparr>cf_end := True\<rparr> # ps) else c_fetch ops s m f ps)"

definition sameParents :: "cursor \<Rightarrow> cursor \<Rightarrow> bool" where
  "sameParents a b \<longleftrightarrow> tl a \<noteq> [] \<and> tl b \<noteq> [] \<and> c_valid (tl a) \<and> c_valid (tl b) \<and> equalItems (tl a) (tl b)"

text \<open>\<^verbatim>\<open>skipCommon\<close>, with \<^verbatim>\<open>skipCommonParents\<close> unfolded into it.\<close>

function skipCommon :: "('s, 'z) rw_scheme \<Rightarrow> 's \<Rightarrow> pmap \<Rightarrow> pmap \<Rightarrow> bool \<Rightarrow> cursor \<Rightarrow> cursor \<Rightarrow> unit result \<times> cursor \<times> cursor" where
  "skipCommon ops s ma mb fresh a b =
     (if c_valid a \<and> c_valid b \<and> equalItems a b then
        if fresh \<and> sameParents a b then
          (case skipCommon ops s ma mb True (tl a) (tl b) of
             (Inl e, pa, pb) \<Rightarrow> (Inl e, hd a # pa, hd b # pb)
           | (Inr _, pa, pb) \<Rightarrow>
               (case c_settle ops s ma (hd a) pa of
                  (Inl e, a) \<Rightarrow> (Inl e, a, hd b # pb)
                | (Inr _, a) \<Rightarrow>
                    (case c_settle ops s mb (hd b) pb of
                       (Inl e, b) \<Rightarrow> (Inl e, a, b)
                     | (Inr _, b) \<Rightarrow> skipCommon ops s ma mb True a b)))
        else
          let fresh = c_atNodeEnd a \<or> c_atNodeEnd b in
          (case c_advance ops s ma a of
             (Inl e, a) \<Rightarrow> (Inl e, a, b)
           | (Inr _, a) \<Rightarrow>
               (case c_advance ops s mb b of
                  (Inl e, b) \<Rightarrow> (Inl e, a, b)
                | (Inr _, b) \<Rightarrow> skipCommon ops s ma mb fresh a b))
      else (Inr (), a, b))"
  by pat_completeness auto

text \<open>
  It terminates: what is left to a cursor, counting that it has not ended, shrinks with every move
  off a valid place.
\<close>

definition c_left :: "cursor \<Rightarrow> nat list" where
  "c_left c = map (\<lambda>f. if cf_end f then 0 else Suc (length (n_entries (cf_n f)) - cf_i f)) (rev c)"

lemma c_left_Cons: "c_left (f # ps) = c_left ps @ [if cf_end f then 0 else Suc (length (n_entries (cf_n f)) - cf_i f)]"
  by (simp add: c_left_def)

lemma length_c_left [simp]: "length (c_left c) = length c"
  by (simp add: c_left_def)

lemma lex_last: "a < b \<Longrightarrow> (xs @ [a], xs @ [b]) \<in> lex less_than"
  by (rule lex_append_leftI) simp

lemma lex_before: "(xs, ys) \<in> lex r \<Longrightarrow> (xs @ [a], ys @ [b]) \<in> lex r"
  by (rule lex_append_rightI) auto

abbreviation c_less :: "cursor \<Rightarrow> cursor \<Rightarrow> bool" where
  "c_less c' c \<equiv> length c' = length c \<and> (c_left c', c_left c) \<in> lex less_than"

lemma c_less_trans: "c_less c'' c' \<Longrightarrow> c_less c' c \<Longrightarrow> c_less c'' c"
  using lex_transI[OF trans_less_than] by (metis transD)

lemma c_less_parents: "c_less ps' ps \<Longrightarrow> c_less (f' # ps') (f # ps)"
  by (auto simp: c_left_Cons intro!: lex_before)

lemma c_advance_less:
  "c_advance ops s m c = (Inr u, c') \<Longrightarrow> c \<noteq> [] \<Longrightarrow> (c' = c \<and> cf_end (hd c)) \<or> c_less c' c"
proof (induction c arbitrary: u c')
  case (Cons f ps)
  let ?f = "f\<lparr>cf_i := cf_i f + 1\<rparr>"
  consider "cf_end f" | "\<not> cf_end f" "cf_i f + 1 < length (n_entries (cf_n f))"
    | "\<not> cf_end f" "\<not> cf_i f + 1 < length (n_entries (cf_n f))" by blast
  then show ?case
  proof cases
    case 1
    then show ?thesis using Cons.prems by auto
  next
    case 2
    then show ?thesis using Cons.prems by (auto simp: c_left_Cons intro!: lex_last)
  next
    case 3
    have n: "c_next ops s m ?f ps (c_advance ops s m ps) = (Inr u, c')" using 3 Cons.prems by (auto simp: Let_def)
    show ?thesis
    proof (cases "ps = []")
      case True
      then show ?thesis using n 3 by (auto simp: c_next_def c_left_def)
    next
      case False
      then obtain ps' where a: "c_advance ops s m ps = (Inr (), ps')"
        using n by (auto simp: c_next_def split: prod.splits sum.splits)
      from Cons.IH[OF a False] consider "ps' = ps" "cf_end (hd ps)" | "c_less ps' ps" by blast
      then show ?thesis
      proof cases
        case 1
        then show ?thesis using n 3 a False by (auto simp: c_next_def c_valid_def c_left_Cons intro!: lex_last)
      next
        case 2
        then show ?thesis using n a False
          by (auto simp: c_next_def c_fetch_def c_left_Cons split: if_splits sum.splits intro!: lex_before)
      qed
    qed
  qed
qed simp


lemma c_settle_less:
  assumes "c_settle ops s m f ps' = (Inr u, c')" and "c_less ps' ps"
  shows "c_less c' (f # ps)"
  using assms by (auto simp: c_settle_def c_fetch_def c_left_Cons split: if_splits sum.splits intro!: lex_before)

lemma c_valid_moves: "c_valid c \<Longrightarrow> c_advance ops s m c = (Inr u, c') \<Longrightarrow> c_less c' c"
  using c_advance_less[of ops s m c u c'] by (auto simp: c_valid_def)

lemma skipCommon_less:
  assumes "skipCommon_dom (ops, s, ma, mb, fresh, a, b)" and "skipCommon ops s ma mb fresh a b = (Inr u, a', b')"
  shows "(a' = a \<and> b' = b \<and> \<not> (c_valid a \<and> c_valid b \<and> equalItems a b)) \<or> (c_less a' a \<and> c_less b' b)"
  using assms
proof (induction arbitrary: u a' b' rule: skipCommon.pinduct)
  case (1 ops s ma mb fresh a b)
  note eq = skipCommon.psimps[OF "1.hyps"]
  have step: ?case if "c_less a1 a" "c_less b1 b"
    and "(a' = a1 \<and> b' = b1 \<and> Q) \<or> (c_less a' a1 \<and> c_less b' b1)" for a1 b1 Q
    using that(3) c_less_trans[OF _ that(1)] c_less_trans[OF _ that(2)] that(1,2) by blast
  show ?case
  proof (cases "c_valid a \<and> c_valid b \<and> equalItems a b")
    case False
    then show ?thesis using "1.prems" eq by auto
  next
    case V: True
    then have ne: "a \<noteq> []" "b \<noteq> []" by (auto simp: c_valid_def)
    show ?thesis
    proof (cases "fresh \<and> sameParents a b")
      case P: True
      obtain pa pb where p: "skipCommon ops s ma mb True (tl a) (tl b) = (Inr (), pa, pb)"
        using "1.prems" V P eq by (auto split: prod.splits sum.splits)
      have l: "c_less pa (tl a)" "c_less pb (tl b)" using "1.IH"(1)[OF V P p] P by (auto simp: sameParents_def)
      obtain a1 where a1: "c_settle ops s ma (hd a) pa = (Inr (), a1)"
        using "1.prems" V P eq p by (auto split: prod.splits sum.splits)
      obtain b1 where b1: "c_settle ops s mb (hd b) pb = (Inr (), b1)"
        using "1.prems" V P eq p a1 by (auto split: prod.splits sum.splits)
      have r: "skipCommon ops s ma mb True a1 b1 = (Inr u, a', b')"
        using "1.prems" V P eq p a1 b1 by simp
      show ?thesis
        using c_settle_less[OF a1 l(1)] c_settle_less[OF b1 l(2)] ne
          "1.IH"(2)[OF V P p[symmetric] refl refl a1[symmetric] refl b1[symmetric] refl r] by (intro step) auto
    next
      case P: False
      obtain a1 where a1: "c_advance ops s ma a = (Inr (), a1)"
        using "1.prems" V P eq by (auto simp: Let_def split: prod.splits sum.splits)
      obtain b1 where b1: "c_advance ops s mb b = (Inr (), b1)"
        using "1.prems" V P eq a1 by (auto simp: Let_def split: prod.splits sum.splits)
      have r: "skipCommon ops s ma mb (c_atNodeEnd a \<or> c_atNodeEnd b) a1 b1 = (Inr u, a', b')"
        using "1.prems" V P eq a1 b1 by simp
      show ?thesis
        using c_valid_moves[OF _ a1] c_valid_moves[OF _ b1] V
          "1.IH"(3)[OF V P refl a1[symmetric] refl b1[symmetric] refl r] by (intro step) auto
    qed
  qed
qed

lemma skipCommon_total: "All skipCommon_dom"
proof (relation "inv_image (less_than <*lex*> lex less_than) (\<lambda>(ops, s, ma, mb, fresh, a, b). (length a, c_left a))", goal_cases)
  case 1
  show ?case by (intro wf_inv_image wf_lex_prod wf_lex wf_less_than)
next
  case (2 ops s ma mb fresh a b)
  then show ?case by (cases a) (auto simp: sameParents_def)
next
  case (3 ops s ma mb fresh a b x y ba pa pb xb a1 baa xc b1 bb)
  then have p: "skipCommon ops s ma mb True (tl a) (tl b) = (Inr ba, pa, pb)"
    and a1: "c_settle ops s ma (hd a) pa = (Inr baa, a1)" by auto
  have "c_less pa (tl a)" using skipCommon_less[OF 3(10) p] 3(2) by (auto simp: sameParents_def)
  from c_settle_less[OF a1 this] 3(1) show ?case by (auto simp: c_valid_def)
next
  case (4 ops s ma mb fresh a b x xa a1 ba xaa b1 bb)
  then have "c_advance ops s ma a = (Inr ba, a1)" by auto
  from c_valid_moves[OF _ this] 4(1) show ?case by auto
qed

termination skipCommon
  by (rule skipCommon_total)

declare skipCommon.simps [simp del]

lemmas skipCommon_moves = skipCommon_less[OF skipCommon_total[rule_format]]

text \<open>What \<^verbatim>\<open>send\<close> does with one side: its value is read and its cursor moves on.\<close>

definition df_side :: "(nat \<Rightarrow> nat) \<Rightarrow> ('s, 'z) rw_scheme \<Rightarrow> 's \<Rightarrow> pmap \<Rightarrow> cursor \<Rightarrow> (bytes \<times> bytes) result \<times> cursor" where
  "df_side grow ops s m c =
     (let e = c_current c in
      case materialize grow ops s m (p_val e) of
        Inl x \<Rightarrow> (Inl x, c)
      | Inr v \<Rightarrow>
          (case c_advance ops s m c of
             (Inl x, c) \<Rightarrow> (Inl x, c)
           | (Inr _, c) \<Rightarrow> (Inr (p_key e, v), c)))"

definition df_send :: "(nat \<Rightarrow> nat) \<Rightarrow> ('s, 'z) rw_scheme \<Rightarrow> 's \<Rightarrow> pmap \<Rightarrow> pmap \<Rightarrow> ChangeKind \<Rightarrow> cursor \<Rightarrow> cursor \<Rightarrow>
    change option result \<times> cursor \<times> cursor" where
  "df_send grow ops s mf mt kind f t =
     (case kind of
        Removed \<Rightarrow>
          (case df_side grow ops s mf f of
             (Inl x, f) \<Rightarrow> (Inl x, f, t)
           | (Inr (k, v), f) \<Rightarrow> (Inr (Some \<lparr>ch_Kind = kind, ch_Key = k, ch_From = Some v, ch_To = None\<rparr>), f, t))
      | Added \<Rightarrow>
          (case df_side grow ops s mt t of
             (Inl x, t) \<Rightarrow> (Inl x, f, t)
           | (Inr (k, v), t) \<Rightarrow> (Inr (Some \<lparr>ch_Kind = kind, ch_Key = k, ch_From = None, ch_To = Some v\<rparr>), f, t))
      | Modified \<Rightarrow>
          (case df_side grow ops s mf f of
             (Inl x, f) \<Rightarrow> (Inl x, f, t)
           | (Inr (_, v), f) \<Rightarrow>
               (case df_side grow ops s mt t of
                  (Inl x, t) \<Rightarrow> (Inl x, f, t)
                | (Inr (k, w), t) \<Rightarrow> (Inr (Some \<lparr>ch_Kind = kind, ch_Key = k, ch_From = Some v, ch_To = Some w\<rparr>), f, t))))"

definition df_cmp :: "cursor \<Rightarrow> cursor \<Rightarrow> int" where
  "df_cmp f t =
     (if \<not> c_valid t then - 1
      else if \<not> c_valid f then 1
      else bytes_Compare (p_key (c_current f)) (p_key (c_current t)))"

text \<open>The loop of \<^verbatim>\<open>DiffIter.Next\<close>.\<close>

function df_loop :: "(nat \<Rightarrow> nat) \<Rightarrow> ('s, 'z) rw_scheme \<Rightarrow> 's \<Rightarrow> pmap \<Rightarrow> pmap \<Rightarrow> cursor \<Rightarrow> cursor \<Rightarrow>
    change option result \<times> cursor \<times> cursor" where
  "df_loop grow ops s mf mt f t =
     (if \<not> c_valid f \<and> \<not> c_valid t then (Inr None, f, t)
      else if df_cmp f t < 0 then df_send grow ops s mf mt Removed f t
      else if df_cmp f t > 0 then df_send grow ops s mf mt Added f t
      else if \<not> v_equal (p_val (c_current f)) (p_val (c_current t)) then df_send grow ops s mf mt Modified f t
      else
        (case c_advance ops s mf f of
           (Inl x, f) \<Rightarrow> (Inl x, f, t)
         | (Inr _, f) \<Rightarrow>
             (case c_advance ops s mt t of
                (Inl x, t) \<Rightarrow> (Inl x, f, t)
              | (Inr _, t) \<Rightarrow>
                  (case skipCommon ops s mf mt True f t of
                     (Inl x, f, t) \<Rightarrow> (Inl x, f, t)
                   | (Inr _, f, t) \<Rightarrow> df_loop grow ops s mf mt f t))))"
  by pat_completeness auto

lemma df_step_less:
  assumes "c_valid f" and "c_advance ops s mf f = (Inr u, f1)" and "skipCommon ops s mf mt True f1 t1 = (Inr v, f2, t2)"
  shows "c_less f2 f"
  using skipCommon_moves[OF assms(3)] c_valid_moves[OF assms(1,2)] c_less_trans by blast

termination df_loop
proof (relation "inv_image (less_than <*lex*> lex less_than) (\<lambda>(grow, ops, s, mf, mt, f, t). (length f, c_left f))", goal_cases)
  case 1
  show ?case by (intro wf_inv_image wf_lex_prod wf_lex wf_less_than)
next
  case (2 grow ops s mf mt f t x f1 u xa t1 v xb y w f2 t2)
  have v: "c_valid f" using 2(1-3) by (auto simp: df_cmp_def split: if_splits)
  have "c_advance ops s mf f = (Inr u, f1)" "skipCommon ops s mf mt True f1 t1 = (Inr w, f2, t2)" using 2(5-) by auto
  from df_step_less[OF v this] show ?case by auto
qed

declare df_loop.simps [simp del]

definition df_Next :: "(nat \<Rightarrow> nat) \<Rightarrow> ('s, 'z) rw_scheme \<Rightarrow> 's \<Rightarrow> pdiff \<Rightarrow> change option result \<times> pdiff" where
  "df_Next grow ops s d =
     (case df_cs d of
        None \<Rightarrow> (Inr None, d)
      | Some (f, t) \<Rightarrow>
          (case df_loop grow ops s (df_mf d) (df_mt d) f t of (r, f, t) \<Rightarrow> (r, d\<lparr>df_cs := Some (f, t)\<rparr>)))"

section \<open>Walk\<close>

text \<open>\<open>visit\<close> and \<open>val\<close>, the caller's functions, carry a state of their own.\<close>

definition w_read :: "('s, 'z) rw_scheme \<Rightarrow> 's \<Rightarrow> int \<Rightarrow> hash \<Rightarrow> pnode result" where
  "w_read ops s limit h = rbind (rw_Get ops s h) (\<lambda>b. decodeNode b limit)"

definition w_leafValue :: "(nat \<Rightarrow> nat) \<Rightarrow> ('s, 'z) rw_scheme \<Rightarrow> 's \<Rightarrow> int \<Rightarrow> (hash \<Rightarrow> bool \<Rightarrow> ('v, bool) comp) \<Rightarrow>
    (bytes \<Rightarrow> bytes \<Rightarrow> ('v, unit) comp) option \<Rightarrow> pentry \<Rightarrow> ('v, unit) comp" where
  "w_leafValue grow ops s maxValue visit val e =
     sbind (case v_ref (p_val e) of Some ref \<Rightarrow> s_Walk ops s ref visit | None \<Rightarrow> sret ()) (\<lambda>_.
       case val of
         None \<Rightarrow> sret ()
       | Some f \<Rightarrow>
           (case v_ref (p_val e) of
              None \<Rightarrow> f (p_key e) (v_inline (p_val e))
            | Some ref \<Rightarrow> sbind (slift (readValue grow ops s ref maxValue)) (\<lambda>v. f (p_key e) v)))"

text \<open>\<^verbatim>\<open>node\<close> at level \<open>k\<close>: a child is checked to be one level down.\<close>

primrec w_node :: "nat \<Rightarrow> (nat \<Rightarrow> nat) \<Rightarrow> ('s, 'z) rw_scheme \<Rightarrow> 's \<Rightarrow> pconfig \<Rightarrow> (hash \<Rightarrow> bool \<Rightarrow> ('v, bool) comp) \<Rightarrow>
    (bytes \<Rightarrow> bytes \<Rightarrow> ('v, unit) comp) option \<Rightarrow> pnode \<Rightarrow> ('v, unit) comp" where
  "w_node 0 grow ops s c visit val n =
     sfold (\<lambda>e _. w_leafValue grow ops s (pc_maxValue c) visit val e) (n_entries n) ()"
| "w_node (Suc k) grow ops s c visit val n =
     sfold (\<lambda>i _.
       let e = n_entries n ! i in
       sbind (visit (p_child e) False) (\<lambda>deeper.
         if \<not> deeper then sret ()
         else sbind (slift (w_read ops s (pc_InlineLimit c) (p_child e))) (\<lambda>ch.
              sbind (slift (checkChild n i ch)) (\<lambda>_. w_node k grow ops s c visit val ch)))) [0..<length (n_entries n)] ()"

definition m_Walk :: "(nat \<Rightarrow> nat) \<Rightarrow> ('s, 'z) rw_scheme \<Rightarrow> 's \<Rightarrow> pconfig \<Rightarrow> hash \<Rightarrow> (hash \<Rightarrow> bool \<Rightarrow> ('v, bool) comp) \<Rightarrow>
    (bytes \<Rightarrow> bytes \<Rightarrow> ('v, unit) comp) option \<Rightarrow> ('v, unit) comp" where
  "m_Walk grow ops s c root visit val =
     sbind (slift (pc_rule c)) (\<lambda>_.
     sbind (visit root False) (\<lambda>deeper.
       if \<not> deeper then sret ()
       else sbind (slift (w_read ops s (pc_InlineLimit c) root)) (\<lambda>n.
         if n_level n > 0 \<and> length (n_entries n) < 2 then sfail ErrChunkCorrupt
         else w_node (n_level n) grow ops s c visit val n)))"

end
