(* ===== verification/ProllyTree.thy ===== *)
theory ProllyTree
  imports ProllyDiff
begin

text \<open>
  The tree a map's entries draw, as a function of the entries alone: \<open>p_lev\<close> are the entries of each
  level, \<open>p_gs\<close> the nodes they are cut into, \<open>p_root\<close> the first node that is alone on its level.
  The lemmas say what every such tree is like: each level's keys increase, the counts add up to the
  number of entries, every node is one the decoder accepts and the store takes, and the height is
  at most 62. What the code reads and writes is compared with this tree in the theories after it.
\<close>

section \<open>Cutting at a boundary\<close>

lemma chop_Cons:
  assumes "chop H dig sz r lv cur xs = (g # gs, c)"
  shows "\<exists>ys zs. xs = ys @ zs \<and> cur @ ys = g \<and> chop H dig sz r lv cur ys = ([g], []) \<and> chop H dig sz r lv [] zs = (gs, c)"
  using assms
proof (induction xs arbitrary: cur)
  case (Cons x xs)
  show ?case
  proof (cases "ends_at H dig sz r lv cur x")
    case True
    then have "g = cur @ [x]" "chop H dig sz r lv [] xs = (gs, c)" using Cons.prems by (auto split: prod.splits)
    then show ?thesis using True by (intro exI[of _ "[x]"] exI[of _ xs]) auto
  next
    case False
    then obtain ys zs where "xs = ys @ zs" "(cur @ [x]) @ ys = g" "chop H dig sz r lv (cur @ [x]) ys = ([g], [])"
      "chop H dig sz r lv [] zs = (gs, c)" using Cons.IH[of "cur @ [x]"] Cons.prems by auto
    then show ?thesis using False by (intro exI[of _ "x # ys"] exI[of _ zs]) auto
  qed
qed simp

text \<open>Finished nodes are cut the same whatever follows them.\<close>

lemma chop_finished: "chop H dig sz r lv [] xs = (gs @ gs', c) \<Longrightarrow> chop H dig sz r lv [] (concat gs) = (gs, [])"
proof (induction gs arbitrary: xs)
  case (Cons g gs)
  then obtain ys zs where "xs = ys @ zs" "g = ys" "chop H dig sz r lv [] ys = ([g], [])" "chop H dig sz r lv [] zs = (gs @ gs', c)"
    using chop_Cons[of H dig sz r lv "[]" xs g "gs @ gs'" c] by auto
  then show ?case using Cons.IH[of zs] by (simp add: chop_append)
qed simp

lemma chop_all_finished:
  assumes "chop_all H dig sz r lv xs = gs @ gs'" and "gs' \<noteq> []"
  shows "chop H dig sz r lv [] (concat gs) = (gs, [])"
proof -
  obtain fs c where c: "chop H dig sz r lv [] xs = (fs, c)" by (metis surj_pair)
  have "\<exists>fs'. fs = gs @ fs'"
  proof (cases "c = []")
    case True
    then show ?thesis using assms(1) c by (auto simp: chop_all_def)
  next
    case False
    then have "fs @ [c] = gs @ gs'" using assms(1) c by (simp add: chop_all_def)
    then show ?thesis using assms(2) by (metis append_butlast_last_id append_assoc append1_eq_conv)
  qed
  then show ?thesis using c chop_finished by blast
qed

lemma chop_all_append: "chop H dig sz r lv [] xs = (gs, []) \<Longrightarrow> chop_all H dig sz r lv (xs @ ys) = gs @ chop_all H dig sz r lv ys"
  by (simp add: chop_all_def chop_append split: prod.splits)

lemma chop_all_Nil [simp]: "chop_all H dig sz r lv [] = []"
  by (simp add: chop_all_def)

lemma chop_all_eq_Nil [simp]: "chop_all H dig sz r lv xs = [] \<longleftrightarrow> xs = []"
  using chop_all_concat[of H dig sz r lv xs] by (cases xs) auto

lemma chop_all_split:
  assumes "chop_all H dig sz r lv xs = gs @ gs'" and "gs' \<noteq> []"
  shows "chop_all H dig sz r lv (concat gs') = gs'"
proof -
  have "xs = concat gs @ concat gs'" using chop_all_concat[of H dig sz r lv xs] assms(1) by simp
  then show ?thesis using chop_all_append[OF chop_all_finished[OF assms], of "concat gs'"] assms(1) by simp
qed

section \<open>Groups of a sorted list\<close>

lemma sorted_last_le:
  assumes "strictly_sorted (map f g)" and "x \<in> set g"
  shows "f x \<le> f (last g)"
proof -
  have "g \<noteq> []" using assms(2) by auto
  then obtain ys y where g: "g = ys @ [y]" by (metis append_butlast_last_id)
  then show ?thesis using assms by (auto simp: sorted_wrt_append less_imp_le)
qed

lemma sorted_groups:
  assumes "strictly_sorted (map f (concat gs))" and "[] \<notin> set gs"
  shows "strictly_sorted (map (\<lambda>g. f (last g)) gs)"
  using assms
proof (induction gs)
  case (Cons g gs)
  have "f (last g) < f (last g')" if "g' \<in> set gs" for g'
  proof -
    have "last g \<in> set g" "last g' \<in> set (concat gs)" using that Cons.prems(2) by (auto intro!: bexI[of _ g'] last_in_set)
    then show ?thesis using Cons.prems(1) by (auto simp: sorted_wrt_append)
  qed
  then show ?case using Cons by (auto simp: sorted_wrt_append)
qed simp

lemma length_le_concat: "[] \<notin> set gs \<Longrightarrow> length gs \<le> length (concat gs)"
proof (induction gs)
  case (Cons g gs)
  then have "1 \<le> length g" by (cases g) auto
  then show ?case using Cons by simp
qed simp

section \<open>Levels\<close>

abbreviation p_up :: "(bytes \<Rightarrow> hash) \<Rightarrow> nat \<Rightarrow> pentry list \<Rightarrow> pentry" where
  "p_up H l g \<equiv> up_entry H (p_node l g)"

primrec p_lev :: "(bytes \<Rightarrow> hash) \<Rightarrow> brule \<Rightarrow> pentry list \<Rightarrow> nat \<Rightarrow> pentry list" where
  "p_lev H r E 0 = E"
| "p_lev H r E (Suc l) = map (p_up H l) (p_chop_all H r l (p_lev H r E l))"

definition p_gs :: "(bytes \<Rightarrow> hash) \<Rightarrow> brule \<Rightarrow> pentry list \<Rightarrow> nat \<Rightarrow> pentry list list" where
  "p_gs H r E l = p_chop_all H r l (p_lev H r E l)"

text \<open>The root: the tree drawn upwards until a level has one node.\<close>

function p_top :: "(bytes \<Rightarrow> hash) \<Rightarrow> brule \<Rightarrow> nat \<Rightarrow> pentry list \<Rightarrow> pnode" where
  "p_top H r l es =
     (let gs = p_chop_all H r l es in
      if length gs \<le> 1 then p_node l es else p_top H r (Suc l) (map (p_up H l) gs))"
  by pat_completeness auto
termination p_top
proof (relation "measure (\<lambda>(H, r, l, es). 2 * length es + (if l = 0 then 1 else 0))", goal_cases)
  case (2 H r l es gs)
  have ne: "g \<noteq> []" if "g \<in> set gs" for g using that 2 by (auto dest: chop_all_nonempty)
  have c: "concat gs = es" using 2 by (simp add: chop_all_concat)
  have "length gs \<le> length (concat gs)" using ne length_le_concat by blast
  moreover have "1 \<le> l \<Longrightarrow> 2 * length gs \<le> length es + 1" unfolding 2(1) by (rule chop_all_halves)
  ultimately show ?case using 2 c by auto
qed simp

declare p_top.simps [simp del]

definition p_root :: "(bytes \<Rightarrow> hash) \<Rightarrow> brule \<Rightarrow> pentry list \<Rightarrow> pnode" where
  "p_root H r E = p_top H r 0 E"

lemma p_lev_Suc [simp]: "p_lev H r E (Suc l) = map (p_up H l) (p_gs H r E l)"
  by (simp add: p_gs_def)

declare p_lev.simps(2) [simp del]

lemma concat_p_gs [simp]: "concat (p_gs H r E l) = p_lev H r E l"
  by (simp add: p_gs_def chop_all_concat)

lemma p_gs_nonempty: "g \<in> set (p_gs H r E l) \<Longrightarrow> g \<noteq> []"
  by (auto simp: p_gs_def dest: chop_all_nonempty)

lemma p_gs_subset: "g \<in> set (p_gs H r E l) \<Longrightarrow> set g \<subseteq> set (p_lev H r E l)"
  using concat_p_gs[of H r E l] by (metis set_concat UN_upper)

lemma length_p_gs_le: "length (p_gs H r E l) \<le> length (p_lev H r E l)"
  using length_le_concat[of "p_gs H r E l"] p_gs_nonempty[of _ H r E l] by fastforce

lemma p_lev_eq_Nil [simp]: "p_lev H r E l = [] \<longleftrightarrow> E = []"
  by (induction l) (simp_all add: p_gs_def)

lemma p_gs_eq_Nil [simp]: "p_gs H r E l = [] \<longleftrightarrow> E = []"
  by (simp add: p_gs_def)

text \<open>Once a level has one node, every level above has one entry and one node.\<close>

lemma p_gs_single: "length (p_gs H r E l) \<le> 1 \<Longrightarrow> l \<le> k \<Longrightarrow> length (p_gs H r E k) \<le> 1"
proof (induction k)
  case (Suc k)
  show ?case
  proof (cases "l = Suc k")
    case False
    then have "length (p_gs H r E k) \<le> 1" using Suc by simp
    then have "length (p_lev H r E (Suc k)) \<le> 1" by (simp add: p_lev_Suc)
    then show ?thesis using length_p_gs_le[of H r E "Suc k"] by simp
  qed (use Suc in simp)
qed simp

lemma p_top_level: "length (p_gs H r E h) \<le> 1 \<Longrightarrow> (\<And>l. l < h \<Longrightarrow> \<not> length (p_gs H r E l) \<le> 1) \<Longrightarrow> l \<le> h \<Longrightarrow>
    p_top H r l (p_lev H r E l) = p_node h (p_lev H r E h)"
proof (induction "h - l" arbitrary: l)
  case 0
  then show ?case by (subst p_top.simps) (simp add: p_gs_def)
next
  case (Suc k)
  then have "\<not> length (p_gs H r E l) \<le> 1" "l < h" by auto
  then have "p_top H r l (p_lev H r E l) = p_top H r (Suc l) (p_lev H r E (Suc l))"
    by (subst p_top.simps) (simp add: p_gs_def Let_def)
  then show ?case using Suc.hyps(1)[of "Suc l"] Suc.hyps(2) Suc.prems \<open>l < h\<close> by simp
qed

definition p_height :: "(bytes \<Rightarrow> hash) \<Rightarrow> brule \<Rightarrow> pentry list \<Rightarrow> nat" where
  "p_height H r E = n_level (p_root H r E)"

lemma length_p_lev: "length (p_lev H r E (Suc l)) - 1 \<le> (length E - 1) div 2 ^ l"
proof (induction l)
  case 0
  then show ?case using length_p_gs_le[of H r E 0] by (simp add: p_gs_def diff_le_mono)
next
  case (Suc l)
  let ?a = "length (p_lev H r E (Suc l))"
  have "2 * length (p_gs H r E (Suc l)) \<le> ?a + 1" unfolding p_gs_def by (rule chop_all_halves) simp
  then have "length (p_lev H r E (Suc (Suc l))) - 1 \<le> (?a - 1) div 2" by (simp only: p_lev_Suc[of H r E "Suc l"] length_map)
  also have "\<dots> \<le> (length E - 1) div 2 ^ l div 2" using Suc by (rule div_le_mono)
  also have "\<dots> = (length E - 1) div 2 ^ Suc l" by (simp only: power_Suc2 div_mult2_eq)
  finally show ?case .
qed

lemma p_height_exists:
  assumes "length E \<le> 2 ^ 62"
  shows "length (p_gs H r E 62) \<le> 1"
proof -
  have "(length E - 1) div 2 ^ 62 = 0" using assms by auto
  then have "length (p_lev H r E (Suc 62)) \<le> 1" using length_p_lev[of H r E 62] by linarith
  then show ?thesis by (simp only: p_lev_Suc length_map)
qed

lemma p_height:
  assumes "length E \<le> 2 ^ 62"
  shows "p_root H r E = p_node (p_height H r E) (p_lev H r E (p_height H r E))"
    and "length (p_gs H r E (p_height H r E)) \<le> 1" and "l < p_height H r E \<Longrightarrow> 1 < length (p_gs H r E l)"
    and "p_height H r E \<le> 62"
proof -
  let ?P = "\<lambda>l. length (p_gs H r E l) \<le> 1"
  define h where "h = (LEAST l. ?P l)"
  have h: "?P h" "\<And>l. l < h \<Longrightarrow> \<not> ?P l" "h \<le> 62"
    unfolding h_def using p_height_exists[OF assms, of H r] by (auto intro: LeastI Least_le dest: not_less_Least)
  have root: "p_root H r E = p_node h (p_lev H r E h)"
    using p_top_level[of H r E h 0] h by (simp add: p_root_def)
  then have "p_height H r E = h" by (simp add: p_height_def)
  with root h show "p_root H r E = p_node (p_height H r E) (p_lev H r E (p_height H r E))"
    "length (p_gs H r E (p_height H r E)) \<le> 1" "l < p_height H r E \<Longrightarrow> 1 < length (p_gs H r E l)" "p_height H r E \<le> 62"
    by (auto simp: not_le)
qed

section \<open>What the nodes are like\<close>

text \<open>Entries a map may hold, and the number of leaf entries an entry stands for.\<close>

definition p_ok :: "int \<Rightarrow> pentry list \<Rightarrow> bool" where
  "p_ok inl E \<longleftrightarrow> list_all (pentry_ok 0 inl) E \<and> strictly_sorted (map p_key E) \<and> length E \<le> 2 ^ 62"

definition e_leaves :: "nat \<Rightarrow> pentry \<Rightarrow> nat" where
  "e_leaves l e = (if l = 0 then 1 else unat (p_count e))"

lemma e_leaves_0 [simp]: "e_leaves 0 = (\<lambda>_. 1)"
  by (auto simp: e_leaves_def)

lemma e_leaves_pos_level [simp]: "0 < l \<Longrightarrow> e_leaves l = (\<lambda>e. unat (p_count e))"
  by (auto simp: e_leaves_def)

lemma unat_n_total:
  assumes "sum_list (map (e_leaves l) g) < 2 ^ 64"
  shows "unat (n_total (p_node l g)) = sum_list (map (e_leaves l) g)"
proof (cases "l = 0")
  case True
  then show ?thesis using assms by (simp add: n_total_def unat_of_nat_small sum_list_triv)
next
  case False
  then show ?thesis using assms
  proof (induction g)
    case (Cons e g)
    then have i: "unat (sum_list (map p_count g)) = sum_list (map (e_leaves l) g)" by (simp add: n_total_def)
    then have "unat (p_count e) + unat (sum_list (map p_count g)) < 2 ^ LENGTH(64)" using Cons.prems by (simp add: e_leaves_def)
    then show ?case using Cons.prems(1) i by (simp add: n_total_def unat_add_small)
  qed (simp add: n_total_def)
qed

lemma e_leaves_pos: "pentry_ok l inl e \<Longrightarrow> 1 \<le> e_leaves l e"
  by (cases "l = 0") (auto simp: pentry_ok_def Suc_le_eq unat_gt_0)

lemma sum_leaves_concat: "sum_list (map f (concat gs)) = sum_list (map (\<lambda>g. sum_list (map f g)) gs)" for f :: "'a \<Rightarrow> nat"
  by (induction gs) simp_all

lemma sum_list_member_le: "x \<in> set xs \<Longrightarrow> f x \<le> sum_list (map f xs)" for f :: "'a \<Rightarrow> nat"
  by (induction xs) auto

lemma group_leaves: "g \<in> set (p_gs H r E l) \<Longrightarrow> sum_list (map (e_leaves l) g) \<le> sum_list (map (e_leaves l) (p_lev H r E l))"
  using sum_leaves_concat[of "e_leaves l" "p_gs H r E l"] sum_list_member_le[of g "p_gs H r E l" "\<lambda>g. sum_list (map (e_leaves l) g)"] by simp

lemma p_lev_ok:
  assumes "p_ok inl E"
  shows "list_all (pentry_ok l inl) (p_lev H r E l) \<and> strictly_sorted (map p_key (p_lev H r E l))
    \<and> sum_list (map (e_leaves l) (p_lev H r E l)) = length E"
proof (induction l)
  case 0
  then show ?case using assms by (simp add: p_ok_def e_leaves_def sum_list_triv)
next
  case (Suc l)
  let ?gs = "p_gs H r E l"
  have t: "unat (n_total (p_node l g)) = sum_list (map (e_leaves l) g)" if "g \<in> set ?gs" for g
    using group_leaves[OF that] Suc assms by (intro unat_n_total) (simp add: p_ok_def)
  have "pentry_ok (Suc l) inl (p_up H l g)" if g: "g \<in> set ?gs" for g
  proof -
    have l: "last g \<in> set g" using p_gs_nonempty[OF g] by simp
    then have k: "pentry_ok l inl (last g)" using p_gs_subset[OF g] Suc by (auto simp: list_all_iff)
    then have "1 \<le> sum_list (map (e_leaves l) g)" using e_leaves_pos[OF k] sum_list_member_le[OF l, of "e_leaves l"] by linarith
    then have "n_total (p_node l g) \<noteq> 0" using t[OF g] by (metis not_one_le_zero unat_0)
    then show ?thesis using k by (simp add: pentry_ok_def up_entry_def n_lastKey_def)
  qed
  moreover have "strictly_sorted (map (\<lambda>g. p_key (last g)) ?gs)"
    using sorted_groups[of p_key ?gs] Suc p_gs_nonempty[of _ H r E l] by fastforce
  moreover have "map (e_leaves (Suc l)) (p_lev H r E (Suc l)) = map (\<lambda>g. sum_list (map (e_leaves l) g)) ?gs"
    using t by (auto simp: up_entry_def)
  then have "sum_list (map (e_leaves (Suc l)) (p_lev H r E (Suc l))) = length E"
    using Suc sum_leaves_concat[of "e_leaves l" ?gs] by (metis concat_p_gs)
  ultimately show ?case
    using Suc by (auto simp: list_all_iff up_entry_def n_lastKey_def o_def)
qed

lemmas p_lev_entries = p_lev_ok[THEN conjunct1]
lemmas p_lev_sorted = p_lev_ok[THEN conjunct2, THEN conjunct1]
lemmas p_lev_leaves = p_lev_ok[THEN conjunct2, THEN conjunct2]

lemma p_lev_sub_ok:
  assumes "p_ok inl E" and "p_lev H r E l = xs @ g @ ys" and "l \<le> maxLevel" and "l > 0 \<longrightarrow> g \<noteq> []"
  shows "pnode_ok inl (p_node l g)"
proof -
  have "counts_sum g \<le> (if l = 0 then 0 else sum_list (map (e_leaves l) (p_lev H r E l)))"
    using p_lev_entries[OF assms(1), of l H r] unfolding assms(2)
    by (cases "l = 0") (auto simp: counts_sum_def list_all_iff pentry_ok_def)
  then have "counts_sum g < 2 ^ 64"
    using p_lev_leaves[OF assms(1), of l H r] assms(1) by (simp add: p_ok_def split: if_splits)
  then show ?thesis
    using assms p_lev_entries[OF assms(1), of l H r] p_lev_sorted[OF assms(1), of H r l]
    by (auto simp: pnode_ok_def sorted_wrt_append)
qed

lemma p_group_ok:
  assumes "p_ok inl E" and "g \<in> set (p_gs H r E l)" and "l \<le> maxLevel"
  shows "pnode_ok inl (p_node l g)"
proof -
  obtain as bs where "p_gs H r E l = as @ g # bs" using assms(2) by (meson split_list)
  then have "p_lev H r E l = concat as @ g @ concat bs" using concat_p_gs[of H r E l] by simp
  then show ?thesis using p_lev_sub_ok[OF assms(1) _ assms(3)] p_gs_nonempty[OF assms(2)] by blast
qed

lemma unat_group_total:
  assumes "p_ok inl E" and "g \<in> set (p_gs H r E l)"
  shows "unat (n_total (p_node l g)) = sum_list (map (e_leaves l) g)"
  using group_leaves[OF assms(2)] p_lev_leaves[OF assms(1), of l H r] assms(1) by (intro unat_n_total) (simp add: p_ok_def)

section \<open>Nodes fit a chunk\<close>

lemma length_n_encode_sizes:
  "int (length (n_encode n)) \<le> 12 + sum_list (map (p_entrySize (n_level n)) (n_entries n))"
proof -
  have "int (length (concat (map (put_pentry lv) es))) = sum_list (map (p_entrySize lv) es)" for lv es
    by (induction es) (simp_all add: p_entrySize_length)
  then show ?thesis using length_put_Uvarint_le[of "of_nat (length (n_entries n))"] by (simp add: n_encode_def put_U8_def)
qed

lemma p_entrySize_le:
  assumes "pentry_ok l inl e" and "0 \<le> inl"
  shows "0 \<le> p_entrySize l e \<and> p_entrySize l e \<le> (if l = 0 then inl else 0) + 4160"
  using assms length_put_Uvarint_le[of "of_nat (length (p_key e))"] length_put_Uvarint_le[of "p_count e"]
    length_put_Uvarint_le[of "of_nat (length (v_inline (p_val e)))"] length_put_Uvarint_le[of "sr_Size (the (v_ref (p_val e)))"]
  by (auto simp: p_entrySize_def uvarintLen_length pentry_ok_def pvalue_ok_def MaxKeySize_def Let_def split: option.splits)

lemma p_group_fits:
  assumes "boundary_New g0 = Inr r" and "0 \<le> inl" and "inl \<le> maxInlineLimit"
    and "list_all (pentry_ok l inl) es" and "g \<in> set (p_chop_all H r l es)"
  shows "length (n_encode (p_node l g)) \<le> MaxChunkSize"
proof -
  let ?m = "(if l = 0 then inl else 0) + 4160"
  have "sum_list (map (p_entrySize l) g) \<le> (if l = 0 then g_Max g0 else max (g_Max g0) ?m) + ?m"
    using p_entrySize_le[OF _ assms(2), of l] assms(2,4)
    by (intro chop_all_bound[OF assms(1) _ _ assms(5)]) (auto simp: list_all_iff)
  moreover have "g_Max g0 \<le> 32 * 2 ^ 10" using geometry_ValidateD[OF boundary_NewD(1)[OF assms(1)]] by auto
  ultimately have "int (length (n_encode (p_node l g))) \<le> int MaxChunkSize"
    using length_n_encode_sizes[of "p_node l g"] assms(2,3) by (auto simp: MaxChunkSize_def maxInlineLimit_def split: if_splits)
  then show ?thesis by simp
qed

end
