(* ===== verification/ProllyRead.thy ===== *)
theory ProllyRead
  imports ProllyTree
begin

text \<open>
  Reading a stored tree: \<^verbatim>\<open>Get\<close>, the cursors of \<^verbatim>\<open>cursor.go\<close> and the iterator, over a map whose
  nodes are those of the tree its entries draw. A cursor is a position in its level, so moving it
  is counting, and each read returns what the entries say.
\<close>

section \<open>Positions in a list of groups\<close>

definition goff :: "'a list list \<Rightarrow> nat \<Rightarrow> nat" where
  "goff gs a = length (concat (take a gs))"

lemma goff_0 [simp]: "goff gs 0 = 0"
  by (simp add: goff_def)

lemma goff_Suc: "a < length gs \<Longrightarrow> goff gs (Suc a) = goff gs a + length (gs ! a)"
  by (simp add: goff_def take_Suc_conv_app_nth)

lemma goff_all: "length gs \<le> a \<Longrightarrow> goff gs a = length (concat gs)"
  by (simp add: goff_def)

lemma concat_split_at: "a < length gs \<Longrightarrow> concat gs = concat (take a gs) @ gs ! a @ concat (drop (Suc a) gs)"
  by (metis concat.simps(2) concat_append id_take_nth_drop)

lemma goff_nth:
  assumes "a < length gs" and "i < length (gs ! a)"
  shows "concat gs ! (goff gs a + i) = gs ! a ! i" and "goff gs a + i < length (concat gs)"
  using assms by (simp_all add: concat_split_at[OF assms(1)] goff_def nth_append)

lemma goff_last:
  assumes "[] \<notin> set gs" and "a < length gs"
  shows "goff gs a + length (gs ! a) = length (concat gs) \<longleftrightarrow> Suc a = length gs"
proof -
  have "concat (drop (Suc a) gs) = [] \<longleftrightarrow> length gs \<le> Suc a"
    using assms(1) set_drop_subset[of "Suc a" gs] by (cases "drop (Suc a) gs") auto
  moreover have "length (concat gs) = goff gs a + length (gs ! a) + length (concat (drop (Suc a) gs))"
    by (simp add: concat_split_at[OF assms(2)] goff_def)
  ultimately show ?thesis using assms(2) by (metis add_cancel_right_right le_antisym length_0_conv Suc_leI)
qed

lemma groups_apart:
  assumes "strictly_sorted (map f (concat gs))" and "a < b" and "b < length gs" and "x \<in> set (gs ! a)" and "y \<in> set (gs ! b)"
  shows "f x < f y"
proof -
  have "concat gs = concat (take b gs) @ gs ! b @ concat (drop (Suc b) gs)" using assms(3) by (rule concat_split_at)
  moreover have "x \<in> set (concat (take b gs))" using nth_mem[of a "take b gs"] assms(2-4) by auto
  ultimately show ?thesis using assms(1,5) by (auto simp: sorted_wrt_append)
qed

section \<open>Counting keys\<close>

definition kcnt :: "bytes \<Rightarrow> pentry list \<Rightarrow> nat" where
  "kcnt key es = length (takeWhile (\<lambda>e. p_key e < key) es)"

lemma kcnt_le: "kcnt key es \<le> length es"
  by (simp add: kcnt_def length_takeWhile_le)

lemma kcnt_below: "(\<And>e. e \<in> set es \<Longrightarrow> p_key e < key) \<Longrightarrow> kcnt key (es @ fs) = length es + kcnt key fs"
  by (simp add: kcnt_def)

lemma kcnt_above: "e \<in> set es \<Longrightarrow> \<not> p_key e < key \<Longrightarrow> kcnt key (es @ fs) = kcnt key es \<and> kcnt key es < length es"
  by (induction es) (auto simp: kcnt_def)

lemma kcnt_nth:
  assumes "strictly_sorted (map p_key es)" and "i < length es"
  shows "p_key (es ! i) < key \<longleftrightarrow> i < kcnt key es"
proof
  assume "i < kcnt key es"
  then show "p_key (es ! i) < key" unfolding kcnt_def by (metis nth_mem set_takeWhileD takeWhile_nth)
next
  assume k: "p_key (es ! i) < key"
  show "i < kcnt key es"
  proof (rule ccontr)
    assume "\<not> i < kcnt key es"
    then have c: "kcnt key es \<le> i" by simp
    then have n: "\<not> p_key (es ! kcnt key es) < key" using assms(2) unfolding kcnt_def by (intro nth_length_takeWhile) auto
    have "p_key (es ! kcnt key es) \<le> p_key (es ! i)"
      using c assms sorted_wrt_nth_less[OF assms(1), of "kcnt key es" i] by (cases "kcnt key es = i") auto
    then show False using n k by simp
  qed
qed

lemma pn_search_kcnt:
  assumes "strictly_sorted (map p_key (n_entries n))"
  shows "pn_search n key = kcnt key (n_entries n)"
  unfolding pn_search_def using kcnt_nth[OF assms] kcnt_le[of key "n_entries n"]
  by (intro sort_Search_eq) (auto simp: not_less[symmetric])

section \<open>A stored tree\<close>

abbreviation mlev :: "(bytes \<Rightarrow> hash) \<Rightarrow> pmap \<Rightarrow> pentry list \<Rightarrow> nat \<Rightarrow> pentry list" where
  "mlev H m \<equiv> p_lev H (pm_rule m)"

abbreviation mgs :: "(bytes \<Rightarrow> hash) \<Rightarrow> pmap \<Rightarrow> pentry list \<Rightarrow> nat \<Rightarrow> pentry list list" where
  "mgs H m \<equiv> p_gs H (pm_rule m)"

abbreviation mhgt :: "(bytes \<Rightarrow> hash) \<Rightarrow> pmap \<Rightarrow> pentry list \<Rightarrow> nat" where
  "mhgt H m \<equiv> p_height H (pm_rule m)"

text \<open>The map has the tree of the entries \<open>E\<close>, and every node below its root can be read.\<close>

definition p_held :: "(bytes \<Rightarrow> hash) \<Rightarrow> ('s, 'z) rw_scheme \<Rightarrow> 's \<Rightarrow> pmap \<Rightarrow> pentry list \<Rightarrow> bool" where
  "p_held H ops s m E \<longleftrightarrow> p_ok (pc_InlineLimit (pm_cfg m)) E \<and> pm_top m = Some (p_root H (pm_rule m) E) \<and>
     (\<forall>l < mhgt H m E. \<forall>g \<in> set (mgs H m E l). m_read ops s m (H (n_encode (p_node l g))) = Inr (p_node l g))"

lemma p_held_ok: "p_held H ops s m E \<Longrightarrow> p_ok (pc_InlineLimit (pm_cfg m)) E"
  by (simp add: p_held_def)

lemma p_ok_length: "p_ok inl E \<Longrightarrow> length E \<le> 2 ^ 62"
  by (simp add: p_ok_def)

lemmas p_held_length = p_ok_length[OF p_held_ok]
lemmas p_held_sorted = p_lev_sorted[OF p_held_ok]
lemmas p_held_height = p_height[OF p_held_length]

lemma read_root:
  assumes "p_held H ops s m E"
  shows "m_read ops s m (pm_root m) = Inr (p_node (mhgt H m E) (mlev H m E (mhgt H m E)))"
proof -
  have "pm_top m = Some (p_root H (pm_rule m) E)" using assms by (simp add: p_held_def)
  then show ?thesis unfolding m_read_def p_held_height(1)[OF assms, symmetric] by simp
qed

lemma top_group:
  assumes "p_held H ops s m E" and "E \<noteq> []"
  shows "mgs H m E (mhgt H m E) = [mlev H m E (mhgt H m E)]"
proof -
  have "length (mgs H m E (mhgt H m E)) \<le> 1" "mgs H m E (mhgt H m E) \<noteq> []"
    using p_held_height(2)[OF assms(1)] assms(2) by auto
  then obtain g where "mgs H m E (mhgt H m E) = [g]" by (cases "mgs H m E (mhgt H m E)") auto
  moreover from this have "g = mlev H m E (mhgt H m E)" using concat_p_gs[of H "pm_rule m" E "mhgt H m E"] by simp
  ultimately show ?thesis by simp
qed

lemma group_sorted: "p_held H ops s m E \<Longrightarrow> g \<in> set (mgs H m E l) \<Longrightarrow> strictly_sorted (map p_key g)"
proof -
  assume a: "p_held H ops s m E" "g \<in> set (mgs H m E l)"
  obtain as bs where "mgs H m E l = as @ g # bs" using a(2) by (meson split_list)
  then have "mlev H m E l = concat as @ g @ concat bs" using concat_p_gs[of H "pm_rule m" E l] by simp
  then show ?thesis using p_held_sorted[OF a(1), of H "pm_rule m" l] by (simp add: sorted_wrt_append)
qed

text \<open>The child an entry names is the node it was drawn from.\<close>

lemma child_at:
  assumes "p_held H ops s m E" and "l < mhgt H m E" and "a < length (mgs H m E (Suc l))"
    and "i < length (mgs H m E (Suc l) ! a)" and "b = goff (mgs H m E (Suc l)) a + i"
  shows "m_child ops s m (p_node (Suc l) (mgs H m E (Suc l) ! a)) i = Inr (p_node l (mgs H m E l ! b))"
proof -
  let ?G = "mgs H m E (Suc l) ! a" and ?g = "mgs H m E l ! b"
  have nth: "?G ! j = mlev H m E (Suc l) ! (goff (mgs H m E (Suc l)) a + j)"
    "goff (mgs H m E (Suc l)) a + j < length (mgs H m E l)" if "j < length ?G" for j
    using goff_nth[OF assms(3) that] by simp_all
  have b: "b < length (mgs H m E l)" "?G ! i = p_up H l ?g" using nth[OF assms(4)] assms(5) by simp_all
  then have g: "?g \<in> set (mgs H m E l)" by simp
  note ne = p_gs_nonempty[OF g]
  have prev: "p_key (?G ! (i - 1)) < p_key (?g ! 0)" if "i > 0"
  proof -
    have i: "i - 1 < length ?G" "goff (mgs H m E (Suc l)) a + (i - 1) = b - 1" "b - 1 < b" using that assms(4,5) by auto
    then have e: "?G ! (i - 1) = p_up H l (mgs H m E l ! (b - 1))" using nth[OF i(1)] by simp
    have "mgs H m E l ! (b - 1) \<noteq> []" using b(1) i(3) by (intro p_gs_nonempty[of _ H "pm_rule m" E l]) simp
    then show ?thesis unfolding e
      using groups_apart[OF _ i(3) b(1), of p_key "last (mgs H m E l ! (b - 1))" "?g ! 0"] p_held_sorted[OF assms(1), of H "pm_rule m" l] ne
      by (simp add: up_entry_def n_lastKey_def)
  qed
  have "m_read ops s m (H (n_encode (p_node l ?g))) = Inr (p_node l ?g)" using assms(1,2) g by (simp add: p_held_def)
  then show ?thesis using b(2) ne prev by (auto simp: m_child_def checkChild_def up_entry_def n_lastKey_def result_simps)
qed

section \<open>Moving a cursor\<close>

text \<open>The cursor stands at entry \<open>pos\<close> of level \<open>l\<close>, its parents at the node it is in, up to the root.\<close>

fun c_at :: "(bytes \<Rightarrow> hash) \<Rightarrow> pmap \<Rightarrow> pentry list \<Rightarrow> nat \<Rightarrow> nat \<Rightarrow> cursor \<Rightarrow> bool" where
  "c_at H m E l pos [] \<longleftrightarrow> False"
| "c_at H m E l pos (f # ps) \<longleftrightarrow> \<not> cf_end f \<and> (\<exists>a < length (mgs H m E l). cf_n f = p_node l (mgs H m E l ! a) \<and>
     cf_i f < length (mgs H m E l ! a) \<and> pos = goff (mgs H m E l) a + cf_i f \<and>
     (if l = mhgt H m E then ps = [] else c_at H m E (Suc l) a ps))"

definition c_done :: "cursor \<Rightarrow> bool" where
  "c_done c \<longleftrightarrow> c \<noteq> [] \<and> cf_end (hd c)"

lemma c_done_invalid: "c_done c \<Longrightarrow> \<not> c_valid c"
  by (simp add: c_done_def c_valid_def)

lemma c_at_valid: "c_at H m E l pos c \<Longrightarrow> c_valid c \<and> pos < length (mlev H m E l) \<and> c_current c = mlev H m E l ! pos"
  using goff_nth[of _ "mgs H m E l"] by (cases c) (auto simp: c_valid_def c_current_def)

lemma c_at_level: "c_at H m E l pos c \<Longrightarrow> l \<le> mhgt H m E"
  by (induction c arbitrary: l pos) (auto split: if_splits dest!: Suc_leD)

lemma nonempty_groups: "[] \<notin> set (mgs H m E l)"
  using p_gs_nonempty[of _ H "pm_rule m" E l] by blast

text \<open>Leaving node \<open>a\<close>, given what advancing the parents does.\<close>

lemma c_next_at:
  assumes "p_held H ops s m E" and "cf_n f = p_node l (mgs H m E l ! a)" and "\<not> cf_end f" and "a < length (mgs H m E l)"
    and "if l = mhgt H m E then ps = [] else l < mhgt H m E \<and> ps \<noteq> [] \<and> (\<exists>ps'. adv = (Inr (), ps') \<and>
      (if Suc a < length (mgs H m E l) then c_at H m E (Suc l) (Suc a) ps' else c_done ps'))"
  shows "\<exists>c'. c_next ops s m f ps adv = (Inr (), c') \<and>
    (if Suc a < length (mgs H m E l) then c_at H m E l (goff (mgs H m E l) (Suc a)) c' else c_done c')"
proof (cases "l = mhgt H m E")
  case True
  have "E \<noteq> []" using assms(4) by (metis length_greater_0_conv less_nat_zero_code list.size(3) p_gs_eq_Nil)
  then have "length (mgs H m E l) = 1" using top_group[OF assms(1)] True by simp
  then show ?thesis using True assms(5) by (simp add: c_next_def c_done_def)
next
  case l: False
  then obtain ps' where ps: "ps \<noteq> []" "l < mhgt H m E" "adv = (Inr (), ps')"
    "if Suc a < length (mgs H m E l) then c_at H m E (Suc l) (Suc a) ps' else c_done ps'" using assms(5) by auto
  show ?thesis
  proof (cases "Suc a < length (mgs H m E l)")
    case False
    then show ?thesis using ps by (simp add: c_next_def c_done_invalid) (simp add: c_done_def)
  next
    case True
    then have at: "c_at H m E (Suc l) (Suc a) ps'" using ps(4) by simp
    then obtain f' qs b where f': "ps' = f' # qs" "b < length (mgs H m E (Suc l))" "cf_n f' = p_node (Suc l) (mgs H m E (Suc l) ! b)"
      "cf_i f' < length (mgs H m E (Suc l) ! b)" "Suc a = goff (mgs H m E (Suc l)) b + cf_i f'" by (cases ps') auto
    have "c_fetch ops s m f ps' = (Inr (), f\<lparr>cf_n := p_node l (mgs H m E l ! Suc a), cf_i := 0\<rparr> # ps')"
      using child_at[OF assms(1) ps(2) f'(2,4,5)] f'(1,3) by (simp add: c_fetch_def)
    moreover have "0 < length (mgs H m E l ! Suc a)" using True p_gs_nonempty[of "mgs H m E l ! Suc a" H "pm_rule m" E l] by simp
    ultimately show ?thesis
      using True at ps l c_at_valid[OF at] assms(3) by (auto simp: c_next_def)
  qed
qed

lemma c_advance_at:
  assumes "p_held H ops s m E" and "c_at H m E l pos c"
  shows "\<exists>c'. c_advance ops s m c = (Inr (), c') \<and> (if Suc pos < length (mlev H m E l) then c_at H m E l (Suc pos) c' else c_done c')"
  using assms(2)
proof (induction c arbitrary: l pos)
  case (Cons f ps)
  obtain a where a: "\<not> cf_end f" "a < length (mgs H m E l)" "cf_n f = p_node l (mgs H m E l ! a)"
    "cf_i f < length (mgs H m E l ! a)" "pos = goff (mgs H m E l) a + cf_i f"
    and ps: "if l = mhgt H m E then ps = [] else c_at H m E (Suc l) a ps" using Cons.prems by auto
  show ?case
  proof (cases "Suc (cf_i f) < length (mgs H m E l ! a)")
    case True
    have "Suc pos < length (mlev H m E l)" using goff_nth(2)[OF a(2) True] a(5) by simp
    then show ?thesis using True a ps by auto
  next
    case False
    let ?f = "f\<lparr>cf_i := Suc (cf_i f)\<rparr>"
    have off: "Suc pos = goff (mgs H m E l) a + length (mgs H m E l ! a)" "Suc pos = goff (mgs H m E l) (Suc a)"
      using False a goff_Suc[OF a(2)] by simp_all
    have fin: "Suc pos < length (mlev H m E l) \<longleftrightarrow> Suc a < length (mgs H m E l)"
      using goff_last[OF nonempty_groups a(2)] a(2) off(1) c_at_valid[OF Cons.prems] by (metis Suc_lessI concat_p_gs less_irrefl_nat)
    have "\<exists>c'. c_next ops s m ?f ps (c_advance ops s m ps) = (Inr (), c') \<and>
        (if Suc a < length (mgs H m E l) then c_at H m E l (goff (mgs H m E l) (Suc a)) c' else c_done c')"
    proof (rule c_next_at[OF assms(1)])
      show "if l = mhgt H m E then ps = [] else l < mhgt H m E \<and> ps \<noteq> [] \<and> (\<exists>ps'. c_advance ops s m ps = (Inr (), ps') \<and>
          (if Suc a < length (mgs H m E l) then c_at H m E (Suc l) (Suc a) ps' else c_done ps'))"
        using Cons.IH[of "Suc l" a] ps c_at_level[of H m E "Suc l" a ps]
        by (cases "l = mhgt H m E") (simp, fastforce simp: Suc_le_eq simp del: c_at.simps(2))
    qed (use a in auto)
    then show ?thesis using False a fin off(2) by (auto simp: Let_def)
  qed
qed simp

text \<open>The cursor is in node \<open>a\<close> of level \<open>l\<close>, wherever in it.\<close>

definition c_node :: "(bytes \<Rightarrow> hash) \<Rightarrow> pmap \<Rightarrow> pentry list \<Rightarrow> nat \<Rightarrow> nat \<Rightarrow> cursor \<Rightarrow> bool" where
  "c_node H m E l a c \<longleftrightarrow> c \<noteq> [] \<and> \<not> cf_end (hd c) \<and> a < length (mgs H m E l) \<and> cf_n (hd c) = p_node l (mgs H m E l ! a) \<and>
     (if l = mhgt H m E then tl c = [] else c_at H m E (Suc l) a (tl c))"

lemma c_at_node: "c_at H m E l pos c \<longleftrightarrow> (\<exists>a. c_node H m E l a c \<and> cf_i (hd c) < length (mgs H m E l ! a) \<and> pos = goff (mgs H m E l) a + cf_i (hd c))"
  by (cases c) (auto simp: c_node_def)

lemma c_nextNode_at:
  assumes "p_held H ops s m E" and "c_node H m E l a c"
  shows "\<exists>c'. c_nextNode ops s m c = (Inr (), c') \<and>
    (if Suc a < length (mgs H m E l) then c_at H m E l (goff (mgs H m E l) (Suc a)) c' else c_done c')"
  unfolding c_nextNode_def
proof (rule c_next_at[OF assms(1)])
  show "if l = mhgt H m E then tl c = [] else l < mhgt H m E \<and> tl c \<noteq> [] \<and> (\<exists>ps'. c_advance ops s m (tl c) = (Inr (), ps') \<and>
      (if Suc a < length (mgs H m E l) then c_at H m E (Suc l) (Suc a) ps' else c_done ps'))"
    using c_advance_at[OF assms(1), of "Suc l" a "tl c"] assms(2) c_at_level[of H m E "Suc l" a "tl c"]
    by (auto simp: c_node_def Suc_le_eq split: if_splits)
qed (use assms(2) in \<open>auto simp: c_node_def\<close>)

lemma goff_eq_nth:
  assumes "a < length gs" and "b < length gs" and "goff gs a + i = goff gs b + j" and "i < length (gs ! a)" and "j < length (gs ! b)"
  shows "a = b \<and> i = j"
proof -
  have mono: "goff gs x + length (gs ! x) \<le> goff gs y" if "x < y" "y < length gs" for x y
    using that
  proof (induction y)
    case (Suc y)
    then show ?case using goff_Suc[of y gs] by (cases "x = y") auto
  qed simp
  show ?thesis using mono[of a b] mono[of b a] assms by (cases a b rule: linorder_cases) auto
qed

lemma c_at_start:
  assumes "c_at H m E l (goff (mgs H m E l) a) c" and "a < length (mgs H m E l)"
  shows "c_node H m E l a c"
proof -
  obtain b where b: "c_node H m E l b c" "cf_i (hd c) < length (mgs H m E l ! b)" "goff (mgs H m E l) a = goff (mgs H m E l) b + cf_i (hd c)"
    using assms(1) by (auto simp: c_at_node)
  moreover have "b < length (mgs H m E l)" using b(1) by (simp add: c_node_def)
  moreover have "0 < length (mgs H m E l ! a)" using assms(2) p_gs_nonempty[of "mgs H m E l ! a" H "pm_rule m" E l] by simp
  ultimately show ?thesis using goff_eq_nth[OF assms(2), of b 0 "cf_i (hd c)"] by simp
qed

lemma c_lastNode_at:
  assumes "p_held H ops s m E" and "c_node H m E l a c"
  shows "c_lastNode c \<longleftrightarrow> Suc a = length (mgs H m E l)"
  using assms(2)
proof (induction c arbitrary: l a)
  case Nil
  then show ?case by (simp add: c_node_def)
next
  case (Cons f ps)
  show ?case
  proof (cases "l = mhgt H m E")
    case True
    then have "ps = []" "a < length (mgs H m E l)" using Cons.prems by (auto simp: c_node_def)
    moreover from this have "E \<noteq> []" by (metis length_greater_0_conv less_nat_zero_code list.size(3) p_gs_eq_Nil)
    ultimately show ?thesis using top_group[OF assms(1)] True by (simp add: c_lastNode_def)
  next
    case False
    then have "c_at H m E (Suc l) a ps" using Cons.prems by (simp add: c_node_def)
    then obtain b where b: "c_node H m E (Suc l) b ps" "cf_i (hd ps) < length (mgs H m E (Suc l) ! b)" "a = goff (mgs H m E (Suc l)) b + cf_i (hd ps)"
      by (auto simp: c_at_node)
    then have ps: "ps \<noteq> []" "length (n_entries (cf_n (hd ps))) = length (mgs H m E (Suc l) ! b)" "b < length (mgs H m E (Suc l))"
      by (auto simp: c_node_def)
    have "c_lastNode (f # ps) \<longleftrightarrow> \<not> Suc (cf_i (hd ps)) < length (mgs H m E (Suc l) ! b) \<and> c_lastNode ps"
      using ps(1,2) by (cases ps) (auto simp: c_lastNode_def)
    also have "\<dots> \<longleftrightarrow> Suc (cf_i (hd ps)) = length (mgs H m E (Suc l) ! b) \<and> Suc b = length (mgs H m E (Suc l))"
      using Cons.IH[OF b(1)] b(2) by auto
    also have "\<dots> \<longleftrightarrow> Suc a = length (mlev H m E (Suc l))"
      using goff_last[OF nonempty_groups ps(3)] goff_nth(2)[OF ps(3) b(2)] b(2,3) goff_all[of "mgs H m E (Suc l)" "Suc b"]
        goff_nth(2)[OF ps(3), of "Suc (cf_i (hd ps))"] by (auto simp del: p_lev_Suc)
    finally show ?thesis by simp
  qed
qed

section \<open>Finding a key\<close>

lemma kcnt_groups:
  assumes "[] \<notin> set gs" and "gs \<noteq> []" and "strictly_sorted (map p_key (concat gs))"
    and "a = min (length gs - 1) (length (takeWhile (\<lambda>g. p_key (last g) < key) gs))"
  shows "kcnt key (concat gs) = goff gs a + kcnt key (gs ! a) \<and> (Suc a < length gs \<longrightarrow> kcnt key (gs ! a) < length (gs ! a))"
  using assms
proof (induction gs arbitrary: a)
  case (Cons g gs)
  have g: "last g \<in> set g" using Cons.prems(1) by auto
  have s: "strictly_sorted (map p_key g)" "strictly_sorted (map p_key (concat gs))" using Cons.prems(3) by (auto simp: sorted_wrt_append)
  show ?case
  proof (cases "p_key (last g) < key")
    case True
    then have "p_key e < key" if "e \<in> set g" for e using sorted_last_le[OF s(1) that] by simp
    then have c: "kcnt key (g @ concat gs) = length g + kcnt key (concat gs)" by (rule kcnt_below)
    show ?thesis
    proof (cases "gs = []")
      case False
      let ?a = "min (length gs - 1) (length (takeWhile (\<lambda>g. p_key (last g) < key) gs))"
      have "a = Suc ?a" using Cons.prems(4) True False by (cases gs) auto
      then show ?thesis using c Cons.IH[OF _ False s(2) refl] Cons.prems(1) by (simp add: goff_def)
    qed (use Cons.prems(4) in simp)
  qed (use Cons.prems(4) kcnt_above[OF g] kcnt_above[OF g, of key "[]"] in simp)
qed simp

text \<open>The node of a level a search for \<open>key\<close> goes to: the first that ends at it or after it, or the last.\<close>

definition gpos :: "(bytes \<Rightarrow> hash) \<Rightarrow> pmap \<Rightarrow> pentry list \<Rightarrow> nat \<Rightarrow> bytes \<Rightarrow> nat" where
  "gpos H m E l key = min (length (mgs H m E l) - 1) (kcnt key (mlev H m E (Suc l)))"

lemma gpos_groups: "gpos H m E l key = min (length (mgs H m E l) - 1) (length (takeWhile (\<lambda>g. p_key (last g) < key) (mgs H m E l)))"
  by (simp add: gpos_def kcnt_def takeWhile_map up_entry_def n_lastKey_def o_def)

lemma gpos_less: "E \<noteq> [] \<Longrightarrow> gpos H m E l key < length (mgs H m E l)"
  using p_gs_eq_Nil[of H "pm_rule m" E l] by (cases "mgs H m E l") (auto simp: gpos_def)

lemma gpos_kcnt:
  assumes "p_held H ops s m E" and "E \<noteq> []"
  shows "kcnt key (mlev H m E l) = goff (mgs H m E l) (gpos H m E l key) + kcnt key (mgs H m E l ! gpos H m E l key)"
    and "Suc (gpos H m E l key) < length (mgs H m E l) \<Longrightarrow> kcnt key (mgs H m E l ! gpos H m E l key) < length (mgs H m E l ! gpos H m E l key)"
  using kcnt_groups[OF nonempty_groups, of H m E l "gpos H m E l key" key] p_held_sorted[OF assms(1), of H "pm_rule m" l] assms(2)
  by (simp_all add: gpos_groups)

lemma gpos_down:
  assumes "p_held H ops s m E" and "E \<noteq> []"
  shows "goff (mgs H m E (Suc l)) (gpos H m E (Suc l) key) +
      min (kcnt key (mgs H m E (Suc l) ! gpos H m E (Suc l) key)) (length (mgs H m E (Suc l) ! gpos H m E (Suc l) key) - 1) = gpos H m E l key"
proof -
  let ?a = "gpos H m E (Suc l) key" and ?gs = "mgs H m E (Suc l)"
  note a = gpos_less[OF assms(2), of H m "Suc l" key]
  have ne: "0 < length (?gs ! ?a)" using p_gs_nonempty[OF nth_mem[OF a]] by simp
  have tot: "goff ?gs ?a + (length (?gs ! ?a) - 1) < length (mgs H m E l)" 
    using goff_nth(2)[OF a, of "length (?gs ! ?a) - 1"] ne by (simp only: concat_p_gs p_lev_Suc length_map diff_less zero_less_one simp_thms)
  note k = gpos_kcnt[OF assms, where l = "Suc l" and key = key]
  show ?thesis
  proof (cases "kcnt key (?gs ! ?a) < length (?gs ! ?a)")
    case True
    then show ?thesis using k(1) tot by (simp add: gpos_def[of H m E l] del: p_lev_Suc)
  next
    case False
    then have f: "kcnt key (?gs ! ?a) = length (?gs ! ?a)" "Suc ?a = length ?gs" using kcnt_le[of key "?gs ! ?a"] k(2) a by linarith+
    then have "goff ?gs ?a + length (?gs ! ?a) = length (mgs H m E l)" using goff_last[OF nonempty_groups a] by simp
    then show ?thesis using k(1) f(1) ne unfolding gpos_def[of H m E l] by linarith
  qed
qed

lemma seek_from_at:
  assumes "p_held H ops s m E" and "E \<noteq> []"
  shows "level \<le> l \<Longrightarrow> l \<le> mhgt H m E \<Longrightarrow> (if l = mhgt H m E then ps = [] else c_at H m E (Suc l) (gpos H m E l key) ps) \<Longrightarrow>
    \<exists>c. m_seek_from ops s m level key (p_node l (mgs H m E l ! gpos H m E l key)) ps = Inr c \<and> c_node H m E level (gpos H m E level key) c \<and> cf_i (hd c) = 0"
proof (induction l arbitrary: ps)
  case 0
  then show ?case using gpos_less[OF assms(2), of H m 0 key] by (subst m_seek_from.simps) (auto simp: new_frame_def c_node_def)
next
  case (Suc l)
  let ?a = "gpos H m E (Suc l) key" and ?g = "mgs H m E (Suc l) ! gpos H m E (Suc l) key"
  note a = gpos_less[OF assms(2), of H m "Suc l" key]
  have g: "?g \<in> set (mgs H m E (Suc l))" using a by simp
  show ?case
  proof (cases "level = Suc l")
    case True
    then show ?thesis using Suc.prems a by (subst m_seek_from.simps) (auto simp: new_frame_def c_node_def)
  next
    case False
    let ?i = "min (kcnt key ?g) (length ?g - 1)"
    have i: "?i < length ?g" using p_gs_nonempty[OF g] by (cases ?g) auto
    have s: "pn_search (p_node (Suc l) ?g) key = kcnt key ?g" using pn_search_kcnt[of "p_node (Suc l) ?g"] group_sorted[OF assms(1) g] by simp
    have l: "l < mhgt H m E" using Suc.prems(2) by simp
    note down = gpos_down[OF assms, of l key]
    let ?ps = "(new_frame (p_node (Suc l) ?g))\<lparr>cf_i := ?i\<rparr> # ps"
    have "c_at H m E (Suc l) (gpos H m E l key) ?ps"
      unfolding c_at_node using a i Suc.prems(3) down by (intro exI[of _ ?a] conjI) (simp_all add: c_node_def new_frame_def)
    then obtain c where "m_seek_from ops s m level key (p_node l (mgs H m E l ! gpos H m E l key)) ?ps = Inr c"
      "c_node H m E level (gpos H m E level key) c" "cf_i (hd c) = 0"
      using Suc.IH[of ?ps] l False Suc.prems(1) by auto
    then show ?thesis
      using child_at[OF assms(1) l a i down[symmetric]] Suc.prems(1) False by (subst m_seek_from.simps) (simp add: s result_simps)
  qed
qed

lemma seek_at:
  assumes "p_held H ops s m E" and "E \<noteq> []" and "level \<le> mhgt H m E"
  obtains c where "m_seek ops s m level key = Inr c" and "c_node H m E level (gpos H m E level key) c" and "cf_i (hd c) = 0"
proof -
  let ?h = "mhgt H m E"
  have "gpos H m E ?h key = 0" using top_group[OF assms(1,2)] by (simp add: gpos_def)
  then show ?thesis
    using seek_from_at[OF assms(1,2) assms(3) le_refl, of "[]" key] read_root[OF assms(1)] top_group[OF assms(1,2)] that
    by (auto simp: m_seek_def result_simps)
qed

section \<open>Get\<close>

definition p_values :: "pentry list \<Rightarrow> bytes \<rightharpoonup> pvalue" where
  "p_values E = map_of (map (\<lambda>e. (p_key e, p_val e)) E)"

lemma p_values_kcnt:
  assumes "strictly_sorted (map p_key E)"
  shows "p_values E key = (if kcnt key E < length E \<and> p_key (E ! kcnt key E) = key then Some (p_val (E ! kcnt key E)) else None)"
  using assms
proof (induction E)
  case (Cons e E)
  show ?case
  proof (cases "p_key e < key")
    case True
    then have "kcnt key (e # E) = Suc (kcnt key E)" by (simp add: kcnt_def)
    then show ?thesis using Cons True by (auto simp: p_values_def)
  next
    case False
    then have "key \<notin> p_key ` set E" using Cons.prems by auto
    then have "p_values E key = None" by (auto simp: p_values_def map_of_eq_None_iff image_image)
    moreover have "kcnt key (e # E) = 0" using False by (simp add: kcnt_def)
    ultimately show ?thesis by (auto simp: p_values_def)
  qed
qed (simp add: p_values_def)

lemma kcnt_full: "kcnt key es = length es \<longleftrightarrow> (\<forall>e\<in>set es. p_key e < key)"
  by (induction es) (auto simp: kcnt_def)

lemma below_key_down: "p_held H ops s m E \<Longrightarrow> \<forall>e\<in>set (mlev H m E l). p_key e < key \<Longrightarrow> \<forall>e\<in>set E. p_key e < key"
proof (induction l)
  case (Suc l)
  have "p_key e < key" if e: "e \<in> set (mlev H m E l)" for e
  proof -
    obtain g where g: "g \<in> set (mgs H m E l)" "e \<in> set g" using e concat_p_gs[of H "pm_rule m" E l] by (metis UN_E set_concat)
    then have "p_key e \<le> p_key (last g)" using sorted_last_le[OF group_sorted[OF Suc.prems(1) g(1)]] by simp
    moreover have "p_key (last g) < key" using Suc.prems(2) g(1) by (auto simp: up_entry_def n_lastKey_def)
    ultimately show ?thesis by simp
  qed
  then show ?case using Suc by blast
qed simp

lemma get_from_at:
  assumes "p_held H ops s m E" and "E \<noteq> []"
  shows "l \<le> mhgt H m E \<Longrightarrow> m_get_from grow ops s m key (p_node l (mgs H m E l ! gpos H m E l key)) =
    (case p_values E key of None \<Rightarrow> Inr None | Some v \<Rightarrow> rbind (materialize grow ops s m v) (\<lambda>b. Inr (Some b)))"
proof (induction l)
  case 0
  let ?a = "gpos H m E 0 key" and ?g = "mgs H m E 0 ! gpos H m E 0 key"
  note a = gpos_less[OF assms(2), of H m 0 key]
  have g: "?g \<in> set (mgs H m E 0)" using a by simp
  have s: "pn_search (p_node 0 ?g) key = kcnt key ?g" using pn_search_kcnt[of "p_node 0 ?g"] group_sorted[OF assms(1) g] by simp
  have k: "kcnt key E = goff (mgs H m E 0) ?a + kcnt key ?g" using gpos_kcnt(1)[OF assms, of key 0] by simp
  have e: "strictly_sorted (map p_key E)" using p_held_sorted[OF assms(1), of H "pm_rule m" 0] by simp
  show ?case
  proof (cases "kcnt key ?g < length ?g")
    case True
    then show ?thesis using goff_nth[OF a True] p_values_kcnt[OF e, of key] by (subst m_get_from.simps) (simp add: s k)
  next
    case False
    then have "kcnt key ?g = length ?g" "Suc ?a = length (mgs H m E 0)"
      using kcnt_le[of key ?g] gpos_kcnt(2)[OF assms, of 0 key] a by linarith+
    moreover from this have "kcnt key E = length E" using goff_last[OF nonempty_groups a] k by simp
    ultimately show ?thesis using p_values_kcnt[OF e, of key] by (subst m_get_from.simps) (simp add: s)
  qed
next
  case (Suc l)
  let ?a = "gpos H m E (Suc l) key" and ?g = "mgs H m E (Suc l) ! gpos H m E (Suc l) key"
  note a = gpos_less[OF assms(2), of H m "Suc l" key]
  have g: "?g \<in> set (mgs H m E (Suc l))" using a by simp
  have s: "pn_search (p_node (Suc l) ?g) key = kcnt key ?g" using pn_search_kcnt[of "p_node (Suc l) ?g"] group_sorted[OF assms(1) g] by simp
  have e: "strictly_sorted (map p_key E)" using p_held_sorted[OF assms(1), of H "pm_rule m" 0] by simp
  show ?case
  proof (cases "kcnt key ?g < length ?g")
    case True
    then have "gpos H m E l key = goff (mgs H m E (Suc l)) ?a + kcnt key ?g" using gpos_down[OF assms, of l key] by (simp add: min_absorb1)
    then show ?thesis
      using child_at[OF assms(1) _ a True, of "gpos H m E l key"] Suc True by (subst m_get_from.simps) (simp add: s result_simps)
  next
    case False
    then have "kcnt key ?g = length ?g" "Suc ?a = length (mgs H m E (Suc l))"
      using kcnt_le[of key ?g] gpos_kcnt(2)[OF assms, of "Suc l" key] a by linarith+
    moreover from this have "kcnt key (mlev H m E (Suc l)) = length (mlev H m E (Suc l))"
      using goff_last[OF nonempty_groups a] gpos_kcnt(1)[OF assms, of key "Suc l"] by simp
    then have "kcnt key E = length E" using below_key_down[OF assms(1)] kcnt_full by blast
    ultimately show ?thesis using p_values_kcnt[OF e, of key] by (subst m_get_from.simps) (simp add: s)
  qed
qed

lemma m_Get_held:
  assumes "p_held H ops s m E"
  shows "m_Get grow ops s m key = (case p_values E key of None \<Rightarrow> Inr None | Some v \<Rightarrow> rbind (materialize grow ops s m v) (\<lambda>b. Inr (Some b)))"
proof (cases "E = []")
  case True
  then have "mhgt H m E = 0" by (simp add: p_height_def p_root_def p_top.simps)
  then show ?thesis using read_root[OF assms] True
    by (simp add: m_Get_def result_simps p_values_def m_get_from.simps[of _ _ _ _ _ "p_node 0 []"] pn_search_kcnt kcnt_def)
next
  case False
  have "gpos H m E (mhgt H m E) key = 0" using top_group[OF assms False] by (simp add: gpos_def)
  then show ?thesis
    using get_from_at[OF assms False le_refl, of grow key] read_root[OF assms] top_group[OF assms False] by (simp add: m_Get_def result_simps)
qed

section \<open>Iterating\<close>

definition it_at :: "(bytes \<Rightarrow> hash) \<Rightarrow> pmap \<Rightarrow> pentry list \<Rightarrow> nat \<Rightarrow> piter \<Rightarrow> bool" where
  "it_at H m E pos it \<longleftrightarrow> it_m it = m \<and> (if pos < length E then c_at H m E 0 pos (it_c it) else \<not> c_valid (it_c it))"

lemma m_IterRange_at:
  assumes "p_held H ops s m E"
  shows "\<exists>it. m_IterRange ops s m lo hi = Inr it \<and> it_hi it = hi \<and> it_at H m E (kcnt lo E) it"
proof (cases "E = []")
  case True
  then have "mhgt H m E = 0" by (simp add: p_height_def p_root_def p_top.simps)
  then have "m_seek ops s m 0 lo = Inr [new_frame (p_node 0 [])]"
    using read_root[OF assms] True by (simp add: m_seek_def result_simps m_seek_from.simps)
  then show ?thesis using True
    by (simp add: m_IterRange_def result_simps new_frame_def it_at_def c_valid_def pn_search_kcnt kcnt_def)
next
  case False
  let ?a = "gpos H m E 0 lo" and ?g = "mgs H m E 0 ! gpos H m E 0 lo"
  obtain c where c: "m_seek ops s m 0 lo = Inr c" "c_node H m E 0 ?a c" "cf_i (hd c) = 0" using seek_at[OF assms False, of 0 lo] by auto
  then have n: "cf_n (hd c) = p_node 0 ?g" "?a < length (mgs H m E 0)" by (auto simp: c_node_def)
  have g: "?g \<in> set (mgs H m E 0)" using n(2) by simp
  note gne = p_gs_nonempty[OF g]
  have s: "pn_search (p_node 0 ?g) lo = kcnt lo ?g" using pn_search_kcnt[of "p_node 0 ?g"] group_sorted[OF assms g] by simp
  have k: "kcnt lo E = goff (mgs H m E 0) ?a + kcnt lo ?g" using gpos_kcnt(1)[OF assms False, of lo 0] by simp
  have at: "c_at H m E 0 (goff (mgs H m E 0) ?a + i) ((hd c)\<lparr>cf_i := i\<rparr> # tl c)" if "i < length ?g" for i
    unfolding c_at_node using c(2) that by (intro exI[of _ ?a]) (auto simp: c_node_def)
  show ?thesis
  proof (cases "kcnt lo ?g = length ?g")
    case True
    then have l: "Suc ?a = length (mgs H m E 0)" using gpos_kcnt(2)[OF assms False, of 0 lo] n(2) by linarith
    then have kl: "kcnt lo E = length E" using goff_last[OF nonempty_groups n(2)] k True by simp
    have "length ?g - 1 < length ?g" using gne by (cases ?g) auto
    from c_advance_at[OF assms at[OF this]] obtain c' where
      "c_advance ops s m ((hd c)\<lparr>cf_i := length ?g - 1\<rparr> # tl c) = (Inr (), c')" "c_done c'"
      using goff_last[OF nonempty_groups n(2)] l gne by (cases ?g) auto
    then show ?thesis using c n(1) s True gne kl by (simp add: m_IterRange_def result_simps it_at_def c_done_invalid)
  next
    case False
    then have "kcnt lo ?g < length ?g" using kcnt_le[of lo ?g] by simp
    then show ?thesis using c n(1) s False k at[of "kcnt lo ?g"] goff_nth(2)[OF n(2), of "kcnt lo ?g"] by (simp add: m_IterRange_def result_simps it_at_def)
  qed
qed

lemma it_Next_at:
  assumes "p_held H ops s m E" and "it_at H m E pos it" and "pos < length E" and "materialize grow ops s m (p_val (E ! pos)) = Inr v"
    and "it_hi it = None \<or> p_key (E ! pos) < the (it_hi it)"
  shows "\<exists>it'. it_Next grow ops s it = (Inr (Some (p_key (E ! pos), v)), it') \<and> it_hi it' = it_hi it \<and> it_at H m E (Suc pos) it'"
proof -
  have c: "c_at H m E 0 pos (it_c it)" "it_m it = m" using assms(2,3) by (auto simp: it_at_def)
  then have "c_valid (it_c it)" "c_current (it_c it) = E ! pos" using c_at_valid[OF c(1)] by auto
  moreover obtain c' where "c_advance ops s m (it_c it) = (Inr (), c')" "if Suc pos < length E then c_at H m E 0 (Suc pos) c' else c_done c'"
    using c_advance_at[OF assms(1) c(1)] by auto
  moreover have "\<not> (it_hi it \<noteq> None \<and> p_key (E ! pos) \<ge> the (it_hi it))" using assms(5) by auto
  ultimately show ?thesis
    using c(2) assms(4) by (auto simp: it_Next_def it_at_def c_done_invalid Let_def simp del: not_None_eq split: if_splits)
qed

lemma it_Next_end:
  assumes "it_at H m E pos it" and "length E \<le> pos \<or> it_hi it \<noteq> None \<and> the (it_hi it) \<le> p_key (E ! pos)"
  shows "it_Next grow ops s it = (Inr None, it)"
  using assms c_at_valid[of H m E 0 pos "it_c it"] by (cases "pos < length E") (auto simp: it_Next_def it_at_def)

text \<open>A caller's loop: \<^verbatim>\<open>Next\<close> until it says there is no more, at most \<open>n\<close> times.\<close>

primrec it_drain :: "nat \<Rightarrow> (nat \<Rightarrow> nat) \<Rightarrow> ('s, 'z) rw_scheme \<Rightarrow> 's \<Rightarrow> piter \<Rightarrow> (bytes \<times> bytes) list result" where
  "it_drain 0 grow ops s it = Inl (ErrOther ''more'')"
| "it_drain (Suc n) grow ops s it =
     (case it_Next grow ops s it of
        (Inl e, _) \<Rightarrow> Inl e
      | (Inr None, _) \<Rightarrow> Inr []
      | (Inr (Some kv), it') \<Rightarrow> rbind (it_drain n grow ops s it') (\<lambda>kvs. Inr (kv # kvs)))"

lemma it_drain_at:
  assumes "p_held H ops s m E" and "\<And>e. e \<in> set E \<Longrightarrow> materialize grow ops s m (p_val e) = Inr (val e)"
  shows "it_at H m E pos it \<Longrightarrow> pos \<le> length E \<Longrightarrow> length E < n + pos \<Longrightarrow> it_drain n grow ops s it =
    Inr (map (\<lambda>e. (p_key e, val e)) (filter (\<lambda>e. it_hi it = None \<or> p_key e < the (it_hi it)) (drop pos E)))"
proof (induction n arbitrary: pos it)
  case (Suc n)
  have sorted: "strictly_sorted (map p_key E)" using p_held_sorted[OF assms(1), of H "pm_rule m" 0] by simp
  show ?case
  proof (cases "pos < length E \<and> (it_hi it = None \<or> p_key (E ! pos) < the (it_hi it))")
    case True
    then obtain it' where "it_Next grow ops s it = (Inr (Some (p_key (E ! pos), val (E ! pos))), it')" "it_hi it' = it_hi it" "it_at H m E (Suc pos) it'"
      using it_Next_at[OF assms(1) Suc.prems(1) _ assms(2)[of "E ! pos"]] by auto
    then show ?thesis using Suc.IH[of "Suc pos" it'] Suc.prems(3) True by (simp add: Cons_nth_drop_Suc[symmetric] result_simps)
  next
    case False
    have "\<not> (it_hi it = None \<or> p_key e < the (it_hi it))" if e: "e \<in> set (drop pos E)" for e
    proof -
      obtain j where "j < length (drop pos E)" "e = drop pos E ! j" using e by (metis in_set_conv_nth)
      then have j: "pos + j < length E" "e = E ! (pos + j)" by auto
      then have "p_key (E ! pos) \<le> p_key e" using sorted_wrt_nth_less[OF sorted, of pos "pos + j"] by (cases j) auto
      then show ?thesis using False j(1) by auto
    qed
    then have "filter (\<lambda>e. it_hi it = None \<or> p_key e < the (it_hi it)) (drop pos E) = []" by (simp add: filter_empty_conv)
    moreover have "it_Next grow ops s it = (Inr None, it)" using False by (intro it_Next_end[OF Suc.prems(1)]) auto
    ultimately show ?thesis by simp
  qed
qed simp

end
