(* ===== verification/ProllyEdit.thy ===== *)
theory ProllyEdit
  imports ProllyRead
begin

text \<open>
  What a list of edits means: \<open>ed_apply\<close> merges edits in key order into entries in key order, and
  \<open>ed_changed\<close> are the keys it changes. Edits split where the entries do, so a level can be
  rewritten piece by piece, and \<^verbatim>\<open>replace\<close> is the edit list that turns one piece into another.
\<close>

definition ed_add :: "edit \<Rightarrow> pentry list" where
  "ed_add d = (if ed_del d then [] else [ed_e d])"

fun ed_apply :: "edit list \<Rightarrow> pentry list \<Rightarrow> pentry list" where
  "ed_apply [] xs = xs"
| "ed_apply (d # ds) [] = ed_add d @ ed_apply ds []"
| "ed_apply (d # ds) (x # xs) =
     (if ed_key d < p_key x then ed_add d @ ed_apply ds (x # xs)
      else if ed_key d = p_key x then ed_add d @ ed_apply ds xs
      else x # ed_apply (d # ds) xs)"

fun ed_changed :: "edit list \<Rightarrow> pentry list \<Rightarrow> bytes list" where
  "ed_changed [] xs = []"
| "ed_changed (d # ds) [] = (if ed_del d then [] else [ed_key d]) @ ed_changed ds []"
| "ed_changed (d # ds) (x # xs) =
     (if ed_key d < p_key x then (if ed_del d then [] else [ed_key d]) @ ed_changed ds (x # xs)
      else if ed_key d = p_key x
        then (if ed_del d \<or> \<not> v_equal (p_val (ed_e d)) (p_val x) then [ed_key d] else []) @ ed_changed ds xs
      else ed_changed (d # ds) xs)"

text \<open>Edits that put entries under their own keys.\<close>

definition ed_wf :: "edit list \<Rightarrow> bool" where
  "ed_wf ds \<longleftrightarrow> strictly_sorted (map ed_key ds) \<and> (\<forall>d\<in>set ds. \<not> ed_del d \<longrightarrow> p_key (ed_e d) = ed_key d)"

lemma ed_wf_Cons [simp]:
  "ed_wf (d # ds) \<longleftrightarrow> (\<forall>d'\<in>set ds. ed_key d < ed_key d') \<and> (\<not> ed_del d \<longrightarrow> p_key (ed_e d) = ed_key d) \<and> ed_wf ds"
  by (auto simp: ed_wf_def)

lemma ed_wf_Nil [simp]: "ed_wf []"
  by (simp add: ed_wf_def)

lemma ed_wf_append: "ed_wf (ds @ ds') \<longleftrightarrow> ed_wf ds \<and> ed_wf ds' \<and> (\<forall>d\<in>set ds. \<forall>d'\<in>set ds'. ed_key d < ed_key d')"
  by (auto simp: ed_wf_def sorted_wrt_append)

lemma ed_apply_sub: "x \<in> set (ed_apply ds xs) \<Longrightarrow> x \<in> set xs \<or> (\<exists>d\<in>set ds. \<not> ed_del d \<and> x = ed_e d)"
  by (induction ds xs rule: ed_apply.induct) (auto simp: ed_add_def split: if_splits)

lemma ed_apply_keys: "ed_wf ds \<Longrightarrow> x \<in> set (ed_apply ds xs) \<Longrightarrow> p_key x \<in> p_key ` set xs \<union> ed_key ` set ds"
  using ed_apply_sub[of x ds xs] by (auto simp: ed_wf_def)

lemma ed_apply_sorted: "ed_wf ds \<Longrightarrow> strictly_sorted (map p_key xs) \<Longrightarrow> strictly_sorted (map p_key (ed_apply ds xs))"
proof (induction ds xs rule: ed_apply.induct)
  case (2 d ds)
  then show ?case using ed_apply_keys[of ds _ "[]"] by (fastforce simp: ed_add_def)
next
  case (3 d ds x xs)
  have 1: "ed_key d < p_key y" if "ed_key d < p_key x" "y \<in> set (ed_apply ds (x # xs))" for y
    using ed_apply_keys[of ds y "x # xs"] that 3(4,5) by fastforce
  have 2: "ed_key d < p_key y" if "ed_key d = p_key x" "y \<in> set (ed_apply ds xs)" for y
    using ed_apply_keys[of ds y xs] that 3(4,5) by fastforce
  have 4: "p_key x < p_key y" if "\<not> ed_key d < p_key x" "ed_key d \<noteq> p_key x" "y \<in> set (ed_apply (d # ds) xs)" for y
    using ed_apply_keys[of "d # ds" y xs] that 3(4,5) by fastforce
  show ?case using 3 1 2 4 by (auto simp: ed_add_def)
qed simp

text \<open>Edits and entries that lie apart are merged apart.\<close>

lemma ed_apply_append:
  "\<lbrakk>\<And>d y. d \<in> set e1 \<Longrightarrow> y \<in> set ys \<Longrightarrow> ed_key d < p_key y; \<And>x d. x \<in> set xs \<Longrightarrow> d \<in> set e2 \<Longrightarrow> p_key x < ed_key d\<rbrakk> \<Longrightarrow>
   ed_apply (e1 @ e2) (xs @ ys) = ed_apply e1 xs @ ed_apply e2 ys"
proof (induction e1 xs rule: ed_apply.induct)
  case (1 xs)
  then show ?case
  proof (induction xs)
    case (Cons x xs)
    have "\<forall>d\<in>set e2. p_key x < ed_key d" using Cons.prems(2) by auto
    moreover have "ed_apply e2 (xs @ ys) = xs @ ed_apply e2 ys" using Cons by simp
    ultimately show ?case by (cases e2) auto
  qed simp
next
  case (2 d ds)
  then show ?case by (cases ys) auto
qed auto

lemma ed_changed_append:
  "\<lbrakk>\<And>d y. d \<in> set e1 \<Longrightarrow> y \<in> set ys \<Longrightarrow> ed_key d < p_key y; \<And>x d. x \<in> set xs \<Longrightarrow> d \<in> set e2 \<Longrightarrow> p_key x < ed_key d\<rbrakk> \<Longrightarrow>
   ed_changed (e1 @ e2) (xs @ ys) = ed_changed e1 xs @ ed_changed e2 ys"
proof (induction e1 xs rule: ed_changed.induct)
  case (1 xs)
  then show ?case
  proof (induction xs)
    case (Cons x xs)
    have "\<forall>d\<in>set e2. p_key x < ed_key d" using Cons.prems(2) by auto
    moreover have "ed_changed e2 (xs @ ys) = ed_changed e2 ys" using Cons by simp
    ultimately show ?case by (cases e2) auto
  qed simp
next
  case (2 d ds)
  then show ?case by (cases ys) auto
qed auto

section \<open>What the edits do to the values\<close>

definition ed_values :: "edit list \<Rightarrow> (bytes \<rightharpoonup> pvalue) \<Rightarrow> bytes \<rightharpoonup> pvalue" where
  "ed_values ds f k = (case map_of (map (\<lambda>d. (ed_key d, d)) ds) k of
     None \<Rightarrow> f k | Some d \<Rightarrow> if ed_del d then None else Some (p_val (ed_e d)))"

lemma p_values_None: "(\<And>x. x \<in> set xs \<Longrightarrow> p_key x \<noteq> k) \<Longrightarrow> p_values xs k = None"
  by (induction xs) (auto simp: p_values_def)

lemma p_values_Cons: "p_values (x # xs) = (p_values xs)(p_key x \<mapsto> p_val x)"
  by (simp add: p_values_def)

lemma ed_values_None: "(\<And>d. d \<in> set ds \<Longrightarrow> ed_key d \<noteq> k) \<Longrightarrow> ed_values ds f k = f k"
  by (induction ds) (auto simp: ed_values_def)

lemma ed_values_cong: "f k = g k \<Longrightarrow> ed_values ds f k = ed_values ds g k"
  by (simp add: ed_values_def split: option.splits)

lemma p_values_add: "(\<not> ed_del d \<longrightarrow> p_key (ed_e d) = ed_key d) \<Longrightarrow>
    p_values (ed_add d @ xs) = (if ed_del d then p_values xs else (p_values xs)(ed_key d \<mapsto> p_val (ed_e d)))"
  by (auto simp: ed_add_def p_values_Cons)

lemma p_values_apply: "ed_wf ds \<Longrightarrow> strictly_sorted (map p_key xs) \<Longrightarrow> p_values (ed_apply ds xs) = ed_values ds (p_values xs)"
proof (induction ds xs rule: ed_apply.induct)
  case (1 xs)
  then show ?case by (auto simp: ed_values_def)
next
  case (2 d ds)
  have "ed_values ds (p_values []) (ed_key d) = None" using 2 by (subst ed_values_None) (auto simp: p_values_def)
  then show ?case using 2 p_values_add[of d] by (auto simp: ed_values_def fun_eq_iff)
next
  case (3 d ds x xs)
  have n: "ed_key d' \<noteq> ed_key d" if "d' \<in> set ds" for d' using that 3(4) by auto
  then have f: "ed_values ds f (ed_key d) = f (ed_key d)" for f by (auto intro: ed_values_None)
  consider "ed_key d < p_key x" | "ed_key d = p_key x" | "\<not> ed_key d < p_key x" "ed_key d \<noteq> p_key x" by blast
  then show ?case
  proof cases
    case a: 1
    then have "p_values (x # xs) (ed_key d) = None" using 3(5) by (intro p_values_None) auto
    then show ?thesis using 3 a f p_values_add[of d] by (auto simp: ed_values_def fun_eq_iff)
  next
    case a: 2
    then have "p_values xs (ed_key d) = None" using 3(5) by (intro p_values_None) auto
    then show ?thesis using 3 a f[of "p_values xs"] p_values_add[of d] by (auto simp: ed_values_def fun_eq_iff p_values_Cons split: option.splits)
  next
    case a: 3
    then have "p_key x < ed_key d'" if "d' \<in> set (d # ds)" for d' using that 3(4) by fastforce
    then have "ed_values (d # ds) f (p_key x) = f (p_key x)" for f by (metis ed_values_None less_irrefl)
    note px = this
    have "p_values (ed_apply (d # ds) (x # xs)) k = ed_values (d # ds) (p_values (x # xs)) k" for k
    proof (cases "k = p_key x")
      case True
      then show ?thesis using a by (simp add: px p_values_Cons)
    next
      case False
      then show ?thesis using 3 a ed_values_cong[of "p_values (x # xs)" k "p_values xs" "d # ds"] by (simp add: p_values_Cons)
    qed
    then show ?thesis by (rule ext)
  qed
qed

text \<open>The keys reported are those whose values differ, each once and in order.\<close>

lemma ed_changed_keys: "k \<in> set (ed_changed ds xs) \<Longrightarrow> k \<in> ed_key ` set ds"
  by (induction ds xs rule: ed_changed.induct) (auto split: if_splits)

lemma ed_changed_sorted: "ed_wf ds \<Longrightarrow> strictly_sorted (ed_changed ds xs)"
proof (induction ds xs rule: ed_changed.induct)
  case (2 d ds)
  then show ?case using ed_changed_keys[of _ ds "[]"] by fastforce
next
  case (3 d ds x xs)
  have "ed_key d < k" if "k \<in> set (ed_changed ds ys)" for k ys using ed_changed_keys[OF that] 3(4) by auto
  then show ?case using 3 by auto
qed simp

lemma ed_changed_iff:
  assumes "ed_wf ds" and "strictly_sorted (map p_key xs)" and "\<And>x. x \<in> set xs \<Longrightarrow> pvalue_ok inl (p_val x)"
    and "\<And>d. d \<in> set ds \<Longrightarrow> \<not> ed_del d \<Longrightarrow> pvalue_ok inl (p_val (ed_e d))"
  shows "k \<in> set (ed_changed ds xs) \<longleftrightarrow> p_values (ed_apply ds xs) k \<noteq> p_values xs k"
  using assms
proof (induction ds xs rule: ed_apply.induct)
  case (2 d ds)
  have "p_values (ed_apply ds []) (ed_key d) = None" using 2(2) ed_apply_keys[of ds _ "[]"] by (intro p_values_None) fastforce
  then show ?case using 2 ed_changed_keys[of "ed_key d" ds "[]"] p_values_add[of d] by (auto simp: p_values_def[of "[]"])
next
  case (3 d ds x xs)
  have kd: "ed_key d \<notin> set (ed_changed ds ys)" for ys using ed_changed_keys[of _ ds ys] 3(4) by fastforce
  have vo: "pvalue_ok inl (p_val x)" "\<not> ed_del d \<Longrightarrow> pvalue_ok inl (p_val (ed_e d))" using 3(6,7) by auto
  have pv: "p_values (ed_apply ds ys) (ed_key d) = None" if "\<And>y. y \<in> set ys \<Longrightarrow> ed_key d < p_key y" for ys
    using ed_apply_keys[of ds _ ys] 3(4) that by (intro p_values_None) fastforce
  consider "ed_key d < p_key x" | "ed_key d = p_key x" | "\<not> ed_key d < p_key x" "ed_key d \<noteq> p_key x" by blast
  then show ?case
  proof cases
    case a: 1
    then have lt: "\<And>y. y \<in> set (x # xs) \<Longrightarrow> ed_key d < p_key y" using 3(5) by auto
    have "p_values (x # xs) (ed_key d) = None" by (rule p_values_None) (metis lt less_irrefl)
    moreover have "p_values (ed_apply ds (x # xs)) (ed_key d) = None" using lt by (rule pv)
    ultimately show ?thesis using 3(1)[OF a] 3(4-7) a kd[of "x # xs"] p_values_add[of d] by (auto split: if_splits)
  next
    case a: 2
    then have lt: "\<And>y. y \<in> set xs \<Longrightarrow> ed_key d < p_key y" using 3(5) by auto
    have "p_values xs (ed_key d) = None" by (rule p_values_None) (metis lt less_irrefl)
    moreover have "p_values (ed_apply ds xs) (ed_key d) = None" using lt by (rule pv)
    ultimately show ?thesis using 3(2)[OF _ a] 3(4-7) a kd[of xs] p_values_add[of d] v_equal_iff[OF vo(2) vo(1)]
      by (auto simp: p_values_Cons split: if_splits)
  next
    case a: 3
    then have lt: "p_key x < ed_key d'" if "d' \<in> set (d # ds)" for d' using that 3(4) by fastforce
    then have "p_key x \<notin> set (ed_changed (d # ds) xs)" using ed_changed_keys[of "p_key x" "d # ds" xs] by (auto dest!: less_imp_neq)
    then show ?thesis using 3(3)[OF a] 3(4-7) a by (auto simp: p_values_Cons)
  qed
qed simp

section \<open>Replacing entries\<close>

text \<open>Entries of an upper level: the value is unused.\<close>

lemma pm_replace_keys: "d \<in> set (pm_replace A B) \<Longrightarrow> ed_key d \<in> p_key ` set A \<union> p_key ` set B \<and> (\<not> ed_del d \<longrightarrow> ed_e d \<in> set B)"
  by (induction A B rule: pm_replace.induct) (auto split: if_splits)

lemma pm_replace_wf: "strictly_sorted (map p_key A) \<Longrightarrow> strictly_sorted (map p_key B) \<Longrightarrow> ed_wf (pm_replace A B)"
proof (induction A B rule: pm_replace.induct)
  case (2 r rs)
  then show ?case using pm_replace_keys[of _ rs "[]"] by fastforce
next
  case (3 a as)
  then show ?case using pm_replace_keys[of _ "[]" as] by fastforce
next
  case (4 r rs a as)
  have "p_key r < ed_key d" if "p_key r < p_key a" "d \<in> set (pm_replace rs (a # as))" for d
    using pm_replace_keys[OF that(2)] 4(5,6) that(1) by fastforce
  moreover have "p_key a < ed_key d" if "p_key a < p_key r" "d \<in> set (pm_replace (r # rs) as)" for d
    using pm_replace_keys[OF that(2)] 4(5,6) that(1) by fastforce
  moreover have "p_key a < ed_key d" if "p_key a = p_key r" "d \<in> set (pm_replace rs as)" for d
    using pm_replace_keys[OF that(2)] 4(5,6) that(1) by fastforce
  ultimately show ?case using 4 by (auto simp: not_less)
qed simp

lemma ed_apply_replace:
  assumes "strictly_sorted (map p_key A)" and "strictly_sorted (map p_key B)" and "\<And>x. x \<in> set A \<union> set B \<Longrightarrow> p_val x = zero_value"
  shows "ed_apply (pm_replace A B) A = B"
  using assms
proof (induction A B rule: pm_replace.induct)
  case (2 r rs)
  then show ?case by (simp add: ed_add_def)
next
  case (3 a as)
  then show ?case by (simp add: ed_add_def)
next
  case (4 r rs a as)
  have before: "ed_apply ds (r # rs) = r # ed_apply ds rs" if "\<And>d. d \<in> set ds \<Longrightarrow> p_key r < ed_key d" for ds
    using ed_apply_append[of "[]" rs "[r]" ds] that by simp
  consider "p_key r < p_key a" | "p_key r > p_key a" | "p_key r = p_key a" by fastforce
  then show ?case
  proof cases
    case 3
    have "p_key r < ed_key d" if "d \<in> set (pm_replace rs as)" for d
      using pm_replace_keys[OF that] 4(5,6) 3 by fastforce
    then have b: "ed_apply (pm_replace rs as) (r # rs) = r # ed_apply (pm_replace rs as) rs" by (rule before)
    have ih: "ed_apply (pm_replace rs as) rs = as" using 3 4(3,4) 4(5-7) by (cases "p_child r \<noteq> p_child a \<or> p_count r \<noteq> p_count a") auto
    show ?thesis
    proof (cases "p_child r \<noteq> p_child a \<or> p_count r \<noteq> p_count a")
      case True
      then show ?thesis using 3 ih by (auto simp: ed_add_def)
    next
      case False
      moreover have "p_val r = p_val a" using 4(7)[of r] 4(7)[of a] by simp
      ultimately have "r = a" using 3 by simp
      then show ?thesis using ih b by simp
    qed
  next
    case 1
    then have "ed_apply (pm_replace rs (a # as)) rs = a # as" using 4(1) 4(5-7) by auto
    then show ?thesis using 1 by (simp add: ed_add_def)
  next
    case 2
    then have "ed_apply (pm_replace (r # rs) as) (r # rs) = as" using 4(2) 4(5-7) by auto
    then show ?thesis using 2 order_less_not_sym[OF 2] by (simp add: ed_add_def)
  qed
qed simp

end
