(* ===== verification/ProllyApply.thy ===== *)
theory ProllyApply
  imports ProllyEdit
begin

text \<open>
  Flushing: over a store that keeps what is put, applying edits to a map whose tree is that of the
  entries \<open>E\<close> gives the map whose tree is that of the edited entries. The chunker draws the nodes
  the entries' rule says, a stretch stops where the old and the new nodes end together, and what
  a level hands up is the difference between the old and the new entries above it.
\<close>

section \<open>Drawing\<close>

text \<open>The nodes of \<open>xs\<close> when \<open>cur\<close> is already in hand, the last one ended.\<close>

definition p_chop_from :: "(bytes \<Rightarrow> hash) \<Rightarrow> brule \<Rightarrow> nat \<Rightarrow> pentry list \<Rightarrow> pentry list \<Rightarrow> pentry list list" where
  "p_chop_from H r l cur xs = (let (gs, c) = p_chop H r l cur xs in gs @ (if c = [] then [] else [c]))"

lemma p_chop_from_Nil [simp]: "p_chop_from H r l [] = p_chop_all H r l"
  by (auto simp: p_chop_from_def chop_all_def fun_eq_iff)

lemma p_chop_from_append: "p_chop H r l cur xs = (gs, c) \<Longrightarrow> p_chop_from H r l cur (xs @ ys) = gs @ p_chop_from H r l c ys"
  by (simp add: p_chop_from_def chop_append split: prod.splits)

lemma concat_p_chop_from: "concat (p_chop_from H r l cur xs) = cur @ xs"
  by (auto simp: p_chop_from_def split: prod.splits dest!: chop_concat)

text \<open>The chunker after it has taken the entries \<open>xs\<close> and noted the keys \<open>ks\<close>.\<close>

definition pk_run :: "(bytes \<Rightarrow> hash) \<Rightarrow> brule \<Rightarrow> pentry list \<Rightarrow> bytes list \<Rightarrow> pchunker \<Rightarrow> pchunker" where
  "pk_run H r xs ks c =
     (let (gs, cur) = p_chop H r (pk_level c) (pk_pending c) xs in
      (pk_after H r gs cur c)\<lparr>pk_changed := map_option (\<lambda>k. k @ ks) (pk_changed c)\<rparr>)"

lemma pk_run_simps [simp]:
  "pk_level (pk_run H r xs ks c) = pk_level c" "pk_hold (pk_run H r xs ks c) = pk_hold c"
  "pk_existing (pk_run H r xs ks c) = pk_existing c" "pk_changed (pk_run H r xs ks c) = map_option (\<lambda>k. k @ ks) (pk_changed c)"
  "pk_pending (pk_run H r xs ks c) = snd (p_chop H r (pk_level c) (pk_pending c) xs)"
  by (simp_all add: pk_run_def split: prod.splits)

lemma pk_run_steady [simp]: "pk_steady r (pk_run H r xs ks c)"
  by (simp add: pk_run_def pk_steady_def pk_after_def split: prod.splits)

lemma pk_run_out: "pk_out (pk_run H r xs ks c) = pk_out c @ (if pk_hold c then [] else map (p_up H (pk_level c)) (fst (p_chop H r (pk_level c) (pk_pending c) xs)))"
  by (simp add: pk_run_def pk_after_def split: prod.splits)

lemma pk_run_nodes: "pk_nodes (pk_run H r xs ks c) = pk_nodes c @ (if pk_hold c then map (p_node (pk_level c)) (fst (p_chop H r (pk_level c) (pk_pending c) xs)) else [])"
  by (simp add: pk_run_def pk_after_def split: prod.splits)

lemma pk_run_run [simp]: "pk_run H r ys js (pk_run H r xs ks c) = pk_run H r (xs @ ys) (ks @ js) c"
  by (cases c) (auto simp: pk_run_def pk_after_def chop_append o_def option.map_comp split: prod.splits)

lemma pk_run_Nil: "pk_steady r c \<Longrightarrow> pk_run H r [] [] c = c"
  by (cases c) (simp add: pk_run_def pk_after_def pk_steady_def option.map_ident)

lemma pk_change_run: "pk_steady r c \<Longrightarrow> pk_change key c = pk_run H r [] [key] c"
  by (cases c) (simp add: pk_run_def pk_after_def pk_steady_def pk_change_def)

text \<open>The chunks it has drawn on the way.\<close>

definition pk_drawn :: "(bytes \<Rightarrow> hash) \<Rightarrow> brule \<Rightarrow> pentry list \<Rightarrow> pchunker \<Rightarrow> pnode set" where
  "pk_drawn H r xs c = (if pk_hold c then {} else p_node (pk_level c) ` set (fst (p_chop H r (pk_level c) (pk_pending c) xs)))"

lemma pk_drawn_Nil [simp]: "pk_drawn H r [] c = {}"
  by (simp add: pk_drawn_def)

lemma pk_drawn_append: "pk_drawn H r (xs @ ys) c = pk_drawn H r xs c \<union> pk_drawn H r ys (pk_run H r xs ks c)"
  by (auto simp: pk_drawn_def chop_append split: prod.splits)

section \<open>Writing nodes\<close>

context chunk_rw
begin

definition wrote :: "'s \<Rightarrow> pnode set \<Rightarrow> 's \<Rightarrow> bool" where
  "wrote s N s' \<longleftrightarrow> grows s s' \<and> puts s' = puts s \<union> n_encode ` N"

text \<open>A store on which a set \<open>U\<close> of chunks, all that is or will be put, has no collision.\<close>

definition clean :: "bytes set \<Rightarrow> 's \<Rightarrow> bool" where
  "clean U s \<longleftrightarrow> ok s \<and> inj_on H U \<and> puts s \<subseteq> U"

definition fits :: "bytes set \<Rightarrow> pnode \<Rightarrow> bool" where
  "fits U n \<longleftrightarrow> n_encode n \<in> U \<and> length (n_encode n) \<le> MaxChunkSize"

lemma wrote_none [simp]: "ok s \<Longrightarrow> wrote s {} s"
  by (simp add: wrote_def)

lemma wrote_trans: "wrote s N s' \<Longrightarrow> wrote s' N' s'' \<Longrightarrow> wrote s (N \<union> N') s''"
  by (auto simp: wrote_def intro: grows_trans)

lemma wrote_clean: "clean U s \<Longrightarrow> wrote s N s' \<Longrightarrow> (\<And>n. n \<in> N \<Longrightarrow> fits U n) \<Longrightarrow> clean U s'"
  by (auto simp: clean_def wrote_def grows_def fits_def)

lemma wrote_puts: "wrote s N s' \<Longrightarrow> puts s \<subseteq> puts s'"
  by (auto simp: wrote_def)

lemma put_wrote:
  assumes "ok s" and "fits U n"
  shows "\<exists>s'. rw_Put ops (n_encode n) s = (Inr (H (n_encode n)), s') \<and> wrote s {n} s'"
proof -
  have len: "length (n_encode n) \<le> MaxChunkSize" using assms(2) by (simp add: fits_def)
  from put_eq[OF assms(1) len] put_ok[OF assms(1) len] obtain s' where "rw_Put ops (n_encode n) s = (Inr (H (n_encode n)), s')" "grows s s'"
    "puts s' = insert (n_encode n) (puts s)" by (metis Pair_inject)
  then show ?thesis by (simp add: wrote_def)
qed

text \<open>A node whose hash is known already need not be put: it is there.\<close>

lemma m_store_wrote:
  assumes "clean U s" and "fits U n" and "set ex \<subseteq> H ` puts s"
  shows "\<exists>s'. m_store H ops n ex s = (Inr (up_entry H n), s') \<and> wrote s {n} s'"
proof (cases "H (n_encode n) \<in> set ex")
  case True
  then obtain b where "b \<in> puts s" "H b = H (n_encode n)" using assms(3) by auto
  then have "n_encode n \<in> puts s" using assms(1,2) by (metis clean_def fits_def inj_onD subsetD)
  then show ?thesis using True assms(1) by (auto simp: m_store_def Let_def result_simps wrote_def clean_def insert_absorb)
next
  case False
  obtain s' where s': "rw_Put ops (n_encode n) s = (Inr (H (n_encode n)), s')" "wrote s {n} s'"
    using put_wrote[of s U n] assms(1,2) by (auto simp: clean_def)
  have "(case rw_PutRaw ops of Some praw \<Rightarrow> praw | None \<Rightarrow> rw_Put ops) = rw_Put ops"
    using putraw_eq by (auto split: option.splits)
  then show ?thesis using False s' by (auto simp: m_store_def Let_def result_simps)
qed

lemma pk_end_wrote:
  assumes "clean U s" and "pk_pending c \<noteq> [] \<Longrightarrow> \<not> pk_hold c \<Longrightarrow> fits U (p_node (pk_level c) (pk_pending c))"
    and "set (pk_existing c) \<subseteq> H ` puts s"
  shows "\<exists>c' s'. pk_end H ops c s = (Inr c', s') \<and> wrote s (if pk_hold c \<or> pk_pending c = [] then {} else {p_node (pk_level c) (pk_pending c)}) s'"
  using m_store_wrote[OF assms(1) assms(2) assms(3)] assms(1) by (auto simp: pk_end_def Let_def result_simps clean_def)

lemma pk_add_wrote:
  assumes "clean U s" and "pk_steady r c" and "\<And>n. n \<in> pk_drawn H r [e] c \<Longrightarrow> fits U n" and "set (pk_existing c) \<subseteq> H ` puts s"
  shows "\<exists>s'. pk_add H ops e c s = (Inr (pk_run H r [e] [] c), s') \<and> wrote s (pk_drawn H r [e] c) s'"
proof -
  obtain gs cur where g: "p_chop H r (pk_level c) (pk_pending c) [e] = (gs, cur)" by (metis surj_pair)
  have "\<exists>c' s'. pk_add H ops e c s = (Inr c', s') \<and> wrote s (pk_drawn H r [e] c) s'"
  proof (cases "fst (sp_Append H (pk_split c) (H (p_key e)) (p_entrySize (pk_level c) e))")
    case False
    then show ?thesis using assms(1,2) by (auto simp: pk_add_def pk_steady_def pk_drawn_def clean_def result_simps
          sp_Append_at[where sz = "p_entrySize _" and dig = "\<lambda>e. H (p_key e)"])
  next
    case True
    let ?c = "c\<lparr>pk_pending := pk_pending c @ [e], pk_split := snd (sp_Append H (pk_split c) (H (p_key e)) (p_entrySize (pk_level c) e))\<rparr>"
    have d: "pk_drawn H r [e] c = (if pk_hold ?c \<or> pk_pending ?c = [] then {} else {p_node (pk_level ?c) (pk_pending ?c)})"
      using True assms(2) by (auto simp: pk_drawn_def pk_steady_def sp_Append_at[where sz = "p_entrySize _" and dig = "\<lambda>e. H (p_key e)"])
    have "\<exists>c' s'. pk_end H ops ?c s = (Inr c', s') \<and> wrote s (pk_drawn H r [e] c) s'"
      unfolding d using assms(1,4) by (intro pk_end_wrote) (auto intro!: assms(3) simp: d)
    then show ?thesis using True by (auto simp: pk_add_def split: prod.splits)
  qed
  then obtain c' s' where c: "pk_add H ops e c s = (Inr c', s')" "wrote s (pk_drawn H r [e] c) s'" by blast
  have "c' = pk_run H r [e] [] c" using pk_add_Inr[OF c(1) assms(2) g] g by (cases c) (simp add: pk_run_def pk_after_def option.map_ident)
  then show ?thesis using c by simp
qed

text \<open>One step of \<^verbatim>\<open>merge\<close>: the key noted or not, an entry added or not.\<close>

lemma pk_step_wrote:
  assumes "clean U s" and "pk_steady r c" and "\<And>n. n \<in> pk_drawn H r ys c \<Longrightarrow> fits U n" and "set (pk_existing c) \<subseteq> H ` puts s"
    and "ys = (if b then [e] else [])" and "c1 = pk_run H r [] ks c"
  shows "\<exists>s'. (if b then pk_add H ops e c1 else sret c1) s = (Inr (pk_run H r ys ks c), s') \<and> wrote s (pk_drawn H r ys c) s'"
proof -
  have d: "pk_drawn H r ys c = pk_drawn H r ys c1" using pk_drawn_append[of H r "[]" ys c ks] assms(6) by simp
  have "pk_run H r ys [] c1 = pk_run H r ys ks c" by (simp add: assms(6))
  then show ?thesis
    using pk_add_wrote[of U s r c1 e] assms(1-5) pk_run_Nil[of r c1 H] unfolding d
    by (auto simp: assms(6) result_simps clean_def)
qed

lemma pk_merge_wrote:
  assumes "e1 = takeWhile (\<lambda>d. limit = None \<or> ed_key d \<le> the limit) edits" and "e2 = dropWhile (\<lambda>d. limit = None \<or> ed_key d \<le> the limit) edits"
    and "clean U s" and "pk_steady r c" and "\<And>n. n \<in> pk_drawn H r (ed_apply e1 old) c \<Longrightarrow> fits U n" and "set (pk_existing c) \<subseteq> H ` puts s"
  shows "\<exists>s'. pk_merge H ops limit old edits c s = (Inr (e2, pk_run H r (ed_apply e1 old) (ed_changed e1 old) c), s') \<and>
    wrote s (pk_drawn H r (ed_apply e1 old) c) s'"
  using assms
proof (induction "length old + length edits" arbitrary: old edits e1 c s rule: less_induct)
  case less
  let ?P = "\<lambda>d. limit = None \<or> ed_key d \<le> the limit"
  define Q where "Q = (\<lambda>old' edits' ys ks. length old' + length edits' < length old + length edits \<and>
      e2 = dropWhile ?P edits' \<and> ed_apply e1 old = ys @ ed_apply (takeWhile ?P edits') old' \<and> ed_changed e1 old = ks @ ed_changed (takeWhile ?P edits') old')"
  have step: "\<exists>s'. sbind (if b then pk_add H ops e c1 else sret c1) (\<lambda>c s. pk_merge H ops limit old' edits' c s) s
        = (Inr (e2, pk_run H r (ed_apply e1 old) (ed_changed e1 old) c), s') \<and> wrote s (pk_drawn H r (ed_apply e1 old) c) s'"
    if "Q old' edits' ys ks" and ys: "ys = (if b then [e] else [])" and c1: "c1 = pk_run H r [] ks c" for b e c1 old' edits' ys ks
  proof -
    let ?xs = "ed_apply (takeWhile ?P edits') old'"
    have q: "length old' + length edits' < length old + length edits" "e2 = dropWhile ?P edits'" "ed_apply e1 old = ys @ ?xs"
      "ed_changed e1 old = ks @ ed_changed (takeWhile ?P edits') old'" using that(1) by (auto simp: Q_def)
    have d: "pk_drawn H r (ed_apply e1 old) c = pk_drawn H r ys c \<union> pk_drawn H r ?xs (pk_run H r ys ks c)"
      unfolding q(3) by (rule pk_drawn_append)
    obtain s1 where s1: "(if b then pk_add H ops e c1 else sret c1) s = (Inr (pk_run H r ys ks c), s1)" "wrote s (pk_drawn H r ys c) s1"
      using pk_step_wrote[OF less.prems(3,4) _ less.prems(6) ys c1] less.prems(5) d by auto
    have "clean U s1" using wrote_clean[OF less.prems(3) s1(2)] less.prems(5) d by auto
    moreover have "set (pk_existing (pk_run H r ys ks c)) \<subseteq> H ` puts s1" using less.prems(6) wrote_puts[OF s1(2)] by auto
    ultimately obtain s2 where "pk_merge H ops limit old' edits' (pk_run H r ys ks c) s1 =
        (Inr (e2, pk_run H r ?xs (ed_changed (takeWhile ?P edits') old') (pk_run H r ys ks c)), s2)" "wrote s1 (pk_drawn H r ?xs (pk_run H r ys ks c)) s2"
      using less.hyps[OF q(1) refl q(2), of s1 "pk_run H r ys ks c"] less.prems(5) d by auto
    then show ?thesis using s1 wrote_trans[OF s1(2)] d q(3,4) by (auto simp: sbind_def)
  qed
  have "\<not> (old \<noteq> [] \<or> within limit edits) \<or> (\<exists>d ds. edits = d # ds \<and> ?P d \<and> (old = [] \<or> ed_key d < p_key (hd old)))
      \<or> (\<exists>d ds x xs. edits = d # ds \<and> ?P d \<and> old = x # xs \<and> ed_key d = p_key x)
      \<or> (\<exists>x xs. old = x # xs \<and> (within limit edits \<longrightarrow> p_key x < ed_key (hd edits)))"
    by (cases edits; cases old) (use linorder_less_linear in \<open>auto simp: within_def not_less le_less\<close>)
  then consider (none) "\<not> (old \<noteq> [] \<or> within limit edits)" | (new) d ds where "edits = d # ds" "?P d" "old = [] \<or> ed_key d < p_key (hd old)"
    | (same) d ds x xs where "edits = d # ds" "?P d" "old = x # xs" "ed_key d = p_key x"
    | (old) x xs where "old = x # xs" "within limit edits \<Longrightarrow> p_key x < ed_key (hd edits)"
    by blast
  then show ?case
  proof cases
    case none
    then have "old = []" "e1 = []" "e2 = edits" using less.prems(1,2) by (cases edits; auto simp: within_def)+
    then show ?thesis using none less.prems(3,4) pk_run_Nil[of r c H] by (subst pk_merge.simps) (simp add: clean_def)
  next
    case new
    then have "e1 = d # takeWhile ?P ds" "e2 = dropWhile ?P ds" using less.prems(1,2) by auto
    then have q: "Q old ds (ed_add d) (if ed_del d then [] else [ed_key d])"
      using new less.prems(2) by (cases old) (auto simp: Q_def)
    have "(if \<not> ed_del d then pk_add H ops (ed_e d) (pk_change (ed_key d) c) else sret c) =
        (if \<not> ed_del d then pk_add H ops (ed_e d) (pk_run H r [] (if ed_del d then [] else [ed_key d]) c) else sret (pk_run H r [] (if ed_del d then [] else [ed_key d]) c))"
      using pk_change_run[OF less.prems(4)] pk_run_Nil[OF less.prems(4)] by auto
    moreover have "merge_cmp limit old edits < 0" "within limit edits" using new by (auto simp: merge_cmp_def within_def bytes_Compare_def)
    ultimately show ?thesis using step[OF q _ refl, of "\<not> ed_del d" "ed_e d"] new(1) by (subst pk_merge.simps) (simp add: ed_add_def)
  next
    case same
    let ?ks = "if ed_del d \<or> \<not> v_equal (p_val (ed_e d)) (p_val x) then [ed_key d] else []"
    have q: "Q xs ds (ed_add d) ?ks" using same less.prems(1,2) by (auto simp: Q_def)
    have "(if ed_del d \<or> \<not> v_equal (p_val (ed_e d)) (p_val x) then pk_change (ed_key d) c else c) = pk_run H r [] ?ks c"
      using pk_change_run[OF less.prems(4)] pk_run_Nil[OF less.prems(4)] by auto
    moreover have "merge_cmp limit old edits = 0" using same by (auto simp: merge_cmp_def within_def bytes_Compare_def)
    ultimately show ?thesis using step[OF q _ refl, of "\<not> ed_del d" "ed_e d"] same
      by (cases "ed_del d"; cases "v_equal (p_val (ed_e d)) (p_val x)"; subst pk_merge.simps; simp add: ed_add_def)
  next
    case old
    then have q: "Q xs edits [x] []" using less.prems(1,2) by (cases edits) (auto simp: Q_def within_def)
    have "merge_cmp limit old edits > 0" using old by (auto simp: merge_cmp_def bytes_Compare_def)
    then show ?thesis using step[OF q, of True x c] old(1) pk_run_Nil[OF less.prems(4)] by (subst pk_merge.simps) simp
  qed
qed

end

section \<open>A stored map\<close>

definition p_nodes :: "(bytes \<Rightarrow> hash) \<Rightarrow> brule \<Rightarrow> pentry list \<Rightarrow> pnode set" where
  "p_nodes H r E = insert (p_root H r E) {n. \<exists>l g. l < p_height H r E \<and> g \<in> set (p_gs H r E l) \<and> n = p_node l g}"

lemma p_height_Nil [simp]: "p_height H r [] = 0"
  by (simp add: p_height_def p_root_def p_top.simps)

lemma p_root_Nil [simp]: "p_root H r [] = empty_node"
  by (simp add: p_root_def p_top.simps empty_node_def)

lemma p_root_ok:
  assumes "p_ok inl E"
  shows "pnode_ok inl (p_root H r E)"
proof -
  have h: "p_root H r E = p_node (p_height H r E) (p_lev H r E (p_height H r E))" "p_height H r E \<le> 62"
    using p_height[OF p_ok_length[OF assms]] by auto
  have "0 < p_height H r E \<longrightarrow> p_lev H r E (p_height H r E) \<noteq> []" by (cases "E = []") auto
  then show ?thesis
    unfolding h(1) using p_lev_sub_ok[OF assms, of H r "p_height H r E" "[]" "p_lev H r E (p_height H r E)" "[]"] h(2) by (simp add: maxLevel_def)
qed

lemma pc_ruleD:
  assumes "pc_rule c = Inr r"
  shows "0 \<le> pc_InlineLimit c" and "pc_InlineLimit c \<le> maxInlineLimit" and "pc_InlineLimit c < 2 ^ 63" and "boundary_New (pc_Nodes c) = Inr r"
  using assms by (auto simp: pc_rule_def maxInlineLimit_def split: if_splits)

lemma p_gs_fits:
  assumes "pc_rule c = Inr r" and "p_ok (pc_InlineLimit c) E" and "g \<in> set (p_gs H r E l)"
  shows "length (n_encode (p_node l g)) \<le> MaxChunkSize"
  using p_group_fits[OF pc_ruleD(4,1,2)[OF assms(1)] p_lev_entries[OF assms(2)]] assms(3) by (simp add: p_gs_def)

lemma p_root_group: "p_ok inl E \<Longrightarrow> E \<noteq> [] \<Longrightarrow> \<exists>g. p_gs H r E (p_height H r E) = [g] \<and> p_root H r E = p_node (p_height H r E) g"
proof -
  assume "p_ok inl E" "E \<noteq> []"
  note h = p_height[OF p_ok_length[OF \<open>p_ok inl E\<close>]]
  have "length (p_gs H r E (p_height H r E)) = 1"
    using h(2)[of H r] p_gs_eq_Nil[of H r E "p_height H r E"] \<open>E \<noteq> []\<close> by (cases "p_gs H r E (p_height H r E)") auto
  then obtain g where g: "p_gs H r E (p_height H r E) = [g]" by (cases "p_gs H r E (p_height H r E)") auto
  then have "p_lev H r E (p_height H r E) = g" using concat_p_gs[of H r E "p_height H r E"] by simp
  then show ?thesis using g h(1)[of H r] by auto
qed

lemma p_nodes_ok:
  assumes "pc_rule c = Inr r" and "p_ok (pc_InlineLimit c) E" and "n \<in> p_nodes H r E"
  shows "pnode_ok (pc_InlineLimit c) n \<and> length (n_encode n) \<le> MaxChunkSize"
proof (cases "n = p_root H r E")
  case True
  have "length (n_encode n) \<le> MaxChunkSize"
  proof (cases "E = []")
    case True
    then show ?thesis using length_n_encode_sizes[of n] \<open>n = p_root H r E\<close> by (simp add: empty_node_def MaxChunkSize_def)
  next
    case False
    then show ?thesis using p_root_group[OF assms(2) False, of H r] p_gs_fits[OF assms(1,2), of _ H "p_height H r E"] True by auto
  qed
  then show ?thesis using True p_root_ok[OF assms(2)] by simp
next
  case False
  then obtain l g where lg: "l < p_height H r E" "g \<in> set (p_gs H r E l)" "n = p_node l g" using assms(3) by (auto simp: p_nodes_def)
  then have "l \<le> maxLevel" using p_height(4)[OF p_ok_length[OF assms(2)], of H r] by (simp add: maxLevel_def)
  then show ?thesis using p_group_ok[OF assms(2) lg(2)] p_gs_fits[OF assms(1,2) lg(2)] lg(3) by simp
qed

lemma n_encode_inj:
  assumes "pnode_ok inl n" and "pnode_ok inl n'" and "n_encode n = n_encode n'" and "0 \<le> inl" "inl < 2 ^ 63" and "length (n_encode n) \<le> MaxChunkSize"
  shows "n = n'"
proof -
  have "length (n_encode n) < 2 ^ 64" using assms(6) by (simp add: MaxChunkSize_def)
  then have "decodeNode (n_encode n) inl = Inr n" and "decodeNode (n_encode n) inl = Inr n'"
    using decodeNode_encode[OF assms(1,4,5)] decodeNode_encode[OF assms(2,4,5)] unfolding assms(3) by blast+
  then show ?thesis by (metis sum.inject(2))
qed

context chunk_rw
begin

text \<open>The map has the tree of \<open>E\<close>, and its nodes have been put.\<close>

definition p_stored :: "'s \<Rightarrow> pmap \<Rightarrow> pentry list \<Rightarrow> bool" where
  "p_stored s m E \<longleftrightarrow> p_ok (pc_InlineLimit (pm_cfg m)) E \<and> pc_rule (pm_cfg m) = Inr (pm_rule m) \<and>
     pm_top m = Some (p_root H (pm_rule m) E) \<and> pm_root m = H (n_encode (p_root H (pm_rule m) E)) \<and>
     pm_count m = of_nat (length E) \<and> pm_height m = p_height H (pm_rule m) E \<and> n_encode ` p_nodes H (pm_rule m) E \<subseteq> puts s"

lemma p_stored_grows: "p_stored s m E \<Longrightarrow> grows s s' \<Longrightarrow> p_stored s' m E"
  by (auto simp: p_stored_def grows_def)

text \<open>Any well-formed node that was put is read back, through the map's kept root or not.\<close>

lemma m_read_put:
  assumes "ok s" and "inj_on H (puts s)" and "p_stored s m E" and "n_encode n \<in> puts s" and "pnode_ok (pc_InlineLimit (pm_cfg m)) n"
    and "length (n_encode n) \<le> MaxChunkSize"
  shows "m_read ops s m (H (n_encode n)) = Inr n"
proof (cases "H (n_encode n) = pm_root m")
  case True
  let ?t = "p_root H (pm_rule m) E"
  have t: "n_encode ?t \<in> puts s" "H (n_encode n) = H (n_encode ?t)" "pm_top m = Some ?t" using assms(3) True by (auto simp: p_stored_def p_nodes_def)
  then have "n_encode n = n_encode ?t" using assms(2,4) by (metis inj_onD)
  moreover have "pnode_ok (pc_InlineLimit (pm_cfg m)) ?t" using assms(3) p_root_ok by (simp add: p_stored_def)
  ultimately have "n = ?t"
    using n_encode_inj[OF assms(5)] assms(6) pc_ruleD(1,3)[of "pm_cfg m" "pm_rule m"] assms(3) by (simp add: p_stored_def)
  then show ?thesis using True t(3) by (simp add: m_read_def)
next
  case False
  have "view s (H (n_encode n)) = Some (n_encode n)" using view_put[OF assms(1,2,4)] .
  then have "rw_Get ops s (H (n_encode n)) = Inr (n_encode n)" using get_eq[OF assms(1)] by simp
  moreover have "length (n_encode n) < 2 ^ 64" using assms(6) by (simp add: MaxChunkSize_def)
  ultimately show ?thesis
    using False decodeNode_encode[OF assms(5)] pc_ruleD(1,3)[of "pm_cfg m" "pm_rule m"] assms(3) by (simp add: m_read_def p_stored_def result_simps)
qed

lemma p_stored_held:
  assumes "ok s" and "inj_on H (puts s)" and "p_stored s m E"
  shows "p_held H ops s m E"
proof -
  have e: "p_ok (pc_InlineLimit (pm_cfg m)) E" "pm_top m = Some (p_root H (pm_rule m) E)" "pc_rule (pm_cfg m) = Inr (pm_rule m)"
    using assms(3) by (auto simp: p_stored_def)
  have "m_read ops s m (H (n_encode (p_node l g))) = Inr (p_node l g)" if "l < mhgt H m E" "g \<in> set (mgs H m E l)" for l g
  proof -
    have n: "p_node l g \<in> p_nodes H (pm_rule m) E" using that by (auto simp: p_nodes_def)
    then have "n_encode (p_node l g) \<in> puts s" using assms(3) by (auto simp: p_stored_def)
    then show ?thesis using p_nodes_ok[OF e(3,1) n] by (intro m_read_put[OF assms]) auto
  qed
  then show ?thesis using e by (simp add: p_held_def)
qed

end

section \<open>One stretch\<close>

lemma dropWhile_above: "strictly_sorted (map f xs) \<Longrightarrow> x \<in> set (dropWhile (\<lambda>x. f x \<le> k) xs) \<Longrightarrow> k < f x"
  by (induction xs) (auto split: if_splits simp: not_le)

text \<open>The edits of a node are apart from the entries after it, the edits after it from its entries.\<close>

lemma edits_split:
  assumes "ed_wf edits" and "strictly_sorted (map p_key (concat gs))" and "[] \<notin> set gs" and "a < length gs"
    and "limit = (if Suc a = length gs then None else Some (p_key (last (gs ! a))))"
    and "e1 = takeWhile (\<lambda>d. limit = None \<or> ed_key d \<le> the limit) edits" and "e2 = dropWhile (\<lambda>d. limit = None \<or> ed_key d \<le> the limit) edits"
    and "\<forall>x\<in>set (concat (take a gs)). \<forall>d\<in>set edits. p_key x < ed_key d"
  shows "edits = e1 @ e2" and "\<forall>d\<in>set e1. \<forall>y\<in>set (concat (drop (Suc a) gs)). ed_key d < p_key y"
    and "\<forall>x\<in>set (concat (take (Suc a) gs)). \<forall>d\<in>set e2. p_key x < ed_key d" and "Suc a = length gs \<Longrightarrow> e2 = []"
    and "Suc a < length gs \<Longrightarrow> \<forall>d\<in>set e1. ed_key d \<le> p_key (last (gs ! a))"
proof -
  show "Suc a < length gs \<Longrightarrow> \<forall>d\<in>set e1. ed_key d \<le> p_key (last (gs ! a))" using assms(5,6) by (auto dest: set_takeWhileD)
  have l: "last (gs ! a) \<in> set (gs ! a)" using assms(3,4) by (metis last_in_set nth_mem)
  have sg: "strictly_sorted (map p_key (gs ! a))" using assms(2) by (simp add: concat_split_at[OF assms(4)] sorted_wrt_append)
  show "edits = e1 @ e2" by (simp add: assms(6,7))
  show last: "Suc a = length gs \<Longrightarrow> e2 = []" using assms(5,7) by simp
  show "\<forall>d\<in>set e1. \<forall>y\<in>set (concat (drop (Suc a) gs)). ed_key d < p_key y"
  proof (intro ballI)
    fix d y
    assume d: "d \<in> set e1" and y: "y \<in> set (concat (drop (Suc a) gs))"
    then have n: "Suc a \<noteq> length gs" by auto
    then have "ed_key d \<le> p_key (last (gs ! a))" using d assms(5,6) by (auto dest: set_takeWhileD)
    also have "p_key (last (gs ! a)) < p_key y"
      using assms(2) l y by (auto simp: concat_split_at[OF assms(4)] sorted_wrt_append)
    finally show "ed_key d < p_key y" .
  qed
  show "\<forall>x\<in>set (concat (take (Suc a) gs)). \<forall>d\<in>set e2. p_key x < ed_key d"
  proof (cases "Suc a = length gs")
    case True
    then show ?thesis using last by simp
  next
    case False
    then have e2: "e2 = dropWhile (\<lambda>d. ed_key d \<le> p_key (last (gs ! a))) edits" using assms(5,7) by simp
    have "p_key x < ed_key d" if "x \<in> set (gs ! a)" "d \<in> set e2" for x d
      using sorted_last_le[OF sg that(1)] dropWhile_above[of ed_key edits d "p_key (last (gs ! a))"] that(2) assms(1) unfolding e2 ed_wf_def by simp
    then show ?thesis using assms(8) set_dropWhileD[of _ _ edits] by (auto simp: take_Suc_conv_app_nth[OF assms(4)] assms(7))
  qed
qed

context chunk_rw
begin

lemma nodeHash_at:
  assumes "c_node H m E l a c" and "l < mhgt H m E"
  shows "nodeHash c = H (n_encode (p_node l (mgs H m E l ! a)))"
  using assms c_at_valid[of H m E "Suc l" a "tl c"] by (auto simp: c_node_def nodeHash_def up_entry_def)

lemma clean_held: "clean U s \<Longrightarrow> p_stored s m E \<Longrightarrow> p_held H ops s m E"
  by (intro p_stored_held) (auto simp: clean_def intro: inj_on_subset)

text \<open>What \<^verbatim>\<open>applyLevel\<close> does with the node the cursor is in.\<close>

lemma al_node_wrote:
  assumes l: "l < mhgt H m E" and gs: "gs = mgs H m E l" and r: "r = pm_rule m"
    and prems: "p_stored s m E" "clean U s" "c_node H m E l a c" "pk_steady r ch" "pk_level ch = l" "\<not> pk_hold ch"
      "set (pk_existing ch) \<subseteq> H ` puts s" "ed_wf edits" "\<forall>x\<in>set (concat (take a gs)). \<forall>d\<in>set edits. p_key x < ed_key d"
      "\<forall>g\<in>set (p_chop_from H r l (pk_pending ch) (ed_apply edits (concat (drop a gs)))). fits U (p_node l g)"
  obtains N e1 e2 ch1 s1 where "a < length gs" "edits = e1 @ e2" "\<forall>d\<in>set e1. \<forall>y\<in>set (concat (drop (Suc a) gs)). ed_key d < p_key y"
    "\<forall>x\<in>set (concat (take (Suc a) gs)). \<forall>d\<in>set e2. p_key x < ed_key d" "Suc a = length gs \<longrightarrow> e2 = []"
    "Suc a < length gs \<longrightarrow> (\<forall>d\<in>set e1. ed_key d \<le> p_key (last (gs ! a)))"
    "p_chop_from H r l (pk_pending ch) (ed_apply edits (concat (drop a gs))) = N @ p_chop_from H r l (pk_pending ch1) (ed_apply e2 (concat (drop (Suc a) gs)))"
    "pk_steady r ch1" "pk_level ch1 = l" "\<not> pk_hold ch1" "set (pk_existing ch1) \<subseteq> H ` puts s1" "pk_out ch1 = pk_out ch @ map (p_up H l) N"
    "pk_changed ch1 = map_option (\<lambda>ks. ks @ ed_changed e1 (gs ! a)) (pk_changed ch)" "wrote s (p_node l ` set N) s1" "clean U s1" "p_stored s1 m E"
    "al_stretch H ops m c removed edits ch s =
      (if pk_pending ch1 = [] then (Inr (removed @ [p_up H l (gs ! a)], e2, ch1), s1)
       else if Suc a = length gs then sbind (pk_end H ops ch1) (\<lambda>ch. sret (removed @ [p_up H l (gs ! a)], e2, ch)) s1
       else case c_nextNode ops s1 m c of
              (Inl e, c) \<Rightarrow> (Inl e, s1)
            | (Inr _, c') \<Rightarrow> if c_valid c' then al_stretch H ops m c' (removed @ [p_up H l (gs ! a)]) e2 ch1 s1 else (Inl (ErrOther ''loops for ever''), s1))"
proof -
  have a: "a < length gs" "n_entries (cf_n (hd c)) = gs ! a" using prems(3) gs by (auto simp: c_node_def)
  note held = clean_held[OF prems(2,1)]
  have last: "c_lastNode c \<longleftrightarrow> Suc a = length gs" using c_lastNode_at[OF held prems(3)] gs by simp
  define limit where "limit = (if Suc a = length gs then None else Some (p_key (last (gs ! a))))"
  define e1 where "e1 = takeWhile (\<lambda>d. limit = None \<or> ed_key d \<le> the limit) edits"
  define e2 where "e2 = dropWhile (\<lambda>d. limit = None \<or> ed_key d \<le> the limit) edits"
  have srt: "strictly_sorted (map p_key (concat gs))" "[] \<notin> set gs" using p_held_sorted[OF held, of H r l] nonempty_groups[of H m E l] gs r by auto
  note sp = edits_split[OF prems(8) srt a(1) limit_def e1_def e2_def prems(9)]
  have dr: "concat (drop a gs) = gs ! a @ concat (drop (Suc a) gs)" using a(1) by (simp add: Cons_nth_drop_Suc[symmetric])
  have ap: "ed_apply edits (concat (drop a gs)) = ed_apply e1 (gs ! a) @ ed_apply e2 (concat (drop (Suc a) gs))"
    unfolding dr using sp(1-3) a(1) by (simp, intro ed_apply_append) (auto simp: take_Suc_conv_app_nth)
  obtain N cur where N: "p_chop H r l (pk_pending ch) (ed_apply e1 (gs ! a)) = (N, cur)" by (metis surj_pair)
  define ch0 where "ch0 = ch\<lparr>pk_existing := nodeHash c # pk_existing ch\<rparr>"
  define ch1 where "ch1 = pk_run H r (ed_apply e1 (gs ! a)) (ed_changed e1 (gs ! a)) ch0"
  have ch0: "pk_steady r ch0" "pk_level ch0 = l" "\<not> pk_hold ch0" "pk_pending ch0 = pk_pending ch" "pk_out ch0 = pk_out ch" "pk_changed ch0 = pk_changed ch"
    using prems(4-6) by (simp_all add: ch0_def pk_steady_def)
  then have run: "pk_pending ch1 = cur" "pk_out ch1 = pk_out ch @ map (p_up H l) N" "pk_level ch1 = l" "\<not> pk_hold ch1" "pk_steady r ch1"
    "pk_changed ch1 = map_option (\<lambda>ks. ks @ ed_changed e1 (gs ! a)) (pk_changed ch)" "pk_existing ch1 = pk_existing ch0"
    using N by (simp_all add: ch1_def pk_run_out)
  have from1: "p_chop_from H r l (pk_pending ch) (ed_apply edits (concat (drop a gs))) = N @ p_chop_from H r l (pk_pending ch1) (ed_apply e2 (concat (drop (Suc a) gs)))"
    unfolding ap run(1) by (rule p_chop_from_append[OF N])
  have "p_node l (gs ! a) \<in> p_nodes H r E" using l gs r a(1) by (auto simp: p_nodes_def)
  then have ex0: "set (pk_existing ch0) \<subseteq> H ` puts s"
    using prems(1,7) nodeHash_at[OF prems(3) l] gs r by (auto simp: ch0_def p_stored_def)
  have d0: "pk_drawn H r (ed_apply e1 (gs ! a)) ch0 = p_node l ` set N" using ch0 N by (simp add: pk_drawn_def)
  have fit1: "\<And>n. n \<in> p_node l ` set N \<Longrightarrow> fits U n" using prems(10) unfolding from1 by auto
  obtain s1 where s1: "pk_merge H ops limit (gs ! a) edits ch0 s = (Inr (e2, ch1), s1)" "wrote s (p_node l ` set N) s1"
    using pk_merge_wrote[OF e1_def e2_def prems(2) ch0(1) _ ex0, of "gs ! a"] fit1 unfolding d0 ch1_def by auto
  have up: "\<lparr>p_key = n_lastKey (cf_n (hd c)), p_val = zero_value, p_child = nodeHash c, p_count = n_total (cf_n (hd c))\<rparr> = p_up H l (gs ! a)"
    "(if \<not> c_lastNode c then Some (n_lastKey (cf_n (hd c))) else None) = limit" "limit = None \<longleftrightarrow> Suc a = length gs"
    using prems(3) gs nodeHash_at[OF prems(3) l] last by (auto simp: c_node_def up_entry_def limit_def n_lastKey_def)
  show thesis
  proof (rule that[OF a(1) sp(1-3) impI[OF sp(4)] impI[OF sp(5)] from1 run(5,3,4) _ run(2,6) s1(2)])
    show "set (pk_existing ch1) \<subseteq> H ` puts s1" using ex0 run(7) wrote_puts[OF s1(2)] by auto
    show "clean U s1" "p_stored s1 m E" using wrote_clean[OF prems(2) s1(2) fit1] p_stored_grows[OF prems(1)] s1(2) by (auto simp: wrote_def)
    show "al_stretch H ops m c removed edits ch s =
      (if pk_pending ch1 = [] then (Inr (removed @ [p_up H l (gs ! a)], e2, ch1), s1)
       else if Suc a = length gs then sbind (pk_end H ops ch1) (\<lambda>ch. sret (removed @ [p_up H l (gs ! a)], e2, ch)) s1
       else case c_nextNode ops s1 m c of
              (Inl e, c) \<Rightarrow> (Inl e, s1)
            | (Inr _, c') \<Rightarrow> if c_valid c' then al_stretch H ops m c' (removed @ [p_up H l (gs ! a)]) e2 ch1 s1 else (Inl (ErrOther ''loops for ever''), s1))"
      unfolding al_stretch.simps[of H ops m c] Let_def up(1,2) a(2) ch0_def[symmetric]
      using s1(1) by (simp add: sbind_def[of "pk_merge H ops limit (gs ! a) edits ch0"] up(3))
  qed
qed

text \<open>A stretch from node \<open>a\<close> has replaced the nodes up to \<open>b\<close> by the nodes \<open>N\<close>, with the edits up to there.\<close>

definition stretched :: "pmap \<Rightarrow> nat \<Rightarrow> pentry list list \<Rightarrow> nat \<Rightarrow> pentry list \<Rightarrow> edit list \<Rightarrow> pchunker \<Rightarrow> 's \<Rightarrow> nat \<Rightarrow>
    pentry list list \<Rightarrow> edit list \<Rightarrow> edit list \<Rightarrow> pchunker \<Rightarrow> 's \<Rightarrow> bool" where
  "stretched m l gs a cur edits ch s b N e1 e2 ch' s' \<longleftrightarrow> a \<le> b \<and> b < length gs \<and> edits = e1 @ e2 \<and>
     pk_out ch' = pk_out ch @ map (p_up H l) N \<and>
     pk_changed ch' = map_option (\<lambda>ks. ks @ ed_changed e1 (concat (drop a (take (Suc b) gs)))) (pk_changed ch) \<and>
     p_chop_from H (pm_rule m) l cur (ed_apply edits (concat (drop a gs))) = N @ p_chop_all H (pm_rule m) l (ed_apply e2 (concat (drop (Suc b) gs))) \<and>
     (\<forall>d\<in>set e1. \<forall>y\<in>set (concat (drop (Suc b) gs)). ed_key d < p_key y) \<and>
     (\<forall>x\<in>set (concat (take (Suc b) gs)). \<forall>d\<in>set e2. p_key x < ed_key d) \<and> (Suc b = length gs \<longrightarrow> e2 = []) \<and>
     (Suc b < length gs \<longrightarrow> (\<forall>d\<in>set e1. ed_key d \<le> p_key (last (gs ! b)))) \<and> wrote s (p_node l ` set N) s'"

lemma stretched_more:
  assumes "a < length gs" and "edits = e1 @ e2" and "\<forall>d\<in>set e1. \<forall>y\<in>set (concat (drop (Suc a) gs)). ed_key d < p_key y"
    and "\<forall>x\<in>set (concat (take (Suc a) gs)). \<forall>d\<in>set e2. p_key x < ed_key d"
    and "p_chop_from H (pm_rule m) l cur (ed_apply edits (concat (drop a gs))) = N @ p_chop_from H (pm_rule m) l cur1 (ed_apply e2 (concat (drop (Suc a) gs)))"
    and "pk_out ch1 = pk_out ch @ map (p_up H l) N" and "pk_changed ch1 = map_option (\<lambda>ks. ks @ ed_changed e1 (gs ! a)) (pk_changed ch)"
    and "wrote s (p_node l ` set N) s1" and "stretched m l gs (Suc a) cur1 e2 ch1 s1 b N' f1 f2 ch' s'"
    and "[] \<notin> set gs"
  shows "stretched m l gs a cur edits ch s b (N @ N') (e1 @ f1) f2 ch' s'"
proof -
  have st: "Suc a \<le> b" "b < length gs" "e2 = f1 @ f2" using assms(9) by (auto simp: stretched_def)
  let ?Y = "concat (drop (Suc a) (take (Suc b) gs))"
  have d: "concat (drop a (take (Suc b) gs)) = gs ! a @ ?Y" using st(1) assms(1) by (simp add: Cons_nth_drop_Suc[symmetric] nth_take)
  have Y: "set ?Y \<subseteq> set (concat (drop (Suc a) gs))" by (auto simp: drop_take dest: in_set_takeD)
  have X: "set (gs ! a) \<subseteq> set (concat (take (Suc a) gs))" using assms(1) by (auto simp: take_Suc_conv_app_nth)
  have "ed_changed (e1 @ f1) (gs ! a @ ?Y) = ed_changed e1 (gs ! a) @ ed_changed f1 ?Y"
    using assms(3,4) X Y st(3) by (intro ed_changed_append) (blast, auto)
  moreover have "set (concat (drop (Suc b) gs)) \<subseteq> set (concat (drop (Suc a) gs))"
    using set_drop_subset_set_drop[of "Suc a" "Suc b" gs] st(1) by auto
  moreover have "wrote s (p_node l ` set (N @ N')) s'"
    using wrote_trans[OF assms(8)] assms(9) by (auto simp: stretched_def image_Un)
  moreover have "ed_key d \<le> p_key (last (gs ! b))" if "d \<in> set e1" for d
  proof -
    have "gs ! b \<in> set (drop (Suc a) gs)" using st(1,2) nth_mem[of "b - Suc a" "drop (Suc a) gs"] by simp
    moreover have "gs ! b \<noteq> []" using st(2) assms(10) by (metis nth_mem)
    ultimately show ?thesis using assms(3) that by (fastforce simp: less_imp_le)
  qed
  ultimately show ?thesis
    using assms(2,3,5-7,9) st d by (auto simp: stretched_def option.map_comp o_def)
qed

lemma al_stretch_wrote:
  assumes "l < mhgt H m E" and "gs = mgs H m E l"
  shows "\<lbrakk>p_stored s m E; clean U s; c_node H m E l a c; pk_steady (pm_rule m) ch; pk_level ch = l; \<not> pk_hold ch;
      set (pk_existing ch) \<subseteq> H ` puts s; ed_wf edits; \<forall>x\<in>set (concat (take a gs)). \<forall>d\<in>set edits. p_key x < ed_key d;
      \<forall>g\<in>set (p_chop_from H (pm_rule m) l (pk_pending ch) (ed_apply edits (concat (drop a gs)))). fits U (p_node l g)\<rbrakk> \<Longrightarrow>
    \<exists>b N e1 e2 ch' s'. stretched m l gs a (pk_pending ch) edits ch s b N e1 e2 ch' s' \<and>
      al_stretch H ops m c removed edits ch s = (Inr (removed @ map (p_up H l) (drop a (take (Suc b) gs)), e2, ch'), s')"
proof (induction "length gs - a" arbitrary: a c removed edits ch s rule: less_induct)
  case less
  let ?r = "pm_rule m"
  obtain N e1 e2 ch1 s1 where
    a: "a < length gs" and sp: "edits = e1 @ e2" "\<forall>d\<in>set e1. \<forall>y\<in>set (concat (drop (Suc a) gs)). ed_key d < p_key y"
      "\<forall>x\<in>set (concat (take (Suc a) gs)). \<forall>d\<in>set e2. p_key x < ed_key d" "Suc a = length gs \<longrightarrow> e2 = []"
      "Suc a < length gs \<longrightarrow> (\<forall>d\<in>set e1. ed_key d \<le> p_key (last (gs ! a)))"
    and fr: "p_chop_from H ?r l (pk_pending ch) (ed_apply edits (concat (drop a gs))) = N @ p_chop_from H ?r l (pk_pending ch1) (ed_apply e2 (concat (drop (Suc a) gs)))"
    and ch1: "pk_steady ?r ch1" "pk_level ch1 = l" "\<not> pk_hold ch1" "set (pk_existing ch1) \<subseteq> H ` puts s1"
    and out: "pk_out ch1 = pk_out ch @ map (p_up H l) N" "pk_changed ch1 = map_option (\<lambda>ks. ks @ ed_changed e1 (gs ! a)) (pk_changed ch)"
    and w: "wrote s (p_node l ` set N) s1" "clean U s1" "p_stored s1 m E"
    and unf: "al_stretch H ops m c removed edits ch s =
      (if pk_pending ch1 = [] then (Inr (removed @ [p_up H l (gs ! a)], e2, ch1), s1)
       else if Suc a = length gs then sbind (pk_end H ops ch1) (\<lambda>ch. sret (removed @ [p_up H l (gs ! a)], e2, ch)) s1
       else case c_nextNode ops s1 m c of
              (Inl e, c) \<Rightarrow> (Inl e, s1)
            | (Inr _, c') \<Rightarrow> if c_valid c' then al_stretch H ops m c' (removed @ [p_up H l (gs ! a)]) e2 ch1 s1 else (Inl (ErrOther ''loops for ever''), s1))"
    by (rule al_node_wrote[OF assms refl less.prems]) (rule that; assumption)
  have dt: "drop a (take (Suc a) gs) = [gs ! a]" using a by (simp add: take_Suc_conv_app_nth)
  have one: "stretched m l gs a (pk_pending ch) edits ch s a N' e1 e2 ch' s'"
    if "pk_out ch' = pk_out ch @ map (p_up H l) N'" "pk_changed ch' = pk_changed ch1" "wrote s (p_node l ` set N') s'"
      "p_chop_from H ?r l (pk_pending ch) (ed_apply edits (concat (drop a gs))) = N' @ p_chop_all H ?r l (ed_apply e2 (concat (drop (Suc a) gs)))" for N' ch' s'
    using that a sp out(2) dt by (simp add: stretched_def)
  consider "pk_pending ch1 = []" | "pk_pending ch1 \<noteq> []" "Suc a = length gs" | "pk_pending ch1 \<noteq> []" "Suc a \<noteq> length gs" by blast
  then show ?case
  proof cases
    case 1
    then show ?thesis using one[OF out(1) refl w(1)] fr unf dt by (intro exI[of _ a] exI[of _ N] exI[of _ e1] exI[of _ e2] exI[of _ ch1] exI[of _ s1]) simp
  next
    case 2
    have fr2: "p_chop_from H ?r l (pk_pending ch) (ed_apply edits (concat (drop a gs))) = N @ [pk_pending ch1]"
      using fr 2 sp(4) by (simp add: p_chop_from_def)
    then have "fits U (p_node l (pk_pending ch1))" using less.prems(10) by simp
    then obtain ch2 s2 where e: "pk_end H ops ch1 s1 = (Inr ch2, s2)" "wrote s1 {p_node l (pk_pending ch1)} s2"
      using pk_end_wrote[OF w(2), of ch1] ch1 2(1) by auto
    let ?N = "N @ [pk_pending ch1]"
    have "stretched m l gs a (pk_pending ch) edits ch s a ?N e1 e2 ch2 s2"
      using pk_end_Inr(1,4)[OF e(1)] out(1) ch1 2 fr2 sp(4) wrote_trans[OF w(1) e(2)] by (intro one) auto
    moreover have "al_stretch H ops m c removed edits ch s = (Inr (removed @ map (p_up H l) (drop a (take (Suc a) gs)), e2, ch2), s2)"
      using unf 2 e(1) dt by (simp add: sbind_def)
    ultimately show ?thesis by blast
  next
    case 3
    then have n: "Suc a < length gs" using a by simp
    obtain c' where c': "c_nextNode ops s1 m c = (Inr (), c')" "c_at H m E l (goff gs (Suc a)) c'"
      using c_nextNode_at[OF clean_held[OF w(2,3)] less.prems(3)] n assms(2) by auto
    have cn: "c_node H m E l (Suc a) c'" "c_valid c'" using c_at_start[of H m E l "Suc a" c'] c_at_valid[OF c'(2)] c'(2) n assms(2) by auto
    have wf: "ed_wf e2" using less.prems(8) sp(1) by (simp add: ed_wf_append)
    have ft: "\<forall>g\<in>set (p_chop_from H ?r l (pk_pending ch1) (ed_apply e2 (concat (drop (Suc a) gs)))). fits U (p_node l g)"
      using less.prems(10) unfolding fr by simp
    have lt: "length gs - Suc a < length gs - a" using a by simp
    obtain b N' f1 f2 ch' s' where st: "stretched m l gs (Suc a) (pk_pending ch1) e2 ch1 s1 b N' f1 f2 ch' s'"
      and res: "al_stretch H ops m c' (removed @ [p_up H l (gs ! a)]) e2 ch1 s1 =
        (Inr ((removed @ [p_up H l (gs ! a)]) @ map (p_up H l) (drop (Suc a) (take (Suc b) gs)), f2, ch'), s')"
      using less.hyps[OF lt w(3,2) cn(1) ch1 wf sp(3) ft] by blast
    have b: "Suc a \<le> b" "b < length gs" using st by (auto simp: stretched_def)
    have dt2: "drop a (take (Suc b) gs) = gs ! a # drop (Suc a) (take (Suc b) gs)"
      using b a by (simp add: Cons_nth_drop_Suc[symmetric] nth_take)
    have "stretched m l gs a (pk_pending ch) edits ch s b (N @ N') (e1 @ f1) f2 ch' s'"
      by (rule stretched_more[OF a sp(1-3) fr out w(1) st]) (simp add: assms(2) nonempty_groups)
    then show ?thesis using unf 3 c'(1) cn(2) res dt2 by fastforce
  qed
qed

end

end
