(* ===== verification/ProllyCanon.thy ===== *)
theory ProllyCanon
  imports ProllyApply
begin

text \<open>
  Flushing, continued: a whole level, the root, and the result. A level's edits become the edits of
  the level above; applying edits to the tree of \<open>E\<close> gives the tree of the edited entries, node for
  node, so a map's root hash depends on its entries only.
\<close>

section \<open>Replacing part of a level\<close>

lemma p_up_key [simp]: "p_key (p_up H l g) = p_key (last g)"
  by (simp add: up_entry_def n_lastKey_def)

lemma p_up_val [simp]: "p_val (p_up H l g) = zero_value"
  by (simp add: up_entry_def)

lemma take_drop_split: "k \<le> a \<Longrightarrow> a \<le> c \<Longrightarrow> drop k xs = drop k (take a xs) @ drop a (take c xs) @ drop c xs"
  by (metis append_assoc append_take_drop_id drop_drop le_add_diff_inverse2 take_drop)

lemma replace_level:
  assumes gs: "strictly_sorted (map p_key (concat gs))" "[] \<notin> set gs" and ab: "k \<le> a" "a \<le> b" "b < length gs"
    and wf: "ed_wf e1" and N1: "concat N1 = ed_apply e1 (concat (drop a (take (Suc b) gs)))" "[] \<notin> set N1"
    and e1: "\<forall>x\<in>set (concat (take a gs)). \<forall>d\<in>set e1. p_key x < ed_key d" "\<forall>d\<in>set e1. \<forall>y\<in>set (concat (drop (Suc b) gs)). ed_key d < p_key y"
      "Suc b < length gs \<longrightarrow> (\<forall>d\<in>set e1. ed_key d \<le> p_key (last (gs ! b)))"
    and up2: "ed_wf up2" "\<forall>x\<in>set (concat (take (Suc b) gs)). \<forall>d\<in>set up2. p_key x < ed_key d" "Suc b = length gs \<longrightarrow> up2 = []"
      "ed_apply up2 (map (p_up H l) (drop (Suc b) gs)) = map (p_up H l) N2"
    and pr: "pr = pm_replace (map (p_up H l) (drop a (take (Suc b) gs))) (map (p_up H l) N1)"
  shows "ed_wf (pr @ up2)" and "\<forall>x\<in>set (concat (take a gs)). \<forall>d\<in>set (pr @ up2). p_key x < ed_key d"
    and "ed_apply (pr @ up2) (map (p_up H l) (drop k gs)) = map (p_up H l) (drop k (take a gs) @ N1 @ N2)"
proof -
  let ?S = "drop a (take (Suc b) gs)"
  have gs3: "gs = take a gs @ ?S @ drop (Suc b) gs" using take_drop_split[of 0 a "Suc b" gs] ab by simp
  have cgs: "concat gs = concat (take a gs) @ concat ?S @ concat (drop (Suc b) gs)" by (subst gs3) (simp only: concat_append)
  have ne: "[] \<notin> set ?S" "[] \<notin> set (take a gs)" "[] \<notin> set (drop (Suc b) gs)" using gs(2) by (auto dest: in_set_dropD in_set_takeD)
  have srt: "strictly_sorted (map p_key (concat ?S))" "\<And>x y. x \<in> set (concat (take a gs)) \<Longrightarrow> y \<in> set (concat ?S) \<Longrightarrow> p_key x < p_key y"
    "\<And>x y. x \<in> set (concat ?S) \<Longrightarrow> y \<in> set (concat (drop (Suc b) gs)) \<Longrightarrow> p_key x < p_key y"
    using gs(1) unfolding cgs by (auto simp: sorted_wrt_append simp del: set_concat)
  have mem: "last g \<in> set (concat G)" if "g \<in> set G" "[] \<notin> set G" for g :: "pentry list" and G
    using that by (auto intro!: bexI[of _ g] last_in_set)
  have prk: "ed_key d \<in> p_key ` set (concat ?S) \<union> ed_key ` set e1" if d: "d \<in> set pr" for d
  proof -
    have "ed_key d \<in> (\<lambda>g. p_key (last g)) ` (set ?S \<union> set N1)"
      using pm_replace_keys[OF d[unfolded pr]] by (simp add: image_image image_Un)
    then obtain g where "g \<in> set ?S \<or> g \<in> set N1" "ed_key d = p_key (last g)" by blast
    moreover have "p_key (last g) \<in> p_key ` set (concat ?S) \<union> ed_key ` set e1" if "g \<in> set N1"
      using mem[OF that N1(2)] ed_apply_keys[OF wf] unfolding N1(1) by blast
    ultimately show ?thesis using mem[of g ?S] ne(1) by auto
  qed
  have inS: "set (concat ?S) \<subseteq> set (concat (take (Suc b) gs))" by (auto dest: in_set_dropD)
  have up2S: "\<And>x d. x \<in> set (concat ?S) \<Longrightarrow> d \<in> set up2 \<Longrightarrow> p_key x < ed_key d" using up2(2) inS by blast
  have lastb: "last (gs ! b) \<in> set (concat ?S)"
  proof -
    have "gs ! b \<in> set ?S" using ab nth_mem[of "b - a" ?S] by simp
    then show ?thesis using mem[OF _ ne(1)] by blast
  qed
  have prup: "ed_key d < ed_key d'" if "d \<in> set pr" "d' \<in> set up2" for d d'
  proof -
    have "Suc b < length gs" using that(2) up2(3) ab(3) by (cases "Suc b = length gs") auto
    then have "ed_key e \<le> p_key (last (gs ! b))" if "e \<in> set e1" for e using e1(3) that by blast
    then have "ed_key e < ed_key d'" if "e \<in> set e1" for e using that up2S[OF lastb \<open>d' \<in> set up2\<close>] by (meson le_less_trans)
    moreover note up2S[OF _ that(2)]
    ultimately show ?thesis using prk[OF that(1)] by (metis UnE imageE)
  qed
  have "strictly_sorted (map p_key (map (p_up H l) ?S))" "strictly_sorted (map p_key (map (p_up H l) N1))"
    using sorted_groups[OF srt(1) ne(1)] sorted_groups[of p_key N1] ed_apply_sorted[OF wf srt(1)] N1 by (simp_all add: o_def)
  note sg = this
  show "ed_wf (pr @ up2)" using pm_replace_wf[OF sg] up2(1) prup by (auto simp: ed_wf_append pr)
  show bef: "\<forall>x\<in>set (concat (take a gs)). \<forall>d\<in>set (pr @ up2). p_key x < ed_key d"
  proof (intro ballI)
    fix x d
    assume x: "x \<in> set (concat (take a gs))" and d: "d \<in> set (pr @ up2)"
    have "set (concat (take a gs)) \<subseteq> set (concat (take (Suc b) gs))" using set_take_subset_set_take[of a "Suc b" gs] ab by auto
    then have "d \<in> set up2 \<Longrightarrow> p_key x < ed_key d" using x up2(2) by blast
    moreover have "d \<in> set pr \<Longrightarrow> p_key x < ed_key d" using prk[of d] srt(2)[OF x] e1(1) x by (metis UnE imageE)
    ultimately show "p_key x < ed_key d" using d by auto
  qed
  have "ed_apply ([] @ pr @ up2) (map (p_up H l) (drop k (take a gs)) @ map (p_up H l) (?S @ drop (Suc b) gs)) =
      ed_apply [] (map (p_up H l) (drop k (take a gs))) @ ed_apply (pr @ up2) (map (p_up H l) (?S @ drop (Suc b) gs))"
  proof (rule ed_apply_append)
    fix x d
    assume x: "x \<in> set (map (p_up H l) (drop k (take a gs)))" and d: "d \<in> set (pr @ up2)"
    obtain g where g: "g \<in> set (take a gs)" "x = p_up H l g" using x by (auto dest!: in_set_dropD)
    then show "p_key x < ed_key d" using bef mem[OF g(1) ne(2)] d by (simp del: set_concat set_append)
  qed simp
  moreover have "ed_apply (pr @ up2) (map (p_up H l) ?S @ map (p_up H l) (drop (Suc b) gs)) =
      ed_apply pr (map (p_up H l) ?S) @ ed_apply up2 (map (p_up H l) (drop (Suc b) gs))"
  proof (rule ed_apply_append)
    fix d y
    assume d: "d \<in> set pr" and y: "y \<in> set (map (p_up H l) (drop (Suc b) gs))"
    then obtain g where g: "g \<in> set (drop (Suc b) gs)" "p_key y = p_key (last g)" by auto
    note lg = mem[OF g(1) ne(3)]
    have "\<forall>k \<in> p_key ` set (concat ?S) \<union> ed_key ` set e1. k < p_key (last g)" using srt(3)[OF _ lg] e1(2) lg by blast
    then show "ed_key d < p_key y" using prk[OF d] g(2) by (simp del: set_concat)
  next
    fix x d
    assume x: "x \<in> set (map (p_up H l) ?S)" and d: "d \<in> set up2"
    then obtain g where g: "g \<in> set ?S" "x = p_up H l g" by auto
    then show "p_key x < ed_key d" using up2S[OF mem[OF g(1) ne(1)] d] by simp
  qed
  moreover have "ed_apply pr (map (p_up H l) ?S) = map (p_up H l) N1" unfolding pr by (rule ed_apply_replace[OF sg]) auto
  ultimately show "ed_apply (pr @ up2) (map (p_up H l) (drop k gs)) = map (p_up H l) (drop k (take a gs) @ N1 @ N2)"
    using up2(4) take_drop_split[of k a "Suc b" gs] ab by simp
qed

section \<open>A level\<close>

lemma mid_finished:
  assumes "p_chop_all H r l xs = gs" and "k \<le> a" and "a < length gs"
  shows "p_chop H r l [] (concat (drop k (take a gs))) = (drop k (take a gs), [])"
proof -
  have "p_chop_all H r l xs = take a gs @ drop a gs" "drop a gs \<noteq> []" using assms(1,3) by auto
  note ta = chop_all_finished[OF this]
  have t: "take k gs @ drop k (take a gs) = take a gs" using assms(2) by (metis append_take_drop_id min.absorb1 take_take)
  then have tk: "p_chop H r l [] (concat (take k gs)) = (take k gs, [])" using ta chop_finished[of H _ _ r l "concat (take a gs)" "take k gs"] by metis
  have "p_chop H r l [] (concat (take k gs) @ concat (drop k (take a gs))) = (take k gs @ drop k (take a gs), [])"
    using ta t by (metis concat_append)
  then show ?thesis using tk by (simp add: chop_append split: prod.splits)
qed

text \<open>Nodes before the first edit stay.\<close>

lemma skip_nodes:
  assumes "p_chop_all H r l xs = gs" and "k \<le> a" and "a < length gs" and "\<forall>x\<in>set (concat (take a gs)). \<forall>d\<in>set edits. p_key x < ed_key d"
  shows "p_chop_all H r l (ed_apply edits (concat (drop k gs))) = drop k (take a gs) @ p_chop_all H r l (ed_apply edits (concat (drop a gs)))"
    and "ed_changed edits (concat (drop k gs)) = ed_changed edits (concat (drop a gs))"
proof -
  have d: "concat (drop k gs) = concat (drop k (take a gs)) @ concat (drop a gs)" using take_drop_split[of k a a gs] assms(2) by simp
  have S: "set (concat (drop k (take a gs))) \<subseteq> set (concat (take a gs))" by (auto dest: in_set_dropD)
  have "ed_apply ([] @ edits) (concat (drop k (take a gs)) @ concat (drop a gs)) = ed_apply [] (concat (drop k (take a gs))) @ ed_apply edits (concat (drop a gs))"
    using assms(4) S by (intro ed_apply_append) (simp, blast)
  then show "p_chop_all H r l (ed_apply edits (concat (drop k gs))) = drop k (take a gs) @ p_chop_all H r l (ed_apply edits (concat (drop a gs)))"
    using chop_all_append[OF mid_finished[OF assms(1-3)]] by (simp add: d)
  have "ed_changed ([] @ edits) (concat (drop k (take a gs)) @ concat (drop a gs)) = ed_changed [] (concat (drop k (take a gs))) @ ed_changed edits (concat (drop a gs))"
    using assms(4) S by (intro ed_changed_append) (simp, blast)
  then show "ed_changed edits (concat (drop k gs)) = ed_changed edits (concat (drop a gs))" by (simp add: d)
qed

lemma gpos_before:
  assumes "p_held H ops s m E" and "E \<noteq> []" and "x \<in> set (concat (take (gpos H m E l key) (mgs H m E l)))"
  shows "p_key x < key"
proof -
  let ?a = "gpos H m E l key"
  have "mlev H m E l = concat (take ?a (mgs H m E l)) @ concat (drop ?a (mgs H m E l))" by (metis append_take_drop_id concat_append concat_p_gs)
  then have "concat (take ?a (mgs H m E l)) = take (goff (mgs H m E l) ?a) (mlev H m E l)" by (simp add: goff_def)
  then obtain i where i: "i < goff (mgs H m E l) ?a" "i < length (mlev H m E l)" "x = mlev H m E l ! i"
    using assms(3) by (auto simp: in_set_conv_nth simp del: set_concat)
  then have "i < kcnt key (mlev H m E l)" using gpos_kcnt(1)[OF assms(1,2), of key l] by simp
  then show ?thesis using kcnt_nth[OF p_held_sorted[OF assms(1)] i(2)] i(3) by simp
qed

lemma gpos_ge:
  assumes "p_held H ops s m E" and "E \<noteq> []" and "k < length (mgs H m E l)" and "\<forall>x\<in>set (concat (take k (mgs H m E l))). p_key x < key"
  shows "k \<le> gpos H m E l key"
proof -
  have "\<forall>g\<in>set (take k (mgs H m E l)). p_key (last g) < key"
    using assms(4) p_gs_nonempty[of _ H "pm_rule m" E l] by (metis UN_I in_set_takeD last_in_set set_concat)
  then have "k \<le> length (takeWhile (\<lambda>g. p_key (last g) < key) (mgs H m E l))"
    using takeWhile_append2[of "take k (mgs H m E l)" _ "drop k (mgs H m E l)"] assms(3) by (metis (no_types, lifting) append_take_drop_id le_add1 length_append length_take less_imp_le_nat min.absorb2)
  then show ?thesis using assms(3) by (simp add: gpos_groups)
qed

context chunk_rw
begin

text \<open>The first edit is used up by the stretch it starts.\<close>

lemma stretched_progress:
  assumes "p_held H ops s m E" and "E \<noteq> []" and "stretched m l (mgs H m E l) (gpos H m E l (ed_key d)) cur (d # ds) ch t b N e1 e2 ch' t'"
  shows "length e2 < length (d # ds)"
proof (rule ccontr)
  let ?gs = "mgs H m E l" and ?a = "gpos H m E l (ed_key d)"
  assume n: "\<not> ?thesis"
  have st: "d # ds = e1 @ e2" "?a \<le> b" "b < length ?gs" "\<forall>x\<in>set (concat (take (Suc b) ?gs)). \<forall>d\<in>set e2. p_key x < ed_key d"
    "Suc b = length ?gs \<longrightarrow> e2 = []" using assms(3) by (auto simp: stretched_def)
  have "length e1 + length e2 = length (d # ds)" using st(1) by (metis length_append)
  then have e: "e2 = d # ds" using n st(1) by (cases e1) auto
  then have "Suc ?a < length ?gs" using st(2,3,5) by (cases "Suc b = length ?gs") auto
  then have k: "kcnt (ed_key d) (?gs ! ?a) < length (?gs ! ?a)" by (rule gpos_kcnt(2)[OF assms(1,2)])
  have "?gs ! ?a \<in> set (take (Suc b) ?gs)" using st(2,3) nth_mem[of ?a "take (Suc b) ?gs"] by simp
  then have "\<forall>x\<in>set (?gs ! ?a). p_key x < ed_key d" using st(4) e by auto
  then show False using k kcnt_full[of "ed_key d" "?gs ! ?a"] by simp
qed

text \<open>
  A level from node \<open>k\<close> on, when no edit is for a node before: the nodes become those of the edited
  entries, and what is handed up turns the old entries above into the new ones.
\<close>

definition levelled :: "pmap \<Rightarrow> nat \<Rightarrow> pentry list list \<Rightarrow> nat \<Rightarrow> edit list \<Rightarrow> 's \<Rightarrow> edit list \<Rightarrow> 's \<Rightarrow> bool" where
  "levelled m l gs k edits s up s' \<longleftrightarrow>
     (let N = p_chop_all H (pm_rule m) l (ed_apply edits (concat (drop k gs))) in
      ed_wf up \<and> (edits = [] \<longrightarrow> up = []) \<and> (\<forall>x\<in>set (concat (take k gs)). \<forall>d\<in>set up. p_key x < ed_key d) \<and>
      (\<forall>d\<in>set up. \<not> ed_del d \<longrightarrow> ed_e d \<in> p_up H l ` set N) \<and>
      ed_apply up (map (p_up H l) (drop k gs)) = map (p_up H l) N \<and> wrote s (p_node l ` set N) s')"

lemma old_nodes_put: "p_stored s m E \<Longrightarrow> l < mhgt H m E \<Longrightarrow> G \<subseteq> set (mgs H m E l) \<Longrightarrow> n_encode ` p_node l ` G \<subseteq> puts s"
proof -
  assume a: "p_stored s m E" "l < mhgt H m E" "G \<subseteq> set (mgs H m E l)"
  have "p_node l ` G \<subseteq> p_nodes H (pm_rule m) E" using a(2,3) by (auto simp: p_nodes_def)
  then show ?thesis using a(1) by (auto simp: p_stored_def)
qed

lemma levelled_none:
  assumes "p_stored s m E" and "ok s" and "l < mhgt H m E"
  shows "levelled m l (mgs H m E l) k [] s [] s"
proof -
  let ?gs = "mgs H m E l"
  have N: "p_chop_all H (pm_rule m) l (concat (drop k ?gs)) = drop k ?gs"
    using chop_all_split[of H _ _ "pm_rule m" l "mlev H m E l" "take k ?gs" "drop k ?gs"]
    by (cases "drop k ?gs = []") (auto simp: p_gs_def)
  have "wrote s (p_node l ` set (drop k ?gs)) s"
    using old_nodes_put[OF assms(1,3) set_drop_subset] assms(2) by (auto simp: wrote_def)
  then show ?thesis using N by (simp add: levelled_def)
qed

lemma levelled_more:
  assumes E: "p_stored s m E" "clean U s" "l < mhgt H m E" "gs = mgs H m E l" and k: "k \<le> a"
    and wf: "ed_wf edits" "edits \<noteq> []" and bef: "\<forall>x\<in>set (concat (take a gs)). \<forall>d\<in>set edits. p_key x < ed_key d"
    and st: "stretched m l gs a [] edits ch s b N1 e1 e2 ch' s1" and up2: "levelled m l gs (Suc b) e2 s1 up2 s2"
    and ch: "pk_out ch = []"
  shows "levelled m l gs k edits s (pm_replace (map (p_up H l) (drop a (take (Suc b) gs))) (pk_out ch') @ up2) s2"
proof -
  let ?r = "pm_rule m" and ?S1 = "drop k (take a gs)" and ?S2 = "drop a (take (Suc b) gs)"
  define N2 where "N2 = p_chop_all H ?r l (ed_apply e2 (concat (drop (Suc b) gs)))"
  have ab: "a \<le> b" "b < length gs" and sp: "edits = e1 @ e2" and out: "pk_out ch' = map (p_up H l) N1"
    and fr: "p_chop_all H ?r l (ed_apply edits (concat (drop a gs))) = N1 @ N2" and w1: "wrote s (p_node l ` set N1) s1"
    and e1: "\<forall>d\<in>set e1. \<forall>y\<in>set (concat (drop (Suc b) gs)). ed_key d < p_key y" "Suc b < length gs \<longrightarrow> (\<forall>d\<in>set e1. ed_key d \<le> p_key (last (gs ! b)))"
    and e2: "\<forall>x\<in>set (concat (take (Suc b) gs)). \<forall>d\<in>set e2. p_key x < ed_key d" "Suc b = length gs \<longrightarrow> e2 = []"
    using st ch by (auto simp: stretched_def N2_def)
  note held = clean_held[OF E(2,1)]
  have gs: "strictly_sorted (map p_key (concat gs))" "[] \<notin> set gs" "p_chop_all H ?r l (mlev H m E l) = gs"
    using p_held_sorted[OF held, of H ?r l] nonempty_groups[of H m E l] E(4) by (auto simp: p_gs_def chop_all_concat)
  have da: "concat (drop a gs) = concat ?S2 @ concat (drop (Suc b) gs)" using take_drop_split[of a a "Suc b" gs] ab by simp
  have S2: "set (concat ?S2) \<subseteq> set (concat (take (Suc b) gs))" by (auto dest: in_set_dropD)
  have "ed_apply edits (concat (drop a gs)) = ed_apply e1 (concat ?S2) @ ed_apply e2 (concat (drop (Suc b) gs))"
    unfolding da sp using e1(1) e2(1) S2 by (intro ed_apply_append) blast+
  then have cN1: "concat N1 = ed_apply e1 (concat ?S2)"
    using arg_cong[OF fr, of concat] by (simp add: chop_all_concat N2_def)
  have "g \<noteq> []" if "g \<in> set (N1 @ N2)" for g using that unfolding fr[symmetric] by (rule chop_all_nonempty)
  then have nN1: "[] \<notin> set N1" by auto
  have N: "p_chop_all H ?r l (ed_apply edits (concat (drop k gs))) = ?S1 @ N1 @ N2"
    using skip_nodes(1)[OF gs(3) k _ bef] ab fr by simp
  have u: "ed_wf up2" "e2 = [] \<longrightarrow> up2 = []" "\<forall>x\<in>set (concat (take (Suc b) gs)). \<forall>d\<in>set up2. p_key x < ed_key d"
    "\<forall>d\<in>set up2. \<not> ed_del d \<longrightarrow> ed_e d \<in> p_up H l ` set N2" "ed_apply up2 (map (p_up H l) (drop (Suc b) gs)) = map (p_up H l) N2"
    "wrote s1 (p_node l ` set N2) s2" using up2 by (auto simp: levelled_def Let_def N2_def)
  note rl = replace_level[OF gs(1,2) k ab _ cN1 nN1 _ e1 u(1,3) _ u(5) refl]
  have e1w: "ed_wf e1" "\<forall>x\<in>set (concat (take a gs)). \<forall>d\<in>set e1. p_key x < ed_key d" "Suc b = length gs \<longrightarrow> up2 = []"
    using wf bef sp e2(2) u(2) by (auto simp: ed_wf_append)
  have "wrote s (p_node l ` set (?S1 @ N1 @ N2)) s2"
  proof -
    have "n_encode ` p_node l ` set ?S1 \<subseteq> puts s" using E(4) by (intro old_nodes_put[OF E(1,3)]) (auto dest: in_set_dropD in_set_takeD)
    then have "puts s \<union> n_encode ` p_node l ` set ?S1 = puts s" by (rule Un_absorb2)
    then show ?thesis using wrote_trans[OF w1 u(6)] unfolding wrote_def by (simp only: set_append image_Un Un_assoc[symmetric])
  qed
  moreover have "set (concat (take k gs)) \<subseteq> set (concat (take a gs))" using set_take_subset_set_take[of k a gs] k by auto
  then have "\<forall>x\<in>set (concat (take k gs)). \<forall>d\<in>set (pm_replace (map (p_up H l) ?S2) (map (p_up H l) N1) @ up2). p_key x < ed_key d"
    using rl(2)[OF e1w] by blast
  moreover have "\<forall>d\<in>set (pm_replace (map (p_up H l) ?S2) (map (p_up H l) N1) @ up2). \<not> ed_del d \<longrightarrow> ed_e d \<in> p_up H l ` set (?S1 @ N1 @ N2)"
    using pm_replace_keys[of _ "map (p_up H l) ?S2" "map (p_up H l) N1"] u(4) by (simp add: image_Un ball_Un)
  ultimately show ?thesis
    unfolding levelled_def Let_def N out using rl(1,3)[OF e1w] wf(2) by simp
qed

lemma stretched_changed:
  assumes "stretched m l gs a cur edits ch s b N e1 e2 ch' s'"
  shows "ed_changed edits (concat (drop a gs)) = ed_changed e1 (concat (drop a (take (Suc b) gs))) @ ed_changed e2 (concat (drop (Suc b) gs))"
proof -
  have st: "a \<le> b" "edits = e1 @ e2" "\<forall>d\<in>set e1. \<forall>y\<in>set (concat (drop (Suc b) gs)). ed_key d < p_key y"
    "\<forall>x\<in>set (concat (take (Suc b) gs)). \<forall>d\<in>set e2. p_key x < ed_key d" using assms by (auto simp: stretched_def)
  have d: "concat (drop a gs) = concat (drop a (take (Suc b) gs)) @ concat (drop (Suc b) gs)" using take_drop_split[of a a "Suc b" gs] st(1) by simp
  have "set (concat (drop a (take (Suc b) gs))) \<subseteq> set (concat (take (Suc b) gs))" by (auto dest: in_set_dropD)
  then show ?thesis unfolding d st(2) using st(3,4) by (intro ed_changed_append) blast+
qed

lemma applyLevel_wrote:
  assumes "l < mhgt H m E" and "gs = mgs H m E l"
  shows "\<lbrakk>p_stored s m E; clean U s; ed_wf edits; edits \<noteq> [] \<longrightarrow> k < length gs; \<forall>x\<in>set (concat (take k gs)). \<forall>d\<in>set edits. p_key x < ed_key d;
      \<forall>g\<in>set (p_chop_all H (pm_rule m) l (ed_apply edits (concat (drop k gs)))). fits U (p_node l g)\<rbrakk> \<Longrightarrow>
    \<exists>up s'. applyLevel H ops m l edits changed s =
        (Inr (up, if l = 0 then changed @ ed_changed edits (concat (drop k gs)) else changed), s') \<and> levelled m l gs k edits s up s'"
proof (induction "length edits" arbitrary: edits k changed s rule: less_induct)
  case less
  show ?case
  proof (cases edits)
    case Nil
    then show ?thesis using levelled_none[OF less.prems(1) _ assms(1), of k] less.prems(2) assms(2)
      by (subst applyLevel.simps) (auto simp: clean_def)
  next
    case (Cons d ds)
    have E: "E \<noteq> []" using assms(1) by (cases "E = []") auto
    note held = clean_held[OF less.prems(2,1)]
    let ?a = "gpos H m E l (ed_key d)" and ?r = "pm_rule m"
    have srt: "strictly_sorted (map ed_key edits)" using less.prems(3) by (simp add: ed_wf_def)
    have key: "ed_key d \<le> ed_key e" if "e \<in> set edits" for e using that srt Cons by auto
    have ka: "k \<le> ?a" using gpos_ge[OF held E, of k l "ed_key d"] less.prems(4,5) Cons assms(2) by auto
    have a: "?a < length gs" using gpos_less[OF E] assms(2) by simp
    have bef: "\<forall>x\<in>set (concat (take ?a gs)). \<forall>d\<in>set edits. p_key x < ed_key d"
      using gpos_before[OF held E, of _ l "ed_key d"] key assms(2) by (blast intro: less_le_trans)
    have gs: "p_chop_all H ?r l (mlev H m E l) = gs" by (simp add: assms(2) p_gs_def)
    note skip = skip_nodes[OF gs ka a bef]
    define ch where "ch = pk_log changed (newChunker m l False)"
    have ch: "pk_steady ?r ch" "pk_level ch = l" "\<not> pk_hold ch" "pk_existing ch = []" "pk_pending ch = []" "pk_out ch = []"
      "pk_changed ch = (if l = 0 then Some changed else None)"
      by (auto simp: ch_def pk_log_def newChunker_def pk_steady_def Splitter_at)
    obtain c where c: "m_seek ops s m l (ed_key d) = Inr c" "c_node H m E l ?a c" using seek_at[OF held E, of l "ed_key d"] assms(1) by auto
    have "\<forall>g\<in>set (p_chop_from H ?r l (pk_pending ch) (ed_apply edits (concat (drop ?a gs)))). fits U (p_node l g)"
      using less.prems(6) unfolding skip by (simp add: ch(5))
    then obtain b N e1 e2 ch' s1 where st: "stretched m l gs ?a [] edits ch s b N e1 e2 ch' s1"
      and res: "al_stretch H ops m c [] edits ch s = (Inr (map (p_up H l) (drop ?a (take (Suc b) gs)), e2, ch'), s1)"
      using al_stretch_wrote[OF assms less.prems(1,2) c(2) ch(1-3) _ less.prems(3) bef, of "[]"] ch(4,5) by auto
    have lt: "length e2 < length edits" using stretched_progress[OF held E] st Cons assms(2) by blast
    have b: "edits = e1 @ e2" "e2 \<noteq> [] \<longrightarrow> Suc b < length gs" "\<forall>x\<in>set (concat (take (Suc b) gs)). \<forall>d\<in>set e2. p_key x < ed_key d"
      "wrote s (p_node l ` set N) s1" "p_chop_all H ?r l (ed_apply edits (concat (drop ?a gs))) = N @ p_chop_all H ?r l (ed_apply e2 (concat (drop (Suc b) gs)))"
      "pk_changed ch' = map_option (\<lambda>ks. ks @ ed_changed e1 (concat (drop ?a (take (Suc b) gs)))) (pk_changed ch)"
      using st by (auto simp: stretched_def)
    have fit: "\<forall>n\<in>p_node l ` set N. fits U n" "\<forall>g\<in>set (p_chop_all H ?r l (ed_apply e2 (concat (drop (Suc b) gs)))). fits U (p_node l g)"
      using less.prems(6) unfolding skip b(5) by auto
    have s1: "clean U s1" "p_stored s1 m E" using wrote_clean[OF less.prems(2) b(4)] fit(1) p_stored_grows[OF less.prems(1)] b(4) by (auto simp: wrote_def)
    have wf2: "ed_wf e2" using less.prems(3) b(1) by (simp add: ed_wf_append)
    define ch1 where "ch1 = (case pk_changed ch' of Some ks \<Rightarrow> ks | None \<Rightarrow> changed)"
    have ch1: "ch1 = (if l = 0 then changed @ ed_changed e1 (concat (drop ?a (take (Suc b) gs))) else changed)" by (simp add: ch1_def b(6) ch(7))
    obtain up2 s2 where up2: "applyLevel H ops m l e2 ch1 s1 = (Inr (up2, if l = 0 then ch1 @ ed_changed e2 (concat (drop (Suc b) gs)) else ch1), s2)"
      "levelled m l gs (Suc b) e2 s1 up2 s2" using less.hyps[OF lt s1(2,1) wf2 b(2,3) fit(2), of ch1] by blast
    let ?up = "pm_replace (map (p_up H l) (drop ?a (take (Suc b) gs))) (pk_out ch') @ up2"
    have "levelled m l gs k edits s ?up s2"
      using levelled_more[OF less.prems(1,2) assms ka less.prems(3) _ bef st up2(2) ch(6)] Cons by simp
    moreover have "applyLevel H ops m l edits changed s = (Inr (?up, if l = 0 then changed @ ed_changed edits (concat (drop k gs)) else changed), s2)"
      unfolding skip(2) stretched_changed[OF st] using c(1) res lt up2(1) ch1 Cons
      by (subst applyLevel.simps) (simp add: ch_def[symmetric] sbind_def ch1_def[symmetric])
    ultimately show ?thesis by blast
  qed
qed

end

section \<open>The root\<close>

lemma map_eq_on: "(\<And>x y. x \<in> set xs \<Longrightarrow> y \<in> set ys \<Longrightarrow> f x = f y \<Longrightarrow> x = y) \<Longrightarrow> map f xs = map f ys \<Longrightarrow> xs = ys"
proof (induction xs arbitrary: ys)
  case (Cons x xs)
  then show ?case by (cases ys) auto
qed simp

text \<open>The nodes a flush may draw: those of every level up to the old or the new root.\<close>

definition p_drawn :: "(bytes \<Rightarrow> hash) \<Rightarrow> brule \<Rightarrow> pentry list \<Rightarrow> nat \<Rightarrow> pnode set" where
  "p_drawn H r E h = insert (p_root H r E) (\<Union>l \<in> {..max h (p_height H r E)}. p_node l ` set (p_gs H r E l))"

lemma p_drawn_node: "g \<in> set (p_gs H r E l) \<Longrightarrow> l \<le> max h (p_height H r E) \<Longrightarrow> p_node l g \<in> p_drawn H r E h"
  unfolding p_drawn_def by blast

lemma p_nodes_drawn: "p_nodes H r E \<subseteq> p_drawn H r E h"
  using p_drawn_node[of _ H r E _ h] by (fastforce simp: p_nodes_def p_drawn_def)

lemma n_total_root:
  assumes "p_ok inl E"
  shows "n_total (p_root H r E) = of_nat (length E)"
proof -
  let ?h = "p_height H r E"
  have len: "length E \<le> 2 ^ 62" using assms by (rule p_ok_length)
  have "unat (n_total (p_node ?h (p_lev H r E ?h))) = length E"
    using unat_n_total[of ?h "p_lev H r E ?h"] p_lev_leaves[OF assms, of ?h H r] len by simp
  then have "of_nat (unat (n_total (p_root H r E))) = (of_nat (length E) :: u64)" unfolding p_height(1)[OF len, of H r] by simp
  then show ?thesis by simp
qed

lemma lev_single:
  assumes "p_ok inl E" and "E \<noteq> []" and "p_height H r E \<le> l"
  shows "p_gs H r E l = [p_lev H r E l]"
proof -
  have "length (p_gs H r E l) \<le> 1" using p_gs_single[OF p_height(2)[OF p_ok_length[OF assms(1)]] assms(3)] .
  moreover have "p_gs H r E l \<noteq> []" using assms(2) by simp
  ultimately obtain g where g: "p_gs H r E l = [g]" by (cases "p_gs H r E l") auto
  then have "g = p_lev H r E l" using concat_p_gs[of H r E l] by simp
  then show ?thesis using g by simp
qed

context chunk_rw
begin

lemma child_single:
  assumes "clean U s" and "p_stored s m E" and "p_ok (pc_InlineLimit (pm_cfg m)) E'" and "r = pm_rule m"
    and "p_gs H r E' l = [g]" and "l \<le> maxLevel" and "n_encode (p_node l g) \<in> puts s"
  shows "m_child ops s m (p_node (Suc l) [p_up H l g]) 0 = Inr (p_node l g)"
proof -
  have g: "g \<in> set (p_gs H r E' l)" using assms(5) by simp
  have inj: "inj_on H (puts s)" "ok s" using assms(1) by (auto simp: clean_def intro: inj_on_subset)
  have "m_read ops s m (H (n_encode (p_node l g))) = Inr (p_node l g)"
    using p_group_ok[OF assms(3) g assms(6)] p_gs_fits[OF _ assms(3) g] assms(2,4)
    by (intro m_read_put[OF inj(2,1) assms(2,7)]) (auto simp: p_stored_def)
  then show ?thesis using p_gs_nonempty[OF g] by (simp add: m_child_def checkChild_def up_entry_def n_lastKey_def result_simps)
qed

lemma m_collapse_root:
  assumes "clean U s" and "p_stored s m E" and "p_ok (pc_InlineLimit (pm_cfg m)) E'" and "E' \<noteq> []" and "r = pm_rule m"
    and put: "\<And>l g. l < h \<Longrightarrow> g \<in> set (p_gs H r E' l) \<Longrightarrow> n_encode (p_node l g) \<in> puts s"
  shows "p_height H r E' \<le> l \<Longrightarrow> l \<le> h \<Longrightarrow> h \<le> 62 \<Longrightarrow> m_collapse ops s m (p_node l (p_lev H r E' l)) = Inr (p_root H r E')"
proof (induction l)
  case 0
  then show ?case using p_height(1)[OF p_ok_length[OF assms(3)], of H r] by (subst m_collapse.simps) simp
next
  case (Suc l)
  show ?case
  proof (cases "p_height H r E' = Suc l")
    case True
    then have "1 < length (p_gs H r E' l)" using p_height(3)[OF p_ok_length[OF assms(3)], of l H r] by simp
    then show ?thesis using p_height(1)[OF p_ok_length[OF assms(3)], of H r] True by (subst m_collapse.simps) simp
  next
    case False
    then have h: "p_height H r E' \<le> l" using Suc.prems(1) by simp
    note g = lev_single[OF assms(3,4) h]
    have "m_child ops s m (p_node (Suc l) [p_up H l (p_lev H r E' l)]) 0 = Inr (p_node l (p_lev H r E' l))"
      using Suc.prems put[of l "p_lev H r E' l"] g by (intro child_single[OF assms(1-3,5) g]) (auto simp: maxLevel_def)
    then show ?thesis using Suc.IH[OF h] Suc.prems g by (subst m_collapse.simps) (simp add: result_simps)
  qed
qed

lemma pk_adds_wrote:
  "\<lbrakk>clean U s; pk_steady r c; \<And>n. n \<in> pk_drawn H r es c \<Longrightarrow> fits U n; set (pk_existing c) \<subseteq> H ` puts s\<rbrakk> \<Longrightarrow>
   \<exists>s'. sfold (pk_add H ops) es c s = (Inr (pk_run H r es [] c), s') \<and> wrote s (pk_drawn H r es c) s'"
proof (induction es arbitrary: c s)
  case Nil
  then show ?case using pk_run_Nil[of r c H] by (simp add: clean_def)
next
  case (Cons e es)
  have d: "pk_drawn H r (e # es) c = pk_drawn H r [e] c \<union> pk_drawn H r es (pk_run H r [e] [] c)"
    using pk_drawn_append[of H r "[e]" es c "[]"] by simp
  obtain s1 where s1: "pk_add H ops e c s = (Inr (pk_run H r [e] [] c), s1)" "wrote s (pk_drawn H r [e] c) s1"
    using pk_add_wrote[OF Cons.prems(1,2) _ Cons.prems(4), of e] Cons.prems(3) d by auto
  have "clean U s1" using wrote_clean[OF Cons.prems(1) s1(2)] Cons.prems(3) d by auto
  moreover have "set (pk_existing c) \<subseteq> H ` puts s1" using Cons.prems(4) wrote_puts[OF s1(2)] by blast
  ultimately obtain s2 where "sfold (pk_add H ops) es (pk_run H r [e] [] c) s1 = (Inr (pk_run H r es [] (pk_run H r [e] [] c)), s2)"
    "wrote s1 (pk_drawn H r es (pk_run H r [e] [] c)) s2"
    using Cons.IH[of s1 "pk_run H r [e] [] c"] Cons.prems(3) d by auto
  then show ?case using s1 wrote_trans[OF s1(2)] d by (auto simp: sbind_def)
qed

lemma pk_draw_wrote:
  assumes "clean U s" and "\<And>g. g \<in> set (p_chop_all H (pm_rule m) l up) \<Longrightarrow> fits U (p_node l g)"
  shows "\<exists>s'. pk_draw H ops m l up s = (Inr (map (p_up H l) (p_chop_all H (pm_rule m) l up)), s') \<and> wrote s (p_node l ` set (p_chop_all H (pm_rule m) l up)) s'"
proof -
  let ?r = "pm_rule m" and ?c = "newChunker m l False"
  obtain gs cur where g: "p_chop H ?r l [] up = (gs, cur)" by (metis surj_pair)
  have c: "pk_drawn H ?r up ?c = p_node l ` set gs" "pk_existing ?c = []" "pk_level ?c = l" "\<not> pk_hold ?c" "pk_pending ?c = []"
    using g by (simp_all add: pk_drawn_def newChunker_def)
  have all: "p_chop_all H ?r l up = gs @ (if cur = [] then [] else [cur])" using g by (simp add: chop_all_def)
  define c1 where "c1 = pk_run H ?r up [] ?c"
  have c1: "pk_level c1 = l" "pk_pending c1 = cur" "pk_existing c1 = []" "\<not> pk_hold c1" using c g by (simp_all add: c1_def)
  obtain s1 where s1: "sfold (pk_add H ops) up ?c s = (Inr c1, s1)" "wrote s (p_node l ` set gs) s1"
    using pk_adds_wrote[OF assms(1) newChunker_steady[of m l False], of up] assms(2) c unfolding all c1_def by auto
  have cl: "clean U s1" using wrote_clean[OF assms(1) s1(2)] assms(2) unfolding all by auto
  obtain c2 s2 where s2: "pk_end H ops c1 s1 = (Inr c2, s2)" "wrote s1 (if cur = [] then {} else {p_node l cur}) s2"
    using pk_end_wrote[OF cl, of c1] assms(2)[of cur] c1 unfolding all by auto
  have "pk_draw H ops m l up s = (Inr (pk_out c2), s2)" using s1(1) s2(1) by (simp add: pk_draw_def sbind_def sret_def)
  moreover from pk_draw_Inr[OF this] have "pk_out c2 = map (p_up H l) (p_chop_all H ?r l up)" .
  moreover have "wrote s (p_node l ` set (p_chop_all H ?r l up)) s2"
    using wrote_trans[OF s1(2) s2(2)] unfolding all by (cases "cur = []") auto
  ultimately show ?thesis by auto
qed

text \<open>A flush under way: the old map is stored, and what the new entries draw is free of collisions.\<close>

definition flushing :: "bytes set \<Rightarrow> 's \<Rightarrow> pmap \<Rightarrow> pentry list \<Rightarrow> pentry list \<Rightarrow> bool" where
  "flushing U s m E E' \<longleftrightarrow> clean U s \<and> p_stored s m E \<and> p_ok (pc_InlineLimit (pm_cfg m)) E' \<and>
     n_encode ` p_drawn H (pm_rule m) E' (mhgt H m E) \<subseteq> U"

definition drawn_to :: "'s \<Rightarrow> pmap \<Rightarrow> pentry list \<Rightarrow> nat \<Rightarrow> bool" where
  "drawn_to s m E' l \<longleftrightarrow> (\<forall>k < l. \<forall>g \<in> set (mgs H m E' k). n_encode (p_node k g) \<in> puts s)"

lemma flushing_fits:
  assumes "flushing U s m E E'" and "g \<in> set (mgs H m E' l)" and "l \<le> max (mhgt H m E) (mhgt H m E')"
  shows "fits U (p_node l g)"
  using assms p_drawn_node[OF assms(2,3)] p_gs_fits[of "pm_cfg m" "pm_rule m" E' g H l]
  by (auto simp: flushing_def fits_def p_stored_def)

lemma flushing_root:
  assumes "flushing U s m E E'"
  shows "fits U (p_root H (pm_rule m) E')"
proof -
  let ?t = "p_root H (pm_rule m) E'"
  have "?t \<in> p_nodes H (pm_rule m) E'" by (simp add: p_nodes_def)
  then have "length (n_encode ?t) \<le> MaxChunkSize"
    using assms p_nodes_ok[of "pm_cfg m" "pm_rule m" E' ?t H] by (auto simp: flushing_def p_stored_def)
  moreover have "n_encode ?t \<in> U" using assms by (auto simp: flushing_def p_drawn_def)
  ultimately show ?thesis by (simp add: fits_def)
qed

lemma flushing_wrote: "flushing U s m E E' \<Longrightarrow> wrote s N s' \<Longrightarrow> (\<And>n. n \<in> N \<Longrightarrow> fits U n) \<Longrightarrow> flushing U s' m E E'"
  using wrote_clean[of U s N s'] p_stored_grows[of s m E s'] by (auto simp: flushing_def wrote_def)

lemma drawn_to_wrote: "drawn_to s m E' l \<Longrightarrow> wrote s (p_node l ` set (mgs H m E' l)) s' \<Longrightarrow> drawn_to s' m E' (Suc l)"
  by (auto simp: drawn_to_def wrote_def less_Suc_eq)

lemma drawn_to_mono: "drawn_to s m E' l \<Longrightarrow> puts s \<subseteq> puts s' \<Longrightarrow> drawn_to s' m E' l"
  by (auto simp: drawn_to_def)

lemma m_grow_wrote:
  assumes "E' \<noteq> []"
  shows "\<lbrakk>flushing U s m E E'; drawn_to s m E' (Suc l); l \<le> mhgt H m E'\<rbrakk> \<Longrightarrow>
    \<exists>s'. m_grow H ops m l (mlev H m E' (Suc l)) s = (Inr [up_entry H (p_root H (pm_rule m) E')], s') \<and> grows s s' \<and>
      flushing U s' m E E' \<and> drawn_to s' m E' (Suc (mhgt H m E'))"
proof (induction "mhgt H m E' - l" arbitrary: l s)
  case 0
  then have l: "l = mhgt H m E'" by simp
  have ok: "p_ok (pc_InlineLimit (pm_cfg m)) E'" "ok s" using "0.prems"(1) by (auto simp: flushing_def clean_def)
  have "mlev H m E' (Suc l) = [up_entry H (p_root H (pm_rule m) E')]"
    using lev_single[OF ok(1) assms, of H "pm_rule m" l] p_height(1)[OF p_ok_length[OF ok(1)], of H "pm_rule m"] l by simp
  then show ?case using 0 ok(2) l by (subst m_grow.simps) (simp del: p_lev_Suc)
next
  case (Suc k)
  have l: "l < mhgt H m E'" and k: "k = mhgt H m E' - Suc l" using Suc.hyps(2) by simp_all
  have ok: "p_ok (pc_InlineLimit (pm_cfg m)) E'" using Suc.prems(1) by (simp add: flushing_def)
  have len: "1 < length (mlev H m E' (Suc l))" using p_height(3)[OF p_ok_length[OF ok] l] by simp
  have fit: "fits U (p_node (Suc l) g)" if "g \<in> set (mgs H m E' (Suc l))" for g
    using flushing_fits[OF Suc.prems(1) that] l by simp
  obtain s1 where s1: "pk_draw H ops m (Suc l) (mlev H m E' (Suc l)) s = (Inr (mlev H m E' (Suc (Suc l))), s1)"
    "wrote s (p_node (Suc l) ` set (mgs H m E' (Suc l))) s1"
    using pk_draw_wrote[where U = U and s = s and m = m and l = "Suc l" and up = "mlev H m E' (Suc l)"] fit Suc.prems(1)
    unfolding p_lev_Suc[of H "pm_rule m" E' "Suc l"] p_gs_def[of H "pm_rule m" E' "Suc l"] by (auto simp: flushing_def simp del: p_lev_Suc)
  have "flushing U s1 m E E'" using flushing_wrote[OF Suc.prems(1) s1(2)] fit by auto
  moreover have "drawn_to s1 m E' (Suc (Suc l))" using drawn_to_wrote[OF Suc.prems(2) s1(2)] .
  ultimately obtain s2 where s2: "m_grow H ops m (Suc l) (mlev H m E' (Suc (Suc l))) s1 = (Inr [up_entry H (p_root H (pm_rule m) E')], s2)" "grows s1 s2"
    "flushing U s2 m E E'" "drawn_to s2 m E' (Suc (mhgt H m E'))"
    using Suc.hyps(1)[of "Suc l" s1, OF k] l by auto
  have "m_grow H ops m l (mlev H m E' (Suc l)) s = (Inr [up_entry H (p_root H (pm_rule m) E')], s2)"
    using len s1(1) s2(1) by (subst m_grow.simps) (simp add: sbind_def del: p_lev_Suc)
  then show ?case using s2 grows_trans[OF _ s2(2)] s1(2) by (auto simp: wrote_def)
qed

lemma store_nodes_wrote:
  "\<lbrakk>clean U s; \<And>n. n \<in> set ns \<Longrightarrow> fits U n\<rbrakk> \<Longrightarrow>
   \<exists>s'. sfold (\<lambda>n up. sbind (m_store H ops n []) (\<lambda>e. sret (up @ [e]))) ns up s = (Inr (up @ map (up_entry H) ns), s') \<and> wrote s (set ns) s'"
proof (induction ns arbitrary: up s)
  case Nil
  then show ?case by (simp add: clean_def sret_def)
next
  case (Cons n ns)
  obtain s1 where s1: "m_store H ops n [] s = (Inr (up_entry H n), s1)" "wrote s {n} s1"
    using m_store_wrote[OF Cons.prems(1), of n "[]"] Cons.prems(2) by auto
  have c: "clean U s1" using wrote_clean[OF Cons.prems(1) s1(2)] Cons.prems(2) by auto
  have "\<And>n. n \<in> set ns \<Longrightarrow> fits U n" using Cons.prems(2) by simp
  from Cons.IH[OF c this, of "up @ [up_entry H n]"] obtain s2 where s2: "sfold (\<lambda>n up. sbind (m_store H ops n []) (\<lambda>e. sret (up @ [e]))) ns (up @ [up_entry H n]) s1 =
      (Inr ((up @ [up_entry H n]) @ map (up_entry H) ns), s2)" "wrote s1 (set ns) s2" by blast
  have w: "wrote s (set (n # ns)) s2" using wrote_trans[OF s1(2) s2(2)] by simp
  have "sbind (m_store H ops n []) (\<lambda>e. sret (up @ [e])) s = (Inr (up @ [up_entry H n]), s1)" using s1(1) by (simp add: sbind_def sret_def)
  note r = sbind_eval[where m = "sbind (m_store H ops n []) (\<lambda>e. sret (up @ [e]))", OF this]
  show ?case unfolding sfold.simps r s2(1) using w by simp
qed

section \<open>Applying edits\<close>

lemma m_with_stored:
  assumes "flushing U s m E E'" and "drawn_to s m E' (mhgt H m E')" and "n_encode (p_root H (pm_rule m) E') \<in> puts s"
  shows "p_stored s (m_with m (H (n_encode (p_root H (pm_rule m) E'))) (p_root H (pm_rule m) E')) E'"
  using assms n_total_root[of "pc_InlineLimit (pm_cfg m)" E' H "pm_rule m"]
  by (auto simp: p_stored_def flushing_def m_with_def p_nodes_def drawn_to_def p_height_def)

lemma m_Empty_wrote:
  assumes "flushing U s m E []"
  shows "\<exists>m' s'. m_Empty ops (pm_cfg m) s = (Inr m', s') \<and> p_stored s' m' [] \<and> grows s s' \<and> clean U s' \<and> pm_cfg m' = pm_cfg m"
proof -
  have r: "pc_rule (pm_cfg m) = Inr (pm_rule m)" and c: "clean U s" and f: "fits U empty_node"
    using assms flushing_root[OF assms] by (auto simp: flushing_def p_stored_def)
  obtain s' where s': "rw_Put ops (n_encode empty_node) s = (Inr (H (n_encode empty_node)), s')" "wrote s {empty_node} s'"
    using put_wrote[of s U empty_node] c f by (auto simp: clean_def)
  have "clean U s'" using wrote_clean[OF c s'(2)] f by simp
  moreover have "p_stored s' (new_map (pm_cfg m) (pm_rule m) (H (n_encode empty_node)) (Some empty_node)) []"
    using r s'(2) by (auto simp: p_stored_def new_map_def p_ok_def p_nodes_def wrote_def)
  ultimately show ?thesis using r s' by (auto simp: m_Empty_def result_simps wrote_def new_map_def)
qed

lemma pk_end_hold: "pk_hold c \<Longrightarrow> \<exists>c'. pk_end H ops c s = (Inr c', s)"
  by (cases "pk_pending c = []") (simp_all add: pk_end_def Let_def sret_def)

text \<open>The root level drawn and held.\<close>

lemma root_merged:
  assumes fl: "flushing U s m E E'" and ap: "ed_apply edits (mlev H m E h) = mlev H m E' h"
    and ch: "ch = pk_log changed (newChunker m h True)"
  obtains ch1 ch2 s1 where "pk_merge H ops None (mlev H m E h) edits ch s = (Inr ([], ch1), s1)" "pk_end H ops ch1 s1 = (Inr ch2, s1)" "wrote s {} s1"
    "pk_nodes ch2 = map (p_node h) (mgs H m E' h)"
    "(case pk_changed ch2 of Some ks \<Rightarrow> ks | None \<Rightarrow> changed) = (if h = 0 then changed @ ed_changed edits (mlev H m E h) else changed)"
proof -
  let ?r = "pm_rule m"
  have c: "clean U s" using fl by (simp add: flushing_def)
  have ch: "pk_steady ?r ch" "pk_level ch = h" "pk_hold ch" "pk_existing ch = []" "pk_pending ch = []" "pk_nodes ch = []"
    "pk_changed ch = (if h = 0 then Some changed else None)"
    by (auto simp: ch pk_log_def newChunker_def pk_steady_def Splitter_at)
  define ch1 where "ch1 = pk_run H ?r (mlev H m E' h) (ed_changed edits (mlev H m E h)) ch"
  have d0: "pk_drawn H ?r xs ch = {}" for xs using ch(3) by (simp add: pk_drawn_def)
  have tw: "edits = takeWhile (\<lambda>d. None = None \<or> ed_key d \<le> the None) edits" "[] = dropWhile (\<lambda>d. None = None \<or> ed_key d \<le> the None) edits"
    by (rule sym; simp)+
  obtain s1 where s1: "pk_merge H ops None (mlev H m E h) edits ch s = (Inr ([], ch1), s1)" "wrote s {} s1"
    using pk_merge_wrote[OF tw c ch(1), of "mlev H m E h"] ch(4) d0 ap by (auto simp: ch1_def)
  have hold: "pk_hold ch1" "pk_level ch1 = h" using ch by (simp_all add: ch1_def)
  obtain ch2 where ch2: "pk_end H ops ch1 s1 = (Inr ch2, s1)" using pk_end_hold[OF hold(1)] by blast
  have "pk_nodes ch2 = map (p_node h) (mgs H m E' h)"
    using pk_end_Inr(2)[OF ch2] hold ch(2,3,5,6)
    by (simp add: ch1_def pk_run_nodes p_gs_def chop_all_def split: prod.splits)
  moreover have "(case pk_changed ch2 of Some ks \<Rightarrow> ks | None \<Rightarrow> changed) = (if h = 0 then changed @ ed_changed edits (mlev H m E h) else changed)"
    using pk_end_Inr(4)[OF ch2] ch(7) by (simp add: ch1_def)
  ultimately show thesis using that s1 ch2 by blast
qed

text \<open>One node: the new root is it, or the first node below it that is not alone.\<close>

lemma root_one:
  assumes fl: "flushing U s m E E'" and dr: "drawn_to s m E' h" and h: "h = mhgt H m E" and E': "E' \<noteq> []" and one: "length (mgs H m E' h) = 1"
  shows "\<exists>s'. sbind (\<lambda>s. (m_collapse ops s m (p_node h (mlev H m E' h)), s)) (\<lambda>n.
      sbind (m_store H ops n []) (\<lambda>e. sret (m_with m (p_child e) n, ks))) s =
    (Inr (m_with m (H (n_encode (p_root H (pm_rule m) E'))) (p_root H (pm_rule m) E'), ks), s') \<and>
    p_stored s' (m_with m (H (n_encode (p_root H (pm_rule m) E'))) (p_root H (pm_rule m) E')) E' \<and> grows s s' \<and> clean U s'"
proof -
  let ?t = "p_root H (pm_rule m) E'"
  have c: "clean U s" "p_stored s m E" and ok': "p_ok (pc_InlineLimit (pm_cfg m)) E'" using fl by (auto simp: flushing_def)
  have h': "mhgt H m E' \<le> h" using p_height(3)[OF p_ok_length[OF ok'], of h H "pm_rule m"] one by linarith
  have "p_ok (pc_InlineLimit (pm_cfg m)) E" using c(2) by (simp add: p_stored_def)
  then have "h \<le> 62" using p_height(4)[OF p_ok_length] h by blast
  then have col: "m_collapse ops s m (p_node h (mlev H m E' h)) = Inr ?t"
    using dr h' by (intro m_collapse_root[OF c ok' E' refl, of h]) (auto simp: drawn_to_def)
  obtain s' where s': "m_store H ops ?t [] s = (Inr (up_entry H ?t), s')" "wrote s {?t} s'"
    using m_store_wrote[OF c(1) flushing_root[OF fl], of "[]"] by auto
  have "flushing U s' m E E'" using flushing_wrote[OF fl s'(2)] flushing_root[OF fl] by simp
  moreover have "drawn_to s' m E' (mhgt H m E')" using dr h' wrote_puts[OF s'(2)] by (auto simp: drawn_to_def)
  ultimately have "p_stored s' (m_with m (H (n_encode ?t)) ?t) E'" "clean U s'"
    using m_with_stored[of U s' m E E'] s'(2) by (auto simp: wrote_def flushing_def)
  then show ?thesis using col s' by (simp add: sbind_def sret_def up_entry_def wrote_def)
qed

text \<open>Several: the levels above are drawn whole.\<close>

lemma root_many:
  assumes fl: "flushing U s m E E'" and dr: "drawn_to s m E' h" and h: "h = mhgt H m E" and E': "E' \<noteq> []" and many: "length (mgs H m E' h) \<noteq> 1"
  shows "\<exists>s'. sbind (sfold (\<lambda>n up. sbind (m_store H ops n []) (\<lambda>e. sret (up @ [e]))) (map (p_node h) (mgs H m E' h)) []) (\<lambda>up.
      sbind (m_grow H ops m h up) (\<lambda>up.
      sbind (\<lambda>s. (m_read ops s m (p_child (hd up)), s)) (\<lambda>t. sret (m_with m (p_child (hd up)) t, ks)))) s =
    (Inr (m_with m (H (n_encode (p_root H (pm_rule m) E'))) (p_root H (pm_rule m) E'), ks), s') \<and>
    p_stored s' (m_with m (H (n_encode (p_root H (pm_rule m) E'))) (p_root H (pm_rule m) E')) E' \<and> grows s s' \<and> clean U s'"
proof -
  let ?t = "p_root H (pm_rule m) E'"
  have c: "clean U s" "p_stored s m E" and ok': "p_ok (pc_InlineLimit (pm_cfg m)) E'" using fl by (auto simp: flushing_def)
  have h': "h \<le> mhgt H m E'" using lev_single[OF ok' E', of H "pm_rule m" h] many by (cases "mhgt H m E' \<le> h") auto
  have fit: "\<And>n. n \<in> set (map (p_node h) (mgs H m E' h)) \<Longrightarrow> fits U n" using flushing_fits[OF fl, of _ h] h by auto
  obtain s1 where s1: "sfold (\<lambda>n up. sbind (m_store H ops n []) (\<lambda>e. sret (up @ [e]))) (map (p_node h) (mgs H m E' h)) [] s = (Inr (mlev H m E' (Suc h)), s1)"
    "wrote s (p_node h ` set (mgs H m E' h)) s1"
    using store_nodes_wrote[OF c(1) fit, where ns = "map (p_node h) (mgs H m E' h)" and up = "[]"] by (auto simp: o_def)
  have fl1: "flushing U s1 m E E'" using flushing_wrote[OF fl s1(2)] fit by auto
  obtain s2 where s2: "m_grow H ops m h (mlev H m E' (Suc h)) s1 = (Inr [up_entry H ?t], s2)" "grows s1 s2" "flushing U s2 m E E'" "drawn_to s2 m E' (Suc (mhgt H m E'))"
    using m_grow_wrote[OF E' fl1 drawn_to_wrote[OF dr s1(2)] h'] by blast
  have put: "n_encode ?t \<in> puts s2" using p_root_group[OF ok' E', of H "pm_rule m"] s2(4) by (auto simp: drawn_to_def)
  have c2: "ok s2" "inj_on H (puts s2)" "p_stored s2 m E" "clean U s2" using s2(3) by (auto simp: flushing_def clean_def intro: inj_on_subset)
  have "m_read ops s2 m (H (n_encode ?t)) = Inr ?t"
    using m_read_put[OF c2(1-3) put p_root_ok[OF ok']] flushing_root[OF s2(3)] by (simp add: fits_def)
  moreover have "p_stored s2 (m_with m (H (n_encode ?t)) ?t) E'"
    using m_with_stored[OF s2(3) _ put] s2(4) by (simp add: drawn_to_def)
  moreover have "grows s s2" using grows_trans[OF _ s2(2)] s1(2) by (simp add: wrote_def)
  ultimately show ?thesis using s1(1) s2(1) c2(4)
    by (simp add: sbind_eval[of "sfold _ _ _"] sbind_eval[of "m_grow H ops m h _"] sbind_eval[of "\<lambda>s. (m_read ops s m _, s)"] sret_def up_entry_def del: p_lev_Suc)
qed

lemma applyRoot_wrote:
  assumes fl: "flushing U s m E E'" and dr: "drawn_to s m E' h" and h: "h = mhgt H m E"
    and ap: "ed_apply edits (mlev H m E h) = mlev H m E' h"
  shows "\<exists>m' s'. applyRoot H ops m (p_node h (mlev H m E h)) edits changed s =
      (Inr (m', if h = 0 then changed @ ed_changed edits (mlev H m E h) else changed), s') \<and>
    p_stored s' m' E' \<and> grows s s' \<and> clean U s' \<and> pm_cfg m' = pm_cfg m"
proof -
  let ?ks = "if h = 0 then changed @ ed_changed edits (mlev H m E h) else changed"
  obtain ch1 ch2 s1 where mg: "pk_merge H ops None (mlev H m E h) edits (pk_log changed (newChunker m h True)) s = (Inr ([], ch1), s1)"
    "pk_end H ops ch1 s1 = (Inr ch2, s1)" "wrote s {} s1" and nodes: "pk_nodes ch2 = map (p_node h) (mgs H m E' h)"
    and ks: "(case pk_changed ch2 of Some ks \<Rightarrow> ks | None \<Rightarrow> changed) = ?ks"
    by (rule root_merged[OF fl ap refl])
  have fl1: "flushing U s1 m E E'" using flushing_wrote[OF fl mg(3)] by simp
  have dr1: "drawn_to s1 m E' h" using drawn_to_mono[OF dr wrote_puts[OF mg(3)]] .
  have gr: "grows s s1" using mg(3) by (simp add: wrote_def)
  note unf = applyRoot_def[of H ops m "p_node h (mlev H m E h)" edits changed]
  have go: "applyRoot H ops m (p_node h (mlev H m E h)) edits changed s =
      (if pk_nodes ch2 = [] then sbind (m_Empty ops (pm_cfg m)) (\<lambda>m'. sret (m', ?ks))
       else if length (pk_nodes ch2) = 1 then
         sbind (\<lambda>s. (m_collapse ops s m (hd (pk_nodes ch2)), s)) (\<lambda>n.
         sbind (m_store H ops n []) (\<lambda>e. sret (m_with m (p_child e) n, ?ks)))
       else
         sbind (sfold (\<lambda>n up. sbind (m_store H ops n []) (\<lambda>e. sret (up @ [e]))) (pk_nodes ch2) []) (\<lambda>up.
         sbind (m_grow H ops m h up) (\<lambda>up.
         sbind (\<lambda>s. (m_read ops s m (p_child (hd up)), s)) (\<lambda>t.
           sret (m_with m (p_child (hd up)) t, ?ks))))) s1"
    unfolding unf Let_def pnode.simps ks[symmetric] using mg(1,2)
    by (simp only: sbind_eval[of "pk_merge H ops None (mlev H m E h) edits (pk_log changed (newChunker m h True))" s, OF mg(1)]
        sbind_eval[of "pk_end H ops ch1" s1, OF mg(2)] prod.case)
  show ?thesis
  proof (cases "E' = []")
    case True
    then obtain m' s' where "m_Empty ops (pm_cfg m) s1 = (Inr m', s')" "p_stored s' m' []" "grows s1 s'" "clean U s'" "pm_cfg m' = pm_cfg m"
      using m_Empty_wrote fl1 by blast
    then show ?thesis using go nodes True grows_trans[OF gr] by (auto simp: sbind_def sret_def p_gs_def)
  next
    case E': False
    show ?thesis
    proof (cases "length (mgs H m E' h) = 1")
      case True
      then have g: "mgs H m E' h = [mlev H m E' h]" using concat_p_gs[of H "pm_rule m" E' h] by (cases "mgs H m E' h") auto
      show ?thesis using root_one[OF fl1 dr1 h E' True, of ?ks] go nodes g grows_trans[OF gr] by (fastforce simp: m_with_def)
    next
      case False
      then show ?thesis using root_many[OF fl1 dr1 h E' False, of ?ks] go nodes E' grows_trans[OF gr] by (fastforce simp: m_with_def)
    qed
  qed
qed

text \<open>Equal entries at one level come from equal entries below.\<close>

lemma lev_inj:
  assumes fl: "flushing U s m E E'" and l: "l < mhgt H m E"
  shows "k \<le> Suc l \<Longrightarrow> mlev H m E' k = mlev H m E k \<Longrightarrow> E' = E"
proof (induction k)
  case (Suc k)
  let ?inl = "pc_InlineLimit (pm_cfg m)"
  have st: "p_stored s m E" "inj_on H U" "puts s \<subseteq> U" "p_ok ?inl E" "p_ok ?inl E'" "pc_rule (pm_cfg m) = Inr (pm_rule m)"
    using fl by (auto simp: flushing_def clean_def p_stored_def)
  have k: "k < mhgt H m E" "k \<le> maxLevel" using Suc.prems(1) l p_height(4)[OF p_ok_length[OF st(4)], of H "pm_rule m"] by (auto simp: maxLevel_def)
  have "g = g'" if "g \<in> set (mgs H m E' k)" "g' \<in> set (mgs H m E k)" "p_up H k g = p_up H k g'" for g g'
  proof -
    have "n_encode (p_node k g) \<in> U" using flushing_fits[OF fl that(1)] k by (simp add: fits_def)
    moreover have "n_encode (p_node k g') \<in> U" using old_nodes_put[OF st(1) k(1), of "{g'}"] that(2) st(3) by auto
    moreover have "H (n_encode (p_node k g)) = H (n_encode (p_node k g'))" using that(3) by (simp add: up_entry_def)
    ultimately have "n_encode (p_node k g) = n_encode (p_node k g')" using st(2) by (metis inj_onD)
    then show ?thesis
      using n_encode_inj[OF p_group_ok[OF st(5) that(1) k(2)] p_group_ok[OF st(4) that(2) k(2)]] pc_ruleD(1,3)[OF st(6)] p_gs_fits[OF st(6,5) that(1)]
      by simp
  qed
  moreover have "map (p_up H k) (mgs H m E' k) = map (p_up H k) (mgs H m E k)" using Suc.prems(2) by simp
  ultimately have "mgs H m E' k = mgs H m E k" by (rule map_eq_on)
  then show ?case using Suc.IH Suc.prems(1) by (metis Suc_leD concat_p_gs)
qed simp

lemma apply_from_wrote:
  assumes h: "h = mhgt H m E"
  shows "\<lbrakk>flushing U s m E E'; drawn_to s m E' l; k = h - l; l \<le> h; ed_wf edits; ed_apply edits (mlev H m E l) = mlev H m E' l;
      l = 0 \<or> changed = ks; l = 0 \<longrightarrow> ks = changed @ ed_changed edits E\<rbrakk> \<Longrightarrow>
    \<exists>m' s'. m_apply_from k H ops m (p_node h (mlev H m E h)) l edits changed s = (Inr (m', ks), s') \<and>
      p_stored s' m' E' \<and> grows s s' \<and> clean U s' \<and> pm_cfg m' = pm_cfg m"
proof (induction k arbitrary: l edits changed s)
  case 0
  then have l: "l = h" by simp
  then have "ks = (if h = 0 then changed @ ed_changed edits (mlev H m E h) else changed)" using 0 by auto
  then show ?case using applyRoot_wrote[OF "0.prems"(1) _ h] 0 l by simp
next
  case (Suc k)
  have l: "l < mhgt H m E" and k: "k = h - Suc l" "Suc l \<le> h" using Suc.prems(3) h by simp_all
  have st: "clean U s" "p_stored s m E" using Suc.prems(1) by (auto simp: flushing_def)
  let ?gs = "mgs H m E l"
  have N: "p_chop_all H (pm_rule m) l (ed_apply edits (concat (drop 0 ?gs))) = mgs H m E' l" using Suc.prems(6) by (simp add: p_gs_def[of H "pm_rule m" E'])
  have fit: "\<forall>g\<in>set (mgs H m E' l). fits U (p_node l g)" using flushing_fits[OF Suc.prems(1)] l by auto
  have "E \<noteq> []" using l by (cases "E = []") auto
  then have gs: "?gs \<noteq> []" by simp
  obtain up s1 where up: "applyLevel H ops m l edits changed s = (Inr (up, if l = 0 then changed @ ed_changed edits (concat (drop 0 ?gs)) else changed), s1)"
    "levelled m l ?gs 0 edits s up s1"
    using applyLevel_wrote[OF l refl st(2,1) Suc.prems(5), of 0 changed] fit gs unfolding N by auto
  have kz: "(if l = 0 then changed @ ed_changed edits (concat (drop 0 ?gs)) else changed) = ks" using Suc.prems(7,8) by auto
  have lv: "ed_wf up" "ed_apply up (mlev H m E (Suc l)) = mlev H m E' (Suc l)" "wrote s (p_node l ` set (mgs H m E' l)) s1"
    using up(2) unfolding levelled_def Let_def N by auto
  have fl1: "flushing U s1 m E E'" using flushing_wrote[OF Suc.prems(1) lv(3)] fit by auto
  have gr: "grows s s1" using lv(3) by (simp add: wrote_def)
  show ?case
  proof (cases "up = []")
    case True
    then have "E' = E" using lev_inj[OF fl1 l le_refl] lv(2) by simp
    then show ?thesis using up(1) True kz fl1 gr by (auto simp: sbind_def sret_def flushing_def)
  next
    case False
    obtain m' s2 where "m_apply_from k H ops m (p_node h (mlev H m E h)) (Suc l) up ks s1 = (Inr (m', ks), s2)"
      "p_stored s2 m' E'" "grows s1 s2" "clean U s2" "pm_cfg m' = pm_cfg m"
      using Suc.IH[OF fl1 drawn_to_wrote[OF Suc.prems(2) lv(3)] k lv(1,2), of ks] by auto
    then show ?thesis using up(1) False kz grows_trans[OF gr] by (auto simp: sbind_def)
  qed
qed

text \<open>Applying edits: it returns, the map has the tree of the edited entries, and the keys reported are those that changed.\<close>

lemma m_apply_wrote:
  assumes "p_stored s m E" and "ok s" and "ed_wf edits" and "p_ok (pc_InlineLimit (pm_cfg m)) (ed_apply edits E)"
    and "inj_on H (puts s \<union> n_encode ` p_drawn H (pm_rule m) (ed_apply edits E) (mhgt H m E))"
  shows "\<exists>m' s'. m_apply H ops m edits s = (Inr (m', ed_changed edits E), s') \<and> p_stored s' m' (ed_apply edits E) \<and> grows s s' \<and>
    puts s' \<subseteq> puts s \<union> n_encode ` p_drawn H (pm_rule m) (ed_apply edits E) (mhgt H m E) \<and> pm_cfg m' = pm_cfg m"
proof -
  let ?E = "ed_apply edits E" and ?h = "mhgt H m E"
  let ?U = "puts s \<union> n_encode ` p_drawn H (pm_rule m) ?E ?h"
  have fl: "flushing ?U s m E ?E" using assms by (simp add: flushing_def clean_def)
  have "\<exists>m' s'. m_apply_from ?h H ops m (p_node ?h (mlev H m E ?h)) 0 edits [] s = (Inr (m', ed_changed edits E), s') \<and>
      p_stored s' m' ?E \<and> grows s s' \<and> clean ?U s' \<and> pm_cfg m' = pm_cfg m"
    using apply_from_wrote[OF refl fl, of 0 ?h edits "[]" "ed_changed edits E"] assms(3) by (simp add: drawn_to_def)
  moreover have "m_read ops s m (pm_root m) = Inr (p_node ?h (mlev H m E ?h))"
    using read_root[OF clean_held[of ?U s m E]] fl by (simp add: flushing_def)
  ultimately show ?thesis by (auto simp: m_apply_def sbind_def clean_def)
qed

end

end
