(* ===== verification/ProllySpec.thy ===== *)
theory ProllySpec
  imports ProllyCanon
begin

text \<open>
  The ordered map as a dictionary: a map holds the contents \<open>D\<close>, keys with their bytes in key
  order, when its tree is the one \<open>D\<close> draws and the streams of its long values are stored. The editor
  and its flush, reading, iterating and reopening are stated against the contents, first over any
  store with the laws of \<open>chunk_rw\<close>, then, as properties, over the memory store.
\<close>

section \<open>Contents\<close>

type_synonym contents = "(bytes \<times> bytes) list"

definition val_of :: "(bytes \<Rightarrow> hash) \<Rightarrow> (byte \<Rightarrow> u64) \<Rightarrow> pconfig \<Rightarrow> bytes \<Rightarrow> pvalue" where
  "val_of H tb c b =
     (if int (length b) > pc_InlineLimit c
      then \<lparr>v_inline = [], v_ref = Some (s_ref H (projr (boundary_New (sc_Nodes (pc_Stream c)))) (cdc_chunks tb (sc_CDC (pc_Stream c)) b))\<rparr>
      else \<lparr>v_inline = b, v_ref = None\<rparr>)"

definition leaf_of :: "(bytes \<Rightarrow> hash) \<Rightarrow> (byte \<Rightarrow> u64) \<Rightarrow> pconfig \<Rightarrow> bytes \<times> bytes \<Rightarrow> pentry" where
  "leaf_of H tb c kb = \<lparr>p_key = fst kb, p_val = val_of H tb c (snd kb), p_child = zero_hash, p_count = 0\<rparr>"

definition leaves :: "(bytes \<Rightarrow> hash) \<Rightarrow> (byte \<Rightarrow> u64) \<Rightarrow> pconfig \<Rightarrow> contents \<Rightarrow> pentry list" where
  "leaves H tb c D = map (leaf_of H tb c) D"

definition edit_of :: "(bytes \<Rightarrow> hash) \<Rightarrow> (byte \<Rightarrow> u64) \<Rightarrow> pconfig \<Rightarrow> bytes \<times> bytes option \<Rightarrow> edit" where
  "edit_of H tb c kp =
     (case snd kp of
        None \<Rightarrow> \<lparr>ed_key = fst kp, ed_del = True, ed_e = zero_entry\<rparr>
      | Some b \<Rightarrow> \<lparr>ed_key = fst kp, ed_del = False, ed_e = leaf_of H tb c (fst kp, b)\<rparr>)"

text \<open>A configuration every part of which is accepted, with a value limit a stream can have.\<close>

definition pc_ok :: "pconfig \<Rightarrow> bool" where
  "pc_ok c \<longleftrightarrow> \<not> isl (pc_rule c) \<and> \<not> isl (boundary_New (sc_Nodes (pc_Stream c))) \<and> cdc_Validate (sc_CDC (pc_Stream c)) = Inr () \<and>
     pc_maxValue c \<le> 2 ^ 62"

definition item_ok :: "pconfig \<Rightarrow> bytes \<times> bytes \<Rightarrow> bool" where
  "item_ok c kb \<longleftrightarrow> length (fst kb) \<le> MaxKeySize \<and> int (length (snd kb)) \<le> pc_maxValue c"

definition contents_ok :: "pconfig \<Rightarrow> contents \<Rightarrow> bool" where
  "contents_ok c D \<longleftrightarrow> strictly_sorted (map fst D) \<and> list_all (item_ok c) D \<and> length D \<le> 2 ^ 62"

lemma s_stored_ref:
  assumes "s_stored H P ref b" and "length b < 2 ^ 64"
  shows "sr_Size ref = of_nat (length b)" and "unat (sr_Depth ref) \<le> maxLevel"
proof -
  show "sr_Size ref = of_nat (length b)" using assms s_holds_size by (fastforce simp: s_stored_def split: if_splits)
  have "unat (of_nat k :: byte) \<le> maxLevel" if "k < maxDepth" for k
    using that by (subst unat_of_nat_small) (auto simp: maxDepth_def maxLevel_def)
  then show "unat (sr_Depth ref) \<le> maxLevel" using assms(1) by (auto simp: s_stored_def split: if_splits)
qed

lemma bytes_rdr_stream: "rdr_stream 0 (bytes_rdr b) = (b, EOF)"
  by (simp add: bytes_rdr_def)

text \<open>Writing a long value gives its reference, and a store that holds it.\<close>

context chunk_rw
begin

lemma write_value:
  assumes "pc_ok c" and "int (length b) \<le> pc_maxValue c" and "ok s"
  shows "\<exists>s'. s_Write H tb ops (bytes_rdr b) (Some (length b)) (pc_Stream c) s =
      (Inr (s_ref H (projr (boundary_New (sc_Nodes (pc_Stream c)))) (cdc_chunks tb (sc_CDC (pc_Stream c)) b)), s') \<and> grows s s' \<and>
     s_stored H (puts s') (s_ref H (projr (boundary_New (sc_Nodes (pc_Stream c)))) (cdc_chunks tb (sc_CDC (pc_Stream c)) b)) b"
proof -
  have "boundary_New (sc_Nodes (pc_Stream c)) = Inr (projr (boundary_New (sc_Nodes (pc_Stream c))))" "cdc_Validate (sc_CDC (pc_Stream c)) = Inr ()"
    "length b \<le> 2 ^ 62" using assms(1,2) by (auto simp: pc_ok_def isl_def split: sum.splits)
  then show ?thesis using s_Write_stores[OF _ _ bytes_rdr_stream] assms(3) by blast
qed

end

lemma val_of_ok:
  assumes "pc_ok c" and "int (length b) \<le> pc_maxValue c"
  shows "pvalue_ok (pc_InlineLimit c) (val_of H tb c b)"
proof (cases "int (length b) > pc_InlineLimit c")
  case True
  obtain s' :: memstore where s': "s_stored H (set (ms_puts s')) (s_ref H (projr (boundary_New (sc_Nodes (pc_Stream c)))) (cdc_chunks tb (sc_CDC (pc_Stream c)) b)) b"
    using ms.write_value[OF assms ms_New_ok] by blast
  have l: "length b \<le> 2 ^ 62" using assms by (simp add: pc_ok_def)
  then have "uint (of_nat (length b) :: u64) = int (length b)" by (simp add: uint_nat unat_of_nat_small)
  then show ?thesis using True s_stored_ref[OF s'] l by (simp add: val_of_def pvalue_ok_def)
qed (simp add: val_of_def pvalue_ok_def)

lemma leaves_ok:
  assumes "pc_ok c" and "contents_ok c D"
  shows "p_ok (pc_InlineLimit c) (leaves H tb c D)"
  using assms val_of_ok[OF assms(1)]
  by (auto simp: p_ok_def contents_ok_def leaves_def leaf_of_def list_all_iff pentry_ok_def item_ok_def o_def)

lemma p_values_leaves: "p_values (leaves H tb c D) k = map_option (val_of H tb c) (map_of D k)"
  by (induction D) (auto simp: p_values_def leaves_def leaf_of_def)

text \<open>Leaf entries are what their keys and values are.\<close>

lemma entries_eqI:
  assumes "strictly_sorted (map p_key xs)" and "strictly_sorted (map p_key ys)" and "p_values xs = p_values ys"
    and "\<And>x. x \<in> set xs \<union> set ys \<Longrightarrow> p_child x = zero_hash \<and> p_count x = 0"
  shows "xs = ys"
proof -
  have dom: "dom (p_values zs) = p_key ` set zs" for zs by (simp add: p_values_def dom_map_of_conv_image_fst image_image)
  have "set (map p_key xs) = set (map p_key ys)" using dom[of xs] dom[of ys] assms(3) by simp
  then have k: "map p_key xs = map p_key ys" using assms(1,2) by (intro strict_sorted_equal) auto
  have val: "p_values zs (p_key z) = Some (p_val z)" if "strictly_sorted (map p_key zs)" "z \<in> set zs" for z zs
    using that by (induction zs) (auto simp: p_values_Cons)
  show ?thesis
  proof (rule nth_equalityI)
    show len: "length xs = length ys" using k by (metis length_map)
    fix i
    assume i: "i < length xs"
    then have ki: "p_key (xs ! i) = p_key (ys ! i)" using k len by (metis nth_map)
    then have "p_val (xs ! i) = p_val (ys ! i)"
      using val[OF assms(1), of "xs ! i"] val[OF assms(2), of "ys ! i"] assms(3) i len by simp
    then show "xs ! i = ys ! i" using ki assms(4)[of "xs ! i"] assms(4)[of "ys ! i"] i len by simp
  qed
qed

section \<open>The editor\<close>

definition eo_ok :: "editor \<Rightarrow> bool" where
  "eo_ok e \<longleftrightarrow> distinct (map fst (eo_edits e)) \<and>
     (\<forall>(k, p) \<in> set (eo_edits e). length k \<le> MaxKeySize \<and> (\<forall>b. p = Some b \<longrightarrow> int (length b) \<le> pc_maxValue (pm_cfg (eo_m e))))"

lemma set_update: "x \<in> set (AList.update k v xs) \<Longrightarrow> x = (k, v) \<or> x \<in> set xs"
  by (induction xs) (auto split: if_splits)

text \<open>The editor's operations keep its edits within the limits, and record the last of each key.\<close>

lemma eo_update_ok:
  assumes "eo_ok e" and "length key \<le> MaxKeySize" and "\<And>b. p = Some b \<Longrightarrow> int (length b) \<le> pc_maxValue (pm_cfg (eo_m e))"
  shows "eo_ok (e\<lparr>eo_edits := AList.update key p (eo_edits e)\<rparr>)"
  using assms set_update[of _ key p "eo_edits e"] distinct_update[of "eo_edits e" key p] by (fastforce simp: eo_ok_def)

lemma eo_Put_ok:
  assumes "eo_ok e" and "eo_Put key val e = (r, e')"
  shows "eo_ok e'" and "eo_m e' = eo_m e" and "r = Inr () \<Longrightarrow> map_of (eo_edits e') = (map_of (eo_edits e))(key \<mapsto> Some val)"
    and "r \<noteq> Inr () \<Longrightarrow> e' = e"
  using assms eo_update_ok[of e key "Some val"] by (auto simp: eo_Put_def update_conv' split: if_splits)

lemma eo_Delete_ok:
  assumes "eo_ok e" and "eo_Delete key e = (r, e')"
  shows "eo_ok e'" and "eo_m e' = eo_m e" and "r = Inr () \<Longrightarrow> map_of (eo_edits e') = (map_of (eo_edits e))(key \<mapsto> None)"
    and "r \<noteq> Inr () \<Longrightarrow> e' = e"
  using assms eo_update_ok[of e key None] by (auto simp: eo_Delete_def update_conv' split: if_splits)

section \<open>The edited contents\<close>

text \<open>The contents after the editor's edits, the last of each key: the reference a flush is compared with.\<close>

definition edited_at :: "(bytes \<times> bytes option) list \<Rightarrow> contents \<Rightarrow> bytes \<rightharpoonup> bytes" where
  "edited_at es D k = (case map_of es k of None \<Rightarrow> map_of D k | Some p \<Rightarrow> p)"

definition edited :: "(bytes \<times> bytes option) list \<Rightarrow> contents \<Rightarrow> contents" where
  "edited es D = List.map_filter (\<lambda>k. map_option (Pair k) (edited_at es D k)) (sorted_list_of_set (set (map fst es @ map fst D)))"

lemma map_filter_keys:
  "map fst (List.map_filter (\<lambda>k. map_option (Pair k) (f k)) ks) = filter (\<lambda>k. f k \<noteq> None) ks"
  by (induction ks) (auto simp: List.map_filter_simps split: option.splits)

lemma map_of_map_filter:
  "map_of (List.map_filter (\<lambda>k. map_option (Pair k) (f k)) ks) k = (if k \<in> set ks then f k else None)"
  by (induction ks) (auto simp: List.map_filter_simps split: option.splits)

lemma map_of_edited: "map_of (edited es D) = edited_at es D"
proof -
  have "edited_at es D k = None" if "k \<notin> set (map fst es @ map fst D)" for k
    using that map_of_eq_None_iff[of es k] map_of_eq_None_iff[of D k] by (simp add: edited_at_def)
  then show ?thesis unfolding edited_def map_of_map_filter by (auto simp: fun_eq_iff)
qed

lemma edited_sorted: "strictly_sorted (map fst (edited es D))"
  unfolding edited_def map_filter_keys by (intro sorted_wrt_filter) simp

lemma edited_item: "kb \<in> set (edited es D) \<Longrightarrow> kb \<in> set D \<or> (fst kb, Some (snd kb)) \<in> set es"
proof -
  assume a: "kb \<in> set (edited es D)"
  have "distinct (map fst (edited es D))" using edited_sorted strict_sorted_iff by blast
  then have "map_of (edited es D) (fst kb) = Some (snd kb)" using a by simp
  then show ?thesis unfolding map_of_edited
    by (cases kb) (auto simp: edited_at_def split: option.splits dest!: map_of_SomeD)
qed

lemma length_edited: "length (edited es D) \<le> length es + length D"
proof -
  let ?ks = "sorted_list_of_set (set (map fst es @ map fst D))"
  have "length (edited es D) = length (filter (\<lambda>k. edited_at es D k \<noteq> None) ?ks)"
    using arg_cong[OF map_filter_keys[of "edited_at es D" ?ks], of length] by (simp only: edited_def length_map)
  moreover have "\<dots> \<le> length ?ks" by (rule length_filter_le)
  moreover have "length ?ks \<le> length es + length D" using card_length[of "map fst es @ map fst D"] by (simp only: length_sorted_list_of_set length_append length_map)
  ultimately show ?thesis by linarith
qed

lemma edited_ok:
  assumes "contents_ok (pm_cfg (eo_m e)) D" and "eo_ok e" and "length (eo_edits e) + length D \<le> 2 ^ 62"
  shows "contents_ok (pm_cfg (eo_m e)) (edited (eo_edits e) D)"
proof -
  have "item_ok (pm_cfg (eo_m e)) kb" if "kb \<in> set (edited (eo_edits e) D)" for kb
    using edited_item[OF that] assms(1,2) by (auto simp: contents_ok_def list_all_iff eo_ok_def item_ok_def)
  then show ?thesis using assms(3) length_edited[of "eo_edits e" D] edited_sorted[of "eo_edits e" D] by (simp add: contents_ok_def list_all_iff)
qed

definition edits_of :: "(bytes \<Rightarrow> hash) \<Rightarrow> (byte \<Rightarrow> u64) \<Rightarrow> editor \<Rightarrow> edit list" where
  "edits_of H tb e = map (\<lambda>k. edit_of H tb (pm_cfg (eo_m e)) (k, the (map_of (eo_edits e) k))) (sort (map fst (eo_edits e)))"

lemma edit_of_key [simp]: "ed_key (edit_of H tb c kp) = fst kp"
  by (simp add: edit_of_def split: option.splits)

lemma edit_of_entry: "\<not> ed_del (edit_of H tb c kp) \<Longrightarrow> p_key (ed_e (edit_of H tb c kp)) = fst kp"
  by (simp add: edit_of_def leaf_of_def split: option.splits)

lemma edits_of_wf: "eo_ok e \<Longrightarrow> ed_wf (edits_of H tb e)"
  by (auto simp: ed_wf_def edits_of_def o_def eo_ok_def strict_sorted_iff edit_of_entry)

lemma edits_of_at:
  "map_of (map (\<lambda>d. (ed_key d, d)) (edits_of H tb e)) k = map_option (\<lambda>p. edit_of H tb (pm_cfg (eo_m e)) (k, p)) (map_of (eo_edits e) k)"
proof -
  have "map_of (map (\<lambda>d. (ed_key d, d)) (edits_of H tb e)) k =
      map_of (map (\<lambda>k. (k, edit_of H tb (pm_cfg (eo_m e)) (k, the (map_of (eo_edits e) k)))) (sort (map fst (eo_edits e)))) k"
    by (simp add: edits_of_def o_def)
  also have "\<dots> = (if k \<in> set (map fst (eo_edits e)) then Some (edit_of H tb (pm_cfg (eo_m e)) (k, the (map_of (eo_edits e) k))) else None)"
    by (simp add: map_of_map_restrict restrict_map_def)
  also have "\<dots> = map_option (\<lambda>p. edit_of H tb (pm_cfg (eo_m e)) (k, p)) (map_of (eo_edits e) k)"
    using map_of_eq_None_iff[of "eo_edits e" k] by (cases "map_of (eo_edits e) k") auto
  finally show ?thesis .
qed

lemma edits_of_apply:
  assumes "eo_ok e" and "strictly_sorted (map fst D)"
  shows "ed_apply (edits_of H tb e) (leaves H tb (pm_cfg (eo_m e)) D) = leaves H tb (pm_cfg (eo_m e)) (edited (eo_edits e) D)"
proof (rule entries_eqI)
  let ?c = "pm_cfg (eo_m e)"
  have keys: "map p_key (leaves H tb ?c D') = map fst D'" for D' by (simp add: leaves_def leaf_of_def o_def)
  then have srt: "strictly_sorted (map p_key (leaves H tb ?c D))" using assms(2) by simp
  then show "strictly_sorted (map p_key (ed_apply (edits_of H tb e) (leaves H tb ?c D)))"
    using ed_apply_sorted[OF edits_of_wf[OF assms(1)]] by blast
  show "strictly_sorted (map p_key (leaves H tb ?c (edited (eo_edits e) D)))" using keys edited_sorted by metis
  show "p_values (ed_apply (edits_of H tb e) (leaves H tb ?c D)) = p_values (leaves H tb ?c (edited (eo_edits e) D))"
    unfolding p_values_apply[OF edits_of_wf[OF assms(1)] srt]
    by (auto simp: fun_eq_iff ed_values_def edits_of_at p_values_leaves map_of_edited edited_at_def edit_of_def leaf_of_def split: option.splits)
  fix x
  assume "x \<in> set (ed_apply (edits_of H tb e) (leaves H tb ?c D)) \<union> set (leaves H tb ?c (edited (eo_edits e) D))"
  then consider "x \<in> leaf_of H tb ?c ` UNIV" | "\<exists>d\<in>set (edits_of H tb e). \<not> ed_del d \<and> x = ed_e d"
    by (auto simp: leaves_def dest!: ed_apply_sub)
  then show "p_child x = zero_hash \<and> p_count x = 0"
    by cases (auto simp: leaf_of_def edits_of_def edit_of_def split: option.splits)
qed

section \<open>A map holding contents\<close>

text \<open>The bytes of a long value are stored under the reference its entry has.\<close>

definition val_stored :: "(bytes \<Rightarrow> hash) \<Rightarrow> (byte \<Rightarrow> u64) \<Rightarrow> bytes set \<Rightarrow> pconfig \<Rightarrow> bytes \<Rightarrow> bool" where
  "val_stored H tb P c b \<longleftrightarrow> (case v_ref (val_of H tb c b) of None \<Rightarrow> True | Some ref \<Rightarrow> s_stored H P ref b)"

lemma top_two_mono: "top_two H P k e \<Longrightarrow> P \<subseteq> Q \<Longrightarrow> top_two H Q k e"
  by (auto simp: top_two_def)

lemma s_stored_mono: "s_stored H P ref b \<Longrightarrow> P \<subseteq> Q \<Longrightarrow> s_stored H Q ref b"
  by (auto simp: s_stored_def intro: s_holds_mono top_two_mono split: if_splits)

lemma val_stored_mono: "val_stored H tb P c b \<Longrightarrow> P \<subseteq> Q \<Longrightarrow> val_stored H tb Q c b"
  by (auto simp: val_stored_def intro: s_stored_mono split: option.splits)

context chunk_rw
begin

definition m_holds :: "(byte \<Rightarrow> u64) \<Rightarrow> 's \<Rightarrow> pmap \<Rightarrow> contents \<Rightarrow> bool" where
  "m_holds tb s m D \<longleftrightarrow> pc_ok (pm_cfg m) \<and> contents_ok (pm_cfg m) D \<and> p_stored s m (leaves H tb (pm_cfg m) D) \<and>
     (\<forall>kb\<in>set D. val_stored H tb (puts s) (pm_cfg m) (snd kb))"

lemma materialize_val:
  assumes "ok s" and "inj_on H (puts s)" and "val_stored H tb (puts s) (pm_cfg m) b" and "int (length b) \<le> pc_maxValue (pm_cfg m)"
    and "pc_ok (pm_cfg m)"
  shows "materialize grow ops s m (val_of H tb (pm_cfg m) b) = Inr b"
proof (cases "v_ref (val_of H tb (pm_cfg m) b)")
  case None
  then show ?thesis by (auto simp: materialize_def val_of_def split: if_splits)
next
  case (Some ref)
  have l: "pc_maxValue (pm_cfg m) \<le> 2 ^ 62" "length b < 2 ^ 63" using assms(4,5) by (auto simp: pc_ok_def)
  then have "unat (of_int (pc_maxValue (pm_cfg m)) :: u64) = nat (pc_maxValue (pm_cfg m))"
    using assms(4) by (simp add: unat_eq_nat_uint uint_word_of_int)
  then have "length b \<le> unat (of_int (pc_maxValue (pm_cfg m)) :: u64)" using assms(4) by simp
  then have "s_ReadAll grow ops ref (of_int (pc_maxValue (pm_cfg m))) s = Inr b"
    using s_ReadAll_stored[OF assms(1,2) l(2)] assms(3) Some by (simp add: val_stored_def)
  then show ?thesis using Some by (simp add: materialize_def readValue_def)
qed

text \<open>So values that differ have different entries.\<close>

lemma val_of_inj:
  assumes "ok s" and "inj_on H (puts s)" and "pc_ok c" and "val_of H tb c a = val_of H tb c b"
    and "val_stored H tb (puts s) c a" and "int (length a) \<le> pc_maxValue c"
    and "val_stored H tb (puts s) c b" and "int (length b) \<le> pc_maxValue c"
  shows "a = b"
proof -
  define m where "m = new_map c undefined zero_hash None"
  have "pm_cfg m = c" by (simp add: m_def new_map_def)
  then show ?thesis
    using materialize_val[OF assms(1,2), of tb m a id] materialize_val[OF assms(1,2), of tb m b id] assms(3-8) by simp
qed

lemma eo_edit_wrote:
  assumes "ok s" and "pc_ok (pm_cfg m)" and "\<And>b. p = Some b \<Longrightarrow> int (length b) \<le> pc_maxValue (pm_cfg m)"
  shows "\<exists>s'. eo_edit H tb ops m k p s = (Inr (edit_of H tb (pm_cfg m) (k, p)), s') \<and> grows s s' \<and>
    (\<forall>b. p = Some b \<longrightarrow> val_stored H tb (puts s') (pm_cfg m) b)"
proof (cases p)
  case None
  then show ?thesis using assms(1) by (simp add: eo_edit_def edit_of_def sret_def)
next
  case (Some b)
  show ?thesis
  proof (cases "int (length b) > pc_InlineLimit (pm_cfg m)")
    case True
    then show ?thesis using write_value[OF assms(2) assms(3)[OF Some] assms(1), of tb] Some
      by (auto simp: eo_edit_def edit_of_def sret_def sbind_def leaf_of_def val_of_def val_stored_def)
  next
    case False
    then show ?thesis using Some assms(1) by (auto simp: eo_edit_def edit_of_def sret_def sbind_def leaf_of_def val_of_def val_stored_def)
  qed
qed

lemma collect_wrote:
  fixes m es tb
  defines "ed \<equiv> \<lambda>k. edit_of H tb (pm_cfg m) (k, the (map_of es k))"
    and "F \<equiv> \<lambda>k edits. sbind (eo_edit H tb ops m k (the (map_of es k))) (\<lambda>d. sret (edits @ [d]))"
  assumes "pc_ok (pm_cfg m)" and "\<And>k b. k \<in> set ks \<Longrightarrow> the (map_of es k) = Some b \<Longrightarrow> int (length b) \<le> pc_maxValue (pm_cfg m)" and "ok s"
  shows "\<exists>s'. sfold F ks ds s = (Inr (ds @ map ed ks), s') \<and>
    grows s s' \<and> (\<forall>k\<in>set ks. \<forall>b. the (map_of es k) = Some b \<longrightarrow> val_stored H tb (puts s') (pm_cfg m) b)"
  using assms(4,5)
proof (induction ks arbitrary: ds s)
  case (Cons k ks)
  obtain s1 where s1: "eo_edit H tb ops m k (the (map_of es k)) s = (Inr (ed k), s1)" "grows s s1"
    "\<forall>b. the (map_of es k) = Some b \<longrightarrow> val_stored H tb (puts s1) (pm_cfg m) b"
    using eo_edit_wrote[OF Cons.prems(2) assms(3), of "the (map_of es k)" tb k] Cons.prems(1)[of k] by (auto simp: ed_def)
  have F: "F k ds s = (Inr (ds @ [ed k]), s1)" using s1(1) by (simp add: F_def sbind_def sret_def)
  have "ok s1" using s1(2) by (simp add: grows_def)
  then obtain s2 where s2: "sfold F ks (ds @ [ed k]) s1 = (Inr ((ds @ [ed k]) @ map ed ks), s2)" "grows s1 s2"
    "\<forall>k\<in>set ks. \<forall>b. the (map_of es k) = Some b \<longrightarrow> val_stored H tb (puts s2) (pm_cfg m) b"
    using Cons.IH[of s1 "ds @ [ed k]"] Cons.prems(1)[OF list.set_intros(2)] by blast
  have "val_stored H tb (puts s2) (pm_cfg m) b" if "the (map_of es k) = Some b" for b
    using s1(3) s2(2) that by (auto simp: grows_def intro: val_stored_mono)
  then show ?case using F s2 grows_trans[OF s1(2) s2(2)] by (auto simp: sbind_def)
qed (simp add: sret_def)

lemma eo_collect_wrote:
  assumes "eo_ok e" and "pc_ok (pm_cfg (eo_m e))" and "ok s"
  shows "\<exists>s'. eo_collect H tb ops e s = (Inr (edits_of H tb e), s') \<and> grows s s' \<and>
    (\<forall>k b. (k, Some b) \<in> set (eo_edits e) \<longrightarrow> val_stored H tb (puts s') (pm_cfg (eo_m e)) b)"
proof -
  have at: "the (map_of (eo_edits e) k) = p" if "(k, p) \<in> set (eo_edits e)" for k p using assms(1) that by (simp add: eo_ok_def)
  have "\<exists>p. (k, p) \<in> set (eo_edits e) \<and> the (map_of (eo_edits e) k) = p" if "k \<in> set (sort (map fst (eo_edits e)))" for k
    using that at by fastforce
  then have "int (length b) \<le> pc_maxValue (pm_cfg (eo_m e))" if "k \<in> set (sort (map fst (eo_edits e)))" "the (map_of (eo_edits e) k) = Some b" for k b
    using that assms(1) by (fastforce simp: eo_ok_def)
  then obtain s' where s': "eo_collect H tb ops e s = (Inr (edits_of H tb e), s')" "grows s s'"
    "\<forall>k\<in>set (sort (map fst (eo_edits e))). \<forall>b. the (map_of (eo_edits e) k) = Some b \<longrightarrow> val_stored H tb (puts s') (pm_cfg (eo_m e)) b"
    using collect_wrote[OF assms(2), of "sort (map fst (eo_edits e))" "eo_edits e" s tb "[]"] assms(3) by (auto simp: eo_collect_def edits_of_def)
  have "val_stored H tb (puts s') (pm_cfg (eo_m e)) b" if "(k, Some b) \<in> set (eo_edits e)" for k b
    using s'(3) at[OF that] that by force
  then show ?thesis using s' by blast
qed

lemma m_holds_grows: "m_holds tb s m D \<Longrightarrow> grows s s' \<Longrightarrow> m_holds tb s' m D"
  using p_stored_grows val_stored_mono by (fastforce simp: m_holds_def grows_def)

lemma leaves_val_ok: "pc_ok c \<Longrightarrow> contents_ok c D \<Longrightarrow> x \<in> set (leaves H tb c D) \<Longrightarrow> pvalue_ok (pc_InlineLimit c) (p_val x)"
  using val_of_ok by (fastforce simp: contents_ok_def leaves_def leaf_of_def list_all_iff item_ok_def)

lemma edits_of_val_ok:
  assumes "pc_ok (pm_cfg (eo_m e))" and "eo_ok e" and "d \<in> set (edits_of H tb e)" and "\<not> ed_del d"
  shows "pvalue_ok (pc_InlineLimit (pm_cfg (eo_m e))) (p_val (ed_e d))"
proof -
  obtain k where k: "k \<in> set (map fst (eo_edits e))" "d = edit_of H tb (pm_cfg (eo_m e)) (k, the (map_of (eo_edits e) k))"
    using assms(3) by (auto simp: edits_of_def)
  then obtain p where p: "(k, p) \<in> set (eo_edits e)" "the (map_of (eo_edits e) k) = p" using assms(2) by (auto simp: eo_ok_def)
  then obtain b where "p = Some b" using assms(4) k(2) by (cases p) (auto simp: edit_of_def)
  then show ?thesis using p k(2) assms(1,2) val_of_ok by (fastforce simp: eo_ok_def edit_of_def leaf_of_def)
qed

lemma value_eq_iff:
  assumes "ok s" and "inj_on H (puts s)" and "pc_ok c" and "\<forall>kb\<in>set D \<union> set D'. val_stored H tb (puts s) c (snd kb) \<and> item_ok c kb"
  shows "map_option (val_of H tb c) (map_of D' k) = map_option (val_of H tb c) (map_of D k) \<longleftrightarrow> map_of D' k = map_of D k"
proof (cases "map_of D' k")
  case (Some a)
  show ?thesis
  proof (cases "map_of D k")
    case b: (Some b)
    have "(k, a) \<in> set D'" "(k, b) \<in> set D" using Some b map_of_SomeD by fast+
    then have "val_stored H tb (puts s) c a" "int (length a) \<le> pc_maxValue c" "val_stored H tb (puts s) c b" "int (length b) \<le> pc_maxValue c"
      using assms(4)[rule_format, of "(k, a)"] assms(4)[rule_format, of "(k, b)"] by (auto simp: item_ok_def)
    then show ?thesis using val_of_inj[OF assms(1-3), of tb a b] Some b by auto
  qed (simp add: Some)
qed (auto simp: eq_commute[of None])

text \<open>The keys a flush reports are those whose bytes differ.\<close>

lemma changed_keys:
  assumes "ok s" and "inj_on H (puts s)" and "m_holds tb s (eo_m e) D" and "eo_ok e"
    and "\<forall>kb\<in>set (edited (eo_edits e) D). val_stored H tb (puts s) (pm_cfg (eo_m e)) (snd kb)"
    and "contents_ok (pm_cfg (eo_m e)) (edited (eo_edits e) D)"
  shows "ed_changed (edits_of H tb e) (leaves H tb (pm_cfg (eo_m e)) D) =
    filter (\<lambda>k. map_of (edited (eo_edits e) D) k \<noteq> map_of D k) (sort (map fst (eo_edits e)))"
proof -
  let ?c = "pm_cfg (eo_m e)" and ?D = "edited (eo_edits e) D"
  have h: "pc_ok ?c" "contents_ok ?c D" "\<forall>kb\<in>set D. val_stored H tb (puts s) ?c (snd kb)" using assms(3) by (auto simp: m_holds_def)
  have srt: "strictly_sorted (map fst D)" "strictly_sorted (map p_key (leaves H tb ?c D))"
    using h(2) by (auto simp: contents_ok_def leaves_def leaf_of_def o_def)
  have "\<forall>kb\<in>set D \<union> set ?D. val_stored H tb (puts s) ?c (snd kb) \<and> item_ok ?c kb"
    using h(2,3) assms(5,6) by (auto simp: contents_ok_def list_all_iff)
  note eq = value_eq_iff[OF assms(1,2) h(1) this]
  have "k \<in> set (ed_changed (edits_of H tb e) (leaves H tb ?c D)) \<longleftrightarrow>
      p_values (ed_apply (edits_of H tb e) (leaves H tb ?c D)) k \<noteq> p_values (leaves H tb ?c D) k" for k
    using ed_changed_iff[OF edits_of_wf[OF assms(4)] srt(2), of "pc_InlineLimit ?c"] leaves_val_ok[OF h(1,2)] edits_of_val_ok[OF h(1) assms(4)] by blast
  then have iff: "k \<in> set (ed_changed (edits_of H tb e) (leaves H tb ?c D)) \<longleftrightarrow> map_of ?D k \<noteq> map_of D k" for k
    unfolding edits_of_apply[OF assms(4) srt(1)] p_values_leaves eq .
  have sub: "k \<in> set (map fst (eo_edits e))" if "map_of ?D k \<noteq> map_of D k" for k
    using that map_of_eq_None_iff[of "eo_edits e" k] unfolding map_of_edited edited_at_def by (auto split: option.splits)
  show ?thesis
  proof (rule strict_sorted_equal)
    show "strictly_sorted (filter (\<lambda>k. map_of ?D k \<noteq> map_of D k) (sort (map fst (eo_edits e))))"
      using assms(4) by (intro sorted_wrt_filter) (simp add: strict_sorted_iff eo_ok_def)
    show "strictly_sorted (ed_changed (edits_of H tb e) (leaves H tb ?c D))" using ed_changed_sorted[OF edits_of_wf[OF assms(4)]] .
    show "set (ed_changed (edits_of H tb e) (leaves H tb ?c D)) = set (filter (\<lambda>k. map_of ?D k \<noteq> map_of D k) (sort (map fst (eo_edits e))))"
      using iff sub by auto
  qed
qed

lemma m_holds_flushed: "m_holds tb s (m\<lparr>pm_flushed := f, pm_base := b, pm_changed := ks\<rparr>) D \<longleftrightarrow> m_holds tb s m D"
  by (simp add: m_holds_def p_stored_def)

lemma eo_Flush_holds:
  fixes e D
  defines "D' \<equiv> edited (eo_edits e) D"
  assumes "m_holds tb s (eo_m e) D" and "ok s" and "eo_ok e" and "length (eo_edits e) + length D \<le> 2 ^ 62"
    and "inj_on H (puts (snd (eo_collect H tb ops e s)) \<union> n_encode ` p_drawn H (pm_rule (eo_m e)) (leaves H tb (pm_cfg (eo_m e)) D') (pm_height (eo_m e)))"
  shows "\<exists>m' s'. eo_Flush H tb ops e s = (Inr (m', m_Editor m'), s') \<and> m_holds tb s' m' D' \<and> grows s s' \<and> inj_on H (puts s') \<and>
    pm_cfg m' = pm_cfg (eo_m e) \<and> m_Changes m' = Some (pm_root (eo_m e), filter (\<lambda>k. map_of D' k \<noteq> map_of D k) (sort (map fst (eo_edits e))))"
proof -
  let ?m = "eo_m e"
  let ?c = "pm_cfg ?m"
  let ?U = "n_encode ` p_drawn H (pm_rule ?m) (leaves H tb ?c D') (pm_height ?m)"
  have h: "pc_ok ?c" "contents_ok ?c D" "p_stored s ?m (leaves H tb ?c D)" using assms(2) by (auto simp: m_holds_def)
  have ok': "contents_ok ?c D'" using edited_ok[OF h(2) assms(4,5)] by (simp add: D'_def)
  have srt: "strictly_sorted (map fst D)" using h(2) by (simp add: contents_ok_def)
  obtain s1 where s1: "eo_collect H tb ops e s = (Inr (edits_of H tb e), s1)" "grows s s1"
    "\<And>k b. (k, Some b) \<in> set (eo_edits e) \<Longrightarrow> val_stored H tb (puts s1) ?c b"
    using eo_collect_wrote[OF assms(4) h(1) assms(3)] by blast
  have ap: "ed_apply (edits_of H tb e) (leaves H tb ?c D) = leaves H tb ?c D'" using edits_of_apply[OF assms(4) srt] by (simp add: D'_def)
  have h1: "m_holds tb s1 ?m D" "ok s1" using m_holds_grows[OF assms(2) s1(2)] s1(2) by (auto simp: grows_def)
  have hgt: "mhgt H ?m (leaves H tb ?c D) = pm_height ?m" using h(3) by (simp add: p_stored_def)
  have inj: "inj_on H (puts s1 \<union> ?U)" using assms(6) s1(1) by simp
  obtain m' s' where m': "m_apply H ops ?m (edits_of H tb e) s1 = (Inr (m', ed_changed (edits_of H tb e) (leaves H tb ?c D)), s')"
    "p_stored s' m' (leaves H tb ?c D')" "grows s1 s'" "puts s' \<subseteq> puts s1 \<union> ?U" "pm_cfg m' = ?c"
    using m_apply_wrote[of s1 ?m "leaves H tb ?c D" "edits_of H tb e"] h1 edits_of_wf[OF assms(4), of H tb] leaves_ok[OF h(1) ok'] inj
    unfolding ap hgt by (auto simp: m_holds_def)
  have inj': "inj_on H (puts s')" using inj m'(4) inj_on_subset by blast
  have vs: "\<forall>kb\<in>set D'. val_stored H tb (puts s') ?c (snd kb)"
  proof
    fix kb
    assume "kb \<in> set D'"
    then have "val_stored H tb (puts s1) ?c (snd kb)" using edited_item[of kb "eo_edits e" D] s1(3) h1(1) by (auto simp: D'_def m_holds_def)
    then show "val_stored H tb (puts s') ?c (snd kb)" using m'(3) by (auto simp: grows_def intro: val_stored_mono)
  qed
  have ok2: "ok s'" using m'(3) by (simp add: grows_def)
  have ks: "ed_changed (edits_of H tb e) (leaves H tb ?c D) = filter (\<lambda>k. map_of D' k \<noteq> map_of D k) (sort (map fst (eo_edits e)))"
    using changed_keys[OF ok2 inj' m_holds_grows[OF h1(1) m'(3)] assms(4)] vs ok' by (simp add: D'_def)
  have "m_holds tb s' m' D'" using m'(2,5) h(1) ok' vs by (simp add: m_holds_def)
  then show ?thesis using s1(1) m'(1,5) inj' grows_trans[OF s1(2) m'(3)]
    by (simp add: eo_Flush_def Let_def sbind_def sret_def m_holds_flushed m_Editor_def m_Changes_def ks)
qed

section \<open>Reading what a map holds\<close>

lemma m_holds_held: "m_holds tb s m D \<Longrightarrow> ok s \<Longrightarrow> inj_on H (puts s) \<Longrightarrow> p_held H ops s m (leaves H tb (pm_cfg m) D)"
  using p_stored_held by (simp add: m_holds_def)

lemma m_holds_value:
  assumes "m_holds tb s m D" and "ok s" and "inj_on H (puts s)" and "(k, b) \<in> set D"
  shows "materialize grow ops s m (val_of H tb (pm_cfg m) b) = Inr b"
proof -
  have "val_stored H tb (puts s) (pm_cfg m) b" "int (length b) \<le> pc_maxValue (pm_cfg m)" "pc_ok (pm_cfg m)"
    using assms(1,4) by (auto simp: m_holds_def contents_ok_def list_all_iff item_ok_def)
  then show ?thesis by (rule materialize_val[OF assms(2,3)])
qed

lemma m_Get_holds:
  assumes "m_holds tb s m D" and "ok s" and "inj_on H (puts s)"
  shows "m_Get grow ops s m key = Inr (map_of D key)"
  using m_holds_value[OF assms, of key] 
  by (auto simp: m_Get_held[OF m_holds_held[OF assms]] p_values_leaves result_simps split: option.splits dest!: map_of_SomeD)

lemma drop_kcnt: "strictly_sorted (map p_key E) \<Longrightarrow> drop (kcnt lo E) E = filter (\<lambda>e. lo \<le> p_key e) E"
proof (induction E)
  case (Cons e E)
  have "filter (\<lambda>e. lo \<le> p_key e) E = E" if "\<not> p_key e < lo" using that Cons.prems by (intro filter_True) fastforce
  then show ?case using Cons by (auto simp: kcnt_def not_less[symmetric])
qed simp

lemma m_IterRange_holds:
  assumes "m_holds tb s m D" and "ok s" and "inj_on H (puts s)" and "length D < n"
  shows "\<exists>it. m_IterRange ops s m lo hi = Inr it \<and>
    it_drain n grow ops s it = Inr (filter (\<lambda>kb. lo \<le> fst kb \<and> (hi = None \<or> fst kb < the hi)) D)"
proof -
  let ?E = "leaves H tb (pm_cfg m) D"
  define val where "val e = projr (materialize grow ops s m (p_val e))" for e :: pentry
  note held = m_holds_held[OF assms(1-3)]
  have mat: "materialize grow ops s m (val_of H tb (pm_cfg m) b) = Inr b" if "(k, b) \<in> set D" for k b
    using m_holds_value[OF assms(1-3) that] .
  have v: "materialize grow ops s m (p_val e) = Inr (val e)" if "e \<in> set ?E" for e
    using that mat by (auto simp: leaves_def leaf_of_def val_def)
  have vk: "map (\<lambda>e. (p_key e, val e)) (filter (\<lambda>e. P (p_key e)) ?E) = filter (\<lambda>kb. P (fst kb)) D" for P
  proof -
    have "(p_key (leaf_of H tb (pm_cfg m) kb), val (leaf_of H tb (pm_cfg m) kb)) = kb" if "kb \<in> set D" for kb
      using mat that by (cases kb) (auto simp: leaf_of_def val_def)
    then have "map (\<lambda>kb. (p_key (leaf_of H tb (pm_cfg m) kb), val (leaf_of H tb (pm_cfg m) kb))) (filter (\<lambda>kb. P (fst kb)) D) =
        filter (\<lambda>kb. P (fst kb)) D" by (intro map_idI) auto
    then show ?thesis by (simp add: leaves_def filter_map o_def) (simp add: leaf_of_def)
  qed
  have srt: "strictly_sorted (map p_key ?E)" using assms(1) by (simp add: m_holds_def contents_ok_def leaves_def leaf_of_def o_def)
  obtain it where it: "m_IterRange ops s m lo hi = Inr it" "it_hi it = hi" "it_at H m ?E (kcnt lo ?E) it"
    using m_IterRange_at[OF held] by blast
  have "it_drain n grow ops s it = Inr (map (\<lambda>e. (p_key e, val e)) (filter (\<lambda>e. hi = None \<or> p_key e < the hi) (drop (kcnt lo ?E) ?E)))"
    using it_drain_at[OF held v it(3) kcnt_le, of n] assms(4) it(2) by (simp add: leaves_def)
  then show ?thesis using it(1) vk[of "\<lambda>k. lo \<le> k \<and> (hi = None \<or> k < the hi)"]
    by (auto simp: drop_kcnt[OF srt] conj_commute)
qed

text \<open>Opening the root of a map gives the map again, but for what its flush recorded.\<close>

lemma m_Open_holds:
  assumes "m_holds tb s m D" and "ok s" and "inj_on H (puts s)"
  shows "m_Open ops s (pm_cfg m) (pm_root m) = Inr (m\<lparr>pm_flushed := False, pm_base := zero_hash, pm_changed := []\<rparr>)"
proof -
  let ?E = "leaves H tb (pm_cfg m) D" and ?t = "p_root H (pm_rule m) (leaves H tb (pm_cfg m) D)"
  have st: "p_ok (pc_InlineLimit (pm_cfg m)) ?E" "pc_rule (pm_cfg m) = Inr (pm_rule m)" "pm_top m = Some ?t" "pm_root m = H (n_encode ?t)"
    "pm_count m = of_nat (length ?E)" "pm_height m = p_height H (pm_rule m) ?E" "n_encode ?t \<in> puts s"
    using assms(1) by (auto simp: m_holds_def p_stored_def p_nodes_def)
  note h = p_height[OF p_ok_length[OF st(1)], where H = H and r = "pm_rule m"]
  have two: "2 \<le> length (n_entries ?t)" if "0 < n_level ?t"
  proof -
    have "0 < p_height H (pm_rule m) ?E" using that by (simp add: p_height_def)
    then obtain l where l: "p_height H (pm_rule m) ?E = Suc l" by (auto dest: gr0_implies_Suc)
    then have "1 < length (p_lev H (pm_rule m) ?E (Suc l))" using h(3)[of l] by (simp add: p_gs_def)
    then show ?thesis by (simp add: h(1) l del: p_lev.simps p_lev_Suc)
  qed
  have "rw_Get ops s (H (n_encode ?t)) = Inr (n_encode ?t)" using get_eq[OF assms(2)] view_put[OF assms(2,3) st(7)] by simp
  moreover have "length (n_encode ?t) < 2 ^ 64" using p_nodes_ok[OF st(2,1), of ?t H] by (simp add: p_nodes_def MaxChunkSize_def)
  then have "decodeNode (n_encode ?t) (pc_InlineLimit (pm_cfg m)) = Inr ?t"
    using decodeNode_encode[OF p_root_ok[OF st(1), of H "pm_rule m"]] pc_ruleD(1,3)[OF st(2)] by simp
  ultimately have "m_read ops s (new_map (pm_cfg m) (pm_rule m) (pm_root m) None) (pm_root m) = Inr ?t"
    by (simp add: m_read_def new_map_def st(4) result_simps)
  moreover have "n_level ?t = p_height H (pm_rule m) ?E" by (simp add: p_height_def)
  ultimately show ?thesis using two st n_total_root[OF st(1), of H "pm_rule m"]
    by (cases m) (auto simp: m_Open_def result_simps Let_def new_map_def)
qed

lemma m_Empty_holds:
  assumes "pc_ok c" and "ok s"
  shows "\<exists>m s'. m_Empty ops c s = (Inr m, s') \<and> m_holds tb s' m [] \<and> grows s s' \<and> pm_cfg m = c"
proof -
  obtain r where r: "pc_rule c = Inr r" using assms(1) by (auto simp: pc_ok_def isl_def) (metis sum.exhaust)
  have len: "length (n_encode empty_node) \<le> MaxChunkSize"
    using p_nodes_ok[OF r, of "[]" empty_node H] by (simp add: p_nodes_def p_ok_def)
  then obtain s' where s': "rw_Put ops (n_encode empty_node) s = (Inr (H (n_encode empty_node)), s')" "wrote s {empty_node} s'"
    using put_wrote[OF assms(2), of "{n_encode empty_node}" empty_node] by (auto simp: fits_def)
  have "m_holds tb s' (new_map c r (H (n_encode empty_node)) (Some empty_node)) []"
    using assms(1) r s'(2) by (auto simp: m_holds_def new_map_def contents_ok_def leaves_def p_stored_def p_ok_def p_nodes_def wrote_def)
  then show ?thesis using s' r by (auto simp: m_Empty_def sbind_def slift_def sret_def wrote_def new_map_def)
qed

end

section \<open>Building maps\<close>

text \<open>An editor of \<open>m\<close> after some calls of \<^verbatim>\<open>Put\<close> and \<^verbatim>\<open>Delete\<close>, whatever they returned.\<close>

inductive eo_from :: "pmap \<Rightarrow> editor \<Rightarrow> bool" for m where
  eo_start: "eo_from m (m_Editor m)"
| eo_put: "eo_from m e \<Longrightarrow> eo_from m (snd (eo_Put key val e))"
| eo_del: "eo_from m e \<Longrightarrow> eo_from m (snd (eo_Delete key e))"

lemma eo_from_ok: "eo_from m e \<Longrightarrow> eo_ok e \<and> eo_m e = m"
proof (induction rule: eo_from.induct)
  case eo_start
  then show ?case by (simp add: m_Editor_def eo_ok_def)
next
  case (eo_put e key val)
  then show ?case using eo_Put_ok(1,2)[of e key val "fst (eo_Put key val e)" "snd (eo_Put key val e)"] by simp
next
  case (eo_del e key)
  then show ?case using eo_Delete_ok(1,2)[of e key "fst (eo_Delete key e)" "snd (eo_Delete key e)"] by simp
qed

text \<open>
  No two chunks that are in the store when the edits' long values are written, or that the edited
  tree draws, have one hash: at every level up to the old root's or the new root's.
\<close>

definition flush_clean :: "(bytes \<Rightarrow> hash) \<Rightarrow> (byte \<Rightarrow> u64) \<Rightarrow> memstore \<Rightarrow> editor \<Rightarrow> contents \<Rightarrow> bool" where
  "flush_clean H tb s e D \<longleftrightarrow>
     inj_on H (set (ms_puts (snd (eo_collect H tb (memstore_ops H) e s))) \<union>
       n_encode ` p_drawn H (pm_rule (eo_m e)) (leaves H tb (pm_cfg (eo_m e)) (edited (eo_edits e) D)) (pm_height (eo_m e)))"

text \<open>
  The maps of one configuration over a memory store and the contents each should have: the empty
  map, an edited one, a reopened one, while the store takes any other chunks.
\<close>

inductive map_built :: "(bytes \<Rightarrow> hash) \<Rightarrow> (byte \<Rightarrow> u64) \<Rightarrow> pconfig \<Rightarrow> memstore \<Rightarrow> pmap \<Rightarrow> contents \<Rightarrow> bool" for H tb c where
  built_empty: "ms_ok H s \<Longrightarrow> m_Empty (memstore_ops H) c s = (Inr m, s') \<Longrightarrow> map_built H tb c s' m []"
| built_flush: "map_built H tb c s m D \<Longrightarrow> eo_from m e \<Longrightarrow> length (eo_edits e) + length D \<le> 2 ^ 62 \<Longrightarrow> flush_clean H tb s e D \<Longrightarrow>
    eo_Flush H tb (memstore_ops H) e s = (Inr (m', e'), s') \<Longrightarrow> map_built H tb c s' m' (edited (eo_edits e) D)"
| built_open: "map_built H tb c s m D \<Longrightarrow> inj_on H (set (ms_puts s)) \<Longrightarrow> m_Open (memstore_ops H) s c (pm_root m) = Inr m' \<Longrightarrow>
    map_built H tb c s m' D"
| built_grow: "map_built H tb c s m D \<Longrightarrow> ms.grows H s s' \<Longrightarrow> map_built H tb c s' m D"

lemma map_built_holds:
  assumes "pc_ok c"
  shows "map_built H tb c s m D \<Longrightarrow> ms_ok H s \<and> pm_cfg m = c \<and> ms.m_holds H tb s m D"
proof (induction rule: map_built.induct)
  case (built_empty s m s')
  then show ?case using ms.m_Empty_holds[OF assms, of H s tb] by (auto simp: ms.grows_def)
next
  case (built_flush s m D e m' e' s')
  have e: "eo_ok e" "eo_m e = m" using eo_from_ok[OF built_flush(2)] by auto
  then show ?case
    using ms.eo_Flush_holds[of H tb s e D] built_flush.IH built_flush.hyps(3-5) by (auto simp: flush_clean_def ms.grows_def)
next
  case (built_open s m D m')
  then show ?case using ms.m_Open_holds[of H tb s m D] by (auto simp: ms.m_holds_flushed)
next
  case (built_grow s m D s')
  then show ?case using ms.m_holds_grows[of H tb s m D s'] by (auto simp: ms.grows_def)
qed

section \<open>A small map\<close>

definition witness_pconfig :: pconfig where
  "witness_pconfig = \<lparr>pc_Nodes = DefaultGeometry, pc_InlineLimit = 4, pc_Stream = witness_config, pc_MaxValue = 0\<rparr>"

definition witness_map :: pmap where
  "witness_map = projr (fst (m_Empty (memstore_ops copy_hash) witness_pconfig ms_New))"

definition witness_mstore :: memstore where
  "witness_mstore = snd (m_Empty (memstore_ops copy_hash) witness_pconfig ms_New)"

definition witness_editor :: editor where
  "witness_editor = snd (eo_Delete [7] (snd (eo_Put [1] [2, 3] (m_Editor witness_map))))"

lemma witness_pconfig_ok: "pc_ok witness_pconfig"
proof -
  have "\<not> isl (boundary_New DefaultGeometry)" by (simp add: boundary_New_def geometry_Validate_def DefaultGeometry_def Let_def)
  moreover have "cdc_Validate cdc_witness_geometry = Inr ()"
    by (simp add: cdc_Validate_def cdc_witness_geometry_def Len64_def nat_len.simps)
  ultimately show ?thesis
    by (simp add: pc_ok_def witness_pconfig_def witness_config_def pc_rule_def pc_maxValue_def DefaultMaxValue_def maxInlineLimit_def)
qed

lemma witness_map_built:
  "m_Empty (memstore_ops copy_hash) witness_pconfig ms_New = (Inr witness_map, witness_mstore)"
  "map_built copy_hash (\<lambda>_. 0) witness_pconfig witness_mstore witness_map []"
proof -
  obtain m s where m: "m_Empty (memstore_ops copy_hash) witness_pconfig ms_New = (Inr m, s)"
    using ms.m_Empty_holds[OF witness_pconfig_ok ms_New_ok] by blast
  then show e: "m_Empty (memstore_ops copy_hash) witness_pconfig ms_New = (Inr witness_map, witness_mstore)"
    by (simp add: witness_map_def witness_mstore_def)
  show "map_built copy_hash (\<lambda>_. 0) witness_pconfig witness_mstore witness_map []"
    using built_empty[OF ms_New_ok e] .
qed

lemma p_one:
  shows "p_root H r [x] = p_node 0 [x]" and "p_height H r [x] = 0" and "p_drawn H r [x] 0 = {p_node 0 [x]}"
proof -
  have c: "p_chop_all H r 0 [x] = [[x]]" by (simp add: chop_all_def)
  then show r: "p_root H r [x] = p_node 0 [x]" by (simp add: p_root_def p_top.simps)
  then show h: "p_height H r [x] = 0" by (simp add: p_height_def)
  show "p_drawn H r [x] 0 = {p_node 0 [x]}" using c by (simp add: p_drawn_def r h p_gs_def)
qed

lemma witness_edited:
  "eo_edits witness_editor = [([1], Some [2, 3]), ([7], None)]" "eo_m witness_editor = witness_map"
  "edited (eo_edits witness_editor) [] = [([1], [2, 3])]"
proof -
  show e: "eo_edits witness_editor = [([1], Some [2, 3]), ([7], None)]" and m: "eo_m witness_editor = witness_map"
    using map_built_holds[OF witness_pconfig_ok witness_map_built(2)]
    by (auto simp: witness_editor_def eo_Put_def eo_Delete_def m_Editor_def MaxKeySize_def pc_maxValue_def witness_pconfig_def DefaultMaxValue_def)
  show "edited (eo_edits witness_editor) [] = [([1], [2, 3])]"
    by (simp add: e edited_def edited_at_def List.map_filter_simps)
qed

lemma witness_flush_clean: "flush_clean copy_hash (\<lambda>_. 0) witness_mstore witness_editor []"
proof -
  have c: "pm_cfg witness_map = witness_pconfig" "ms_ok copy_hash witness_mstore" "pm_height witness_map = 0"
    using map_built_holds[OF witness_pconfig_ok witness_map_built(2)] by (auto simp: ms.m_holds_def ms.p_stored_def leaves_def)
  have "m_Empty (memstore_ops copy_hash) witness_pconfig ms_New = (Inr m, s) \<Longrightarrow> ms_puts s = [n_encode empty_node]" for m s
    by (auto simp: m_Empty_def sbind_def slift_def sret_def memstore_ops_def ms_Put_def ms_New_def Let_def split: sum.splits if_splits prod.splits)
  then have puts: "ms_puts witness_mstore = [n_encode empty_node]" using witness_map_built(1) .
  have col: "eo_collect copy_hash (\<lambda>_. 0) (memstore_ops copy_hash) witness_editor witness_mstore = (Inr (edits_of copy_hash (\<lambda>_. 0) witness_editor), witness_mstore)"
    by (simp add: eo_collect_def witness_edited eo_edit_def sbind_def sret_def c witness_pconfig_def edits_of_def edit_of_def leaf_of_def val_of_def)
  have "copy_hash (n_encode empty_node) \<noteq> copy_hash (n_encode (p_node 0 [leaf_of copy_hash (\<lambda>_. 0) witness_pconfig ([1], [2, 3])]))"
    unfolding copy_hash_inject leaf_of_def val_of_def witness_pconfig_def
    by (simp add: empty_node_def n_encode_def copy_into_def put_Uvarint.simps put_U8_def)
  then show ?thesis
    unfolding flush_clean_def col witness_edited(3) c by (auto simp: witness_edited(2) c puts leaves_def p_one)
qed

text \<open>The small map after its first flush, and the empty one beside it.\<close>

lemma witness_flushed:
  "\<exists>m s. map_built copy_hash (\<lambda>_. 0) witness_pconfig s m [([1], [2, 3])] \<and>
     map_built copy_hash (\<lambda>_. 0) witness_pconfig s witness_map [] \<and> inj_on copy_hash (set (ms_puts s))"
proof -
  have f: "eo_from witness_map witness_editor" unfolding witness_editor_def by (intro eo_del eo_put eo_start)
  note h = map_built_holds[OF witness_pconfig_ok witness_map_built(2)]
  have l: "length (eo_edits witness_editor) + length [] \<le> 2 ^ 62" by (simp add: witness_edited(1))
  obtain m s where m: "eo_Flush copy_hash (\<lambda>_. 0) (memstore_ops copy_hash) witness_editor witness_mstore = (Inr (m, m_Editor m), s)"
    "ms.grows copy_hash witness_mstore s" "inj_on copy_hash (set (ms_puts s))"
    using ms.eo_Flush_holds[of copy_hash "\<lambda>_. 0" witness_mstore witness_editor "[]"] h eo_from_ok[OF f] l witness_flush_clean
    by (auto simp: flush_clean_def)
  have "map_built copy_hash (\<lambda>_. 0) witness_pconfig s m [([1], [2, 3])]"
    using built_flush[OF witness_map_built(2) f l witness_flush_clean m(1)] by (simp add: witness_edited(3))
  then show ?thesis using built_grow[OF witness_map_built(2) m(2)] m(3) by blast
qed

section \<open>Properties\<close>



text \<open>C2. Whatever the edits that led to it, a map's root, count and height are those of its contents
  alone: two maps of one configuration with the same contents, built in different orders, batches and
  stores, are the same tree.\<close>

theorem map_history_independent:
  assumes "pc_ok c" and "map_built H tb c s m D" and "map_built H tb c s' m' D"
  shows "pm_root m = pm_root m' \<and> pm_count m = pm_count m' \<and> pm_height m = pm_height m' \<and> pm_count m = of_nat (length D)"
  using map_built_holds[OF assms(1,2)] map_built_holds[OF assms(1,3)] by (auto simp: ms.m_holds_def ms.p_stored_def leaves_def)

theorem map_history_independent_witness:
  "\<exists>m s m' s'. map_built copy_hash (\<lambda>_. 0) witness_pconfig s m [([1], [2, 3])] \<and>
     m_Open (memstore_ops copy_hash) s witness_pconfig (pm_root m) = Inr m' \<and> map_built copy_hash (\<lambda>_. 0) witness_pconfig s' m' [([1], [2, 3])] \<and>
     pm_root m = pm_root m' \<and> pm_count m' = 1"
proof -
  obtain m s where m: "map_built copy_hash (\<lambda>_. 0) witness_pconfig s m [([1], [2, 3])]" "inj_on copy_hash (set (ms_puts s))"
    using witness_flushed by blast
  obtain m' where m': "m_Open (memstore_ops copy_hash) s witness_pconfig (pm_root m) = Inr m'"
    using ms.m_Open_holds[of copy_hash "\<lambda>_. 0" s m] map_built_holds[OF witness_pconfig_ok m(1)] m(2) by auto
  note b = built_open[OF m m']
  then have "pm_root m = pm_root m'" "pm_count m' = 1" using map_history_independent[OF witness_pconfig_ok m(1) b] by auto
  then show ?thesis using m(1) m' b by blast
qed

text \<open>C3. In one store without a collision, maps with the same root have the same contents: roots are
  equal exactly when the contents are, so comparing roots compares maps.\<close>

theorem map_root_contents:
  assumes "pc_ok c" and "map_built H tb c s m D" and "map_built H tb c s m' D'" and "inj_on H (set (ms_puts s))"
  shows "pm_root m = pm_root m' \<longleftrightarrow> D = D'"
proof
  note h = map_built_holds[OF assms(1,2)] and h' = map_built_holds[OF assms(1,3)]
  let ?f = "\<lambda>m :: pmap. m\<lparr>pm_flushed := False, pm_base := zero_hash, pm_changed := []\<rparr>"
  assume "pm_root m = pm_root m'"
  then have "?f m = ?f m'" using ms.m_Open_holds[of H tb s m D] ms.m_Open_holds[of H tb s m' D'] h h' assms(4) by simp
  then have "ms.m_holds H tb s (?f m) D" "ms.m_holds H tb s (?f m) D'" using h h' ms.m_holds_flushed by metis+
  then obtain it where "it_drain (Suc (length D + length D')) id (memstore_ops H) s it = Inr D"
      "it_drain (Suc (length D + length D')) id (memstore_ops H) s it = Inr D'"
    using ms.m_IterRange_holds[of H tb s "?f m" D "Suc (length D + length D')" "[]" None id]
      ms.m_IterRange_holds[of H tb s "?f m" D' "Suc (length D + length D')" "[]" None id] h assms(4) by auto
  then show "D = D'" by simp
next
  assume "D = D'"
  then show "pm_root m = pm_root m'"
    using map_built_holds[OF assms(1,2)] map_built_holds[OF assms(1,3)] by (auto simp: ms.m_holds_def ms.p_stored_def)
qed

theorem map_root_contents_witness:
  "\<exists>m s. map_built copy_hash (\<lambda>_. 0) witness_pconfig s m [([1], [2, 3])] \<and>
     map_built copy_hash (\<lambda>_. 0) witness_pconfig s witness_map [] \<and> pm_root m \<noteq> pm_root witness_map"
proof -
  obtain m s where m: "map_built copy_hash (\<lambda>_. 0) witness_pconfig s m [([1], [2, 3])]" "map_built copy_hash (\<lambda>_. 0) witness_pconfig s witness_map []"
    "inj_on copy_hash (set (ms_puts s))" using witness_flushed by blast
  then show ?thesis using map_root_contents[OF witness_pconfig_ok m] by auto
qed

text \<open>C4. In a store without a collision a map answers from its contents: \<^verbatim>\<open>Get\<close> returns exactly the
  bytes of a key, absent ones included, and an iterator over a range yields exactly the keys of
  \<open>[lo, hi)\<close> with their bytes, once each, in key order, and ends.\<close>

theorem map_reads_exact:
  assumes "pc_ok c" and "map_built H tb c s m D" and "inj_on H (set (ms_puts s))"
  shows "m_Get grow (memstore_ops H) s m key = Inr (map_of D key) \<and>
    (\<exists>it. m_IterRange (memstore_ops H) s m lo hi = Inr it \<and>
       it_drain (Suc (length D)) grow (memstore_ops H) s it = Inr (filter (\<lambda>kb. lo \<le> fst kb \<and> (hi = None \<or> fst kb < the hi)) D))"
  using map_built_holds[OF assms(1,2)] ms.m_Get_holds[of H tb s m D grow key] ms.m_IterRange_holds[of H tb s m D "Suc (length D)" lo hi grow] assms(3)
  by auto

theorem map_reads_exact_witness:
  "\<exists>m s it. map_built copy_hash (\<lambda>_. 0) witness_pconfig s m [([1], [2, 3])] \<and>
     m_Get id (memstore_ops copy_hash) s m [1] = Inr (Some [2, 3]) \<and> m_IterRange (memstore_ops copy_hash) s m [0] (Some [5]) = Inr it \<and>
     it_drain 2 id (memstore_ops copy_hash) s it = Inr [([1], [2, 3])]"
proof -
  obtain m s where m: "map_built copy_hash (\<lambda>_. 0) witness_pconfig s m [([1], [2, 3])]" "inj_on copy_hash (set (ms_puts s))"
    using witness_flushed by blast
  have "(1 :: byte) < 5" by (simp add: word_less_nat_alt)
  then obtain it where "m_IterRange (memstore_ops copy_hash) s m [0] (Some [5]) = Inr it" "it_drain (Suc 1) id (memstore_ops copy_hash) s it = Inr [([1], [2, 3])]"
    "m_Get id (memstore_ops copy_hash) s m [1] = Inr (Some [2, 3])"
    using map_reads_exact[OF witness_pconfig_ok m, of id "[1]" "[0]" "Some [5]"] by (auto simp del: it_drain.simps)
  then show ?thesis using m(1) by (auto simp: numeral_2_eq_2 simp del: it_drain.simps)
qed

text \<open>C5. A map is reopened from its root alone: \<^verbatim>\<open>Open\<close> succeeds in a store without a collision and gives
  the map that was stored, of the same contents, less the record of the flush that made it.\<close>

theorem map_reopen:
  assumes "pc_ok c" and "map_built H tb c s m D" and "inj_on H (set (ms_puts s))"
  shows "\<exists>m'. m_Open (memstore_ops H) s c (pm_root m) = Inr m' \<and> map_built H tb c s m' D \<and>
    pm_root m' = pm_root m \<and> pm_count m' = pm_count m \<and> pm_height m' = pm_height m \<and> m_Changes m' = None"
proof -
  have "m_Open (memstore_ops H) s c (pm_root m) = Inr (m\<lparr>pm_flushed := False, pm_base := zero_hash, pm_changed := []\<rparr>)"
    using map_built_holds[OF assms(1,2)] ms.m_Open_holds[of H tb s m D] assms(3) by auto
  then show ?thesis using built_open[OF assms(2,3)] by (auto simp: m_Changes_def)
qed

theorem map_reopen_witness:
  "\<exists>m s m'. map_built copy_hash (\<lambda>_. 0) witness_pconfig s m [([1], [2, 3])] \<and>
     m_Open (memstore_ops copy_hash) s witness_pconfig (pm_root m) = Inr m' \<and> m_Changes m' = None \<and> pm_root m' = pm_root m"
proof -
  obtain m s where m: "map_built copy_hash (\<lambda>_. 0) witness_pconfig s m [([1], [2, 3])]" "inj_on copy_hash (set (ms_puts s))"
    using witness_flushed by blast
  then show ?thesis using map_reopen[OF witness_pconfig_ok m] by auto
qed

end
