(* ===== verification/Auth.thy ===== *)
theory Auth
  imports Prelude
begin

text \<open>
  \<^verbatim>\<open>core/auth\<close>: principals and the check every public call makes, with \<^verbatim>\<open>unicode/utf8\<close> as the
  standard library decodes it. An \<^verbatim>\<open>Authorizer\<close> is a function from the question to the error it
  answers with, if any; what it decides by is the host's.
\<close>

section \<open>UTF-8\<close>

text \<open>\<open>first\<close> and \<open>acceptRanges\<close> of \<^verbatim>\<open>unicode/utf8\<close>: how many bytes follow a leading byte, and the
  range the first of them must be in.\<close>

definition utf8_lead :: "byte \<Rightarrow> (nat \<times> byte \<times> byte) option" where
  "utf8_lead b =
     (if b < 0x80 then Some (0, 0x80, 0xBF)
      else if b < 0xC2 then None
      else if b \<le> 0xDF then Some (1, 0x80, 0xBF)
      else if b = 0xE0 then Some (2, 0xA0, 0xBF)
      else if b = 0xED then Some (2, 0x80, 0x9F)
      else if b \<le> 0xEF then Some (2, 0x80, 0xBF)
      else if b = 0xF0 then Some (3, 0x90, 0xBF)
      else if b \<le> 0xF3 then Some (3, 0x80, 0xBF)
      else if b = 0xF4 then Some (3, 0x80, 0x8F)
      else None)"

definition utf8_cont :: "byte \<Rightarrow> bool" where
  "utf8_cont b \<longleftrightarrow> 0x80 \<le> b \<and> b \<le> 0xBF"

text \<open>How many bytes the rune at the front takes; none when it is malformed.\<close>

definition utf8_width :: "bytes \<Rightarrow> nat option" where
  "utf8_width s =
     (case s of
        [] \<Rightarrow> None
      | b # bs \<Rightarrow>
          (case utf8_lead b of
             None \<Rightarrow> None
           | Some (n, lo, hi) \<Rightarrow>
               if n = 0 then Some 1
               else if length bs < n then None
               else if lo \<le> bs ! 0 \<and> bs ! 0 \<le> hi \<and> list_all utf8_cont (take (n - 1) (tl bs)) then Some (n + 1)
               else None))"

text \<open>The rune of the first \<open>n\<close> bytes: the leading byte's low bits, then six a byte.\<close>

definition utf8_rune :: "bytes \<Rightarrow> u32" where
  "utf8_rune s =
     (let b = hd s; c = (\<lambda>i. ucast (s ! i AND 0x3F) :: u32) in
      if length s \<le> 1 then ucast b
      else if length s = 2 then push_bit 6 (ucast (b AND 0x1F)) OR c 1
      else if length s = 3 then push_bit 12 (ucast (b AND 0x0F)) OR push_bit 6 (c 1) OR c 2
      else push_bit 18 (ucast (b AND 0x07)) OR push_bit 12 (c 1) OR push_bit 6 (c 2) OR c 3)"

lemma utf8_width_bounds: "utf8_width s = Some n \<Longrightarrow> 0 < n \<and> n \<le> length s"
  by (auto simp: utf8_width_def split: list.splits option.splits if_splits)

function ValidString :: "bytes \<Rightarrow> bool" where
  "ValidString s = (s = [] \<or> (case utf8_width s of None \<Rightarrow> False | Some n \<Rightarrow> ValidString (drop n s)))"
  by pat_completeness auto
termination ValidString
  by (relation "measure length") (auto dest: utf8_width_bounds)

declare ValidString.simps [simp del]

text \<open>\<^verbatim>\<open>for _, r := range s\<close>: a malformed byte is the rune \<^verbatim>\<open>U+FFFD\<close> of one byte.\<close>

function utf8_runes :: "bytes \<Rightarrow> u32 list" where
  "utf8_runes s =
     (if s = [] then []
      else case utf8_width s of
             None \<Rightarrow> 0xFFFD # utf8_runes (tl s)
           | Some n \<Rightarrow> utf8_rune (take n s) # utf8_runes (drop n s))"
  by pat_completeness auto
termination utf8_runes
  by (relation "measure length") (auto dest: utf8_width_bounds)

declare utf8_runes.simps [simp del]

section \<open>Principals and authorizers\<close>

definition MaxIDLen :: nat where
  "MaxIDLen = 256"

record principal =
  pr_ID :: bytes

definition principal_Validate :: "principal \<Rightarrow> unit result" where
  "principal_Validate p =
     (if pr_ID p = [] \<or> length (pr_ID p) > MaxIDLen \<or> \<not> ValidString (pr_ID p) then Inl ErrInvalidPrincipal
      else if list_ex (\<lambda>r. r < 0x20 \<or> r = 0x7f) (utf8_runes (pr_ID p)) then Inl ErrInvalidPrincipal
      else Inr ())"

datatype action = ActRead | ActWrite | ActManage | ActAdmin | ActCommit | ActMerge

type_synonym authorizer = "principal \<Rightarrow> action \<Rightarrow> bytes \<Rightarrow> err option"

definition DenyAll :: authorizer where
  "DenyAll p a resource = Some ErrDenied"

definition AllowAll :: authorizer where
  "AllowAll p a resource = None"

text \<open>An error that is not a denial is wrapped into one; \<^verbatim>\<open>errors.Is\<close> sees the denial.\<close>

definition auth_Check :: "authorizer option \<Rightarrow> principal \<Rightarrow> action \<Rightarrow> bytes \<Rightarrow> unit result" where
  "auth_Check az p a resource =
     rbind (principal_Validate p) (\<lambda>_.
       case (case az of None \<Rightarrow> DenyAll | Some f \<Rightarrow> f) p a resource of
         None \<Rightarrow> Inr ()
       | Some e \<Rightarrow> Inl ErrDenied)"

section \<open>The control characters are bytes\<close>

lemma high_bit:
  assumes "2 ^ j \<le> unat (x :: 'a::len word)"
  obtains k where "j \<le> k" and "bit x k"
proof -
  have "\<exists>k \<ge> j. bit x k"
  proof (rule ccontr)
    assume "\<not> ?thesis"
    then have "take_bit j x = x" by (intro bit_word_eqI) (auto simp: bit_take_bit_iff not_le)
    then show False using assms by (simp add: take_bit_self_iff)
  qed
  then show thesis using that by blast
qed

lemma u32_big: "bit (x :: u32) k \<Longrightarrow> 7 \<le> k \<Longrightarrow> 0x80 \<le> x"
proof (rule ccontr)
  assume b: "bit x k" "7 \<le> k" and "\<not> 0x80 \<le> x"
  then have "take_bit 7 x = x" by (simp add: take_bit_self_iff word_le_nat_alt)
  from take_bit_self_bit[OF this b(2)] b(1) show False by simp
qed

lemma and_take_bit:
  "(b :: byte) AND 0x1F = take_bit 5 b" "b AND 0x0F = take_bit 4 b" "b AND 0x07 = take_bit 3 b" "b AND 0x3F = take_bit 6 b"
  by (simp_all add: take_bit_eq_mask mask_eq_exp_minus_1)

lemma unat_take_bit_byte: "unat (take_bit n (b :: byte)) = unat b mod 2 ^ n"
  by (simp only: unsigned_take_bit_eq) (simp add: take_bit_eq_mod)

text \<open>A shifted group with a high enough bit makes the rune at least \<^verbatim>\<open>0x80\<close>.\<close>

lemma group_big:
  assumes "2 ^ j \<le> unat (x :: byte)" and "7 \<le> n + j" and "n \<le> 24"
  shows "\<exists>k \<ge> 7. bit (push_bit n (ucast x) :: u32) k"
proof -
  obtain k where k: "j \<le> k" "bit x k" using high_bit[OF assms(1)] by blast
  have "k < 8" using k(2) by (auto dest: bit_imp_le_length)
  then have "bit (push_bit n (ucast x) :: u32) (n + k)" using k(2) assms(3) by (simp add: bit_simps)
  then show ?thesis using k(1) assms(2) by (intro exI[of _ "n + k"]) simp
qed

lemma rune_big:
  assumes "utf8_width s = Some n" and "1 < n"
  shows "0x80 \<le> utf8_rune (take n s)" and "\<forall>b \<in> set (take n s). 0x80 \<le> b"
proof -
  obtain b bs where s: "s = b # bs" using assms(1) by (cases s) (auto simp: utf8_width_def)
  obtain k lo hi where l: "utf8_lead b = Some (k, lo, hi)" "0 < k" "n = Suc k" "k \<le> length bs"
      "lo \<le> bs ! 0" "bs ! 0 \<le> hi" "list_all utf8_cont (take (k - 1) (tl bs))"
    using assms s by (auto simp: utf8_width_def split: option.splits if_splits)
  have lead: "(k = 1 \<and> 194 \<le> unat b \<and> unat b \<le> 223) \<or>
      (k = 2 \<and> 224 \<le> unat b \<and> unat b \<le> 239 \<and> (unat b = 224 \<longrightarrow> lo = 0xA0)) \<or>
      (k = 3 \<and> 240 \<le> unat b \<and> unat b \<le> 244 \<and> (unat b = 240 \<longrightarrow> lo = 0x90))"
    using l(1,2) by (auto simp: utf8_lead_def word_less_nat_alt word_le_nat_alt word_unat_eq_iff split: if_splits)
  have lo: "0x80 \<le> lo" using l(1) by (auto simp: utf8_lead_def split: if_splits)
  have bs: "bs \<noteq> []" using l(2,4) by auto
  then have tk: "take n s = b # bs ! 0 # take (k - 1) (tl bs)" using s l(2,3) by (cases bs; cases k) auto
  have "0x80 \<le> b" using lead by (auto simp: word_le_nat_alt)
  moreover have "0x80 \<le> bs ! 0" using lo l(5) by (rule order_trans)
  ultimately show "\<forall>b \<in> set (take n s). 0x80 \<le> b" using l(7) tk by (auto simp: list_all_iff utf8_cont_def)
  have second: "unat lo \<le> unat (bs ! 0)" "unat (bs ! 0) \<le> 191"
    using l(1,5,6) by (auto simp: utf8_lead_def word_le_nat_alt split: if_splits)
  have len: "length (take n s) = Suc k" "hd (take n s) = b" "take n s ! 1 = bs ! 0" using tk l(2-4) s by auto
  have "\<exists>j \<ge> 7. bit (utf8_rune (take n s)) j"
    using lead
  proof (elim disjE conjE)
    assume k: "k = 1" "194 \<le> unat b" "unat b \<le> 223"
    then have "2 ^ 1 \<le> unat (take_bit 5 b)" by (simp add: unat_take_bit_byte) presburger
    from group_big[OF this, of 6] show ?thesis using k(1) len by (auto simp: utf8_rune_def Let_def and_take_bit bit_or_iff)
  next
    assume k: "k = 2" "224 \<le> unat b" "unat b \<le> 239" "unat b = 224 \<longrightarrow> lo = 0xA0"
    show ?thesis
    proof (cases "unat b = 224")
      case True
      then have "160 \<le> unat (bs ! 0)" using k(4) second(1) by simp
      then have "2 ^ 5 \<le> unat (take_bit 6 (bs ! 0))" using second(2) by (simp add: unat_take_bit_byte) presburger
      from group_big[OF this, of 6] show ?thesis using k(1) len by (auto simp: utf8_rune_def Let_def and_take_bit bit_or_iff)
    next
      case False
      then have "2 ^ 0 \<le> unat (take_bit 4 b)" using k by (simp add: unat_take_bit_byte) presburger
      from group_big[OF this, of 12] show ?thesis using k(1) len by (auto simp: utf8_rune_def Let_def and_take_bit bit_or_iff)
    qed
  next
    assume k: "k = 3" "240 \<le> unat b" "unat b \<le> 244" "unat b = 240 \<longrightarrow> lo = 0x90"
    show ?thesis
    proof (cases "unat b = 240")
      case True
      then have "144 \<le> unat (bs ! 0)" using k(4) second(1) by simp
      then have "2 ^ 4 \<le> unat (take_bit 6 (bs ! 0))" using second(2) by (simp add: unat_take_bit_byte) presburger
      from group_big[OF this, of 12] show ?thesis using k(1) len by (auto simp: utf8_rune_def Let_def and_take_bit bit_or_iff)
    next
      case False
      then have "2 ^ 0 \<le> unat (take_bit 3 b)" using k by (simp add: unat_take_bit_byte) presburger
      from group_big[OF this, of 18] show ?thesis using k(1) len by (auto simp: utf8_rune_def Let_def and_take_bit bit_or_iff)
    qed
  qed
  then show "0x80 \<le> utf8_rune (take n s)" using u32_big by blast
qed

definition control_byte :: "byte \<Rightarrow> bool" where
  "control_byte b \<longleftrightarrow> b < 0x20 \<or> b = 0x7f"

lemma rune_control:
  assumes "utf8_width s = Some n"
  shows "utf8_rune (take n s) < 0x20 \<or> utf8_rune (take n s) = 0x7f \<longleftrightarrow> list_ex control_byte (take n s)"
proof (cases "1 < n")
  case True
  note big = rune_big[OF assms True]
  have "\<not> control_byte b" if "0x80 \<le> b" for b using that by (auto simp: control_byte_def word_less_nat_alt word_le_nat_alt)
  moreover have "\<not> (x < 0x20 \<or> x = 0x7f)" if "0x80 \<le> x" for x :: u32
    using that by (auto simp: word_less_nat_alt word_le_nat_alt)
  ultimately show ?thesis using big by (auto simp: list_ex_iff)
next
  case False
  then have n: "n = 1" using utf8_width_bounds[OF assms] by simp
  obtain b bs where s: "s = b # bs" using assms by (cases s) (auto simp: utf8_width_def)
  have u: "unat (ucast b :: u32) = unat b"
    using unat_lt2p[of b] by (intro unat_ucast_small) simp
  show ?thesis using n s u by (simp add: utf8_rune_def control_byte_def word_less_nat_alt word_unat_eq_iff)
qed

lemma runes_control: "ValidString s \<Longrightarrow> list_ex (\<lambda>r. r < 0x20 \<or> r = 0x7f) (utf8_runes s) \<longleftrightarrow> list_ex control_byte s"
proof (induction s rule: utf8_runes.induct)
  case (1 s)
  show ?case
  proof (cases "s = []")
    case True
    then show ?thesis by (simp add: utf8_runes.simps)
  next
    case False
    then obtain n where n: "utf8_width s = Some n" "ValidString (drop n s)"
      using "1.prems" by (subst (asm) ValidString.simps) (auto split: option.splits)
    have "list_ex control_byte s \<longleftrightarrow> list_ex control_byte (take n s) \<or> list_ex control_byte (drop n s)"
      by (metis append_take_drop_id list_ex_append)
    then show ?thesis
      using "1.IH"(2)[OF False n] rune_control[OF n(1)] n(1) False by (subst utf8_runes.simps) auto
  qed
qed

text \<open>C35. A principal is accepted exactly when its id is 1 to 256 bytes of valid UTF-8 with no byte
  under \<^verbatim>\<open>0x20\<close> and no \<^verbatim>\<open>0x7f\<close>: checking the decoded runes, as the code does, is checking the bytes.\<close>

theorem principal_valid_iff:
  "principal_Validate p = Inr () \<longleftrightarrow>
     0 < length (pr_ID p) \<and> length (pr_ID p) \<le> 256 \<and> ValidString (pr_ID p) \<and> \<not> list_ex control_byte (pr_ID p)"
  using runes_control[of "pr_ID p"] by (auto simp: principal_Validate_def MaxIDLen_def)


end
