(* ===== verification/Model.thy ===== *)
theory Model
  imports Chunk
begin

text \<open>
  \<^verbatim>\<open>core/model\<close>: the data-model port and the registry. A \<^verbatim>\<open>Model\<close> is the record of its methods, given
  the store they are called with; the two optional interfaces beside it are optional fields. What
  a model does is the host's: the models are arguments wherever they are called.
\<close>

record mroot =
  mr_Hash :: hash
  mr_Size :: u64
  mr_Depth :: byte
  mr_Format :: u16

datatype mchange_kind = MAdded | MRemoved | MModified

record mchange =
  mc_Kind :: mchange_kind
  mc_Location :: bytes

record mconflict =
  mx_Location :: bytes
  mx_Reason :: bytes

record mmerge =
  mm_Root :: mroot
  mm_Conflicts :: "mconflict list"

text \<open>\<open>'v\<close> is the state of the function a walk calls. A model's diff is the changes its iterator
  yields, and the error it ends with, if any.\<close>

record ('s, 'v) gomodel =
  md_ID :: u16
  md_FormatVersion :: u16
  md_Validate :: "mroot \<Rightarrow> 's \<Rightarrow> unit result"
  md_Diff :: "mroot \<Rightarrow> mroot \<Rightarrow> 's \<Rightarrow> (mchange list \<times> err option) result"
  md_Merge :: "mroot \<Rightarrow> mroot \<Rightarrow> mroot \<Rightarrow> ('s, mmerge) comp"
  md_Walk :: "(mroot \<Rightarrow> 's \<Rightarrow> (hash \<Rightarrow> bool \<Rightarrow> ('v, bool) comp) \<Rightarrow> ('v, unit) comp) option"
  md_Accumulates :: "bool option"

definition model_Accumulates :: "('s, 'v) gomodel \<Rightarrow> bool" where
  "model_Accumulates m = (case md_Accumulates m of None \<Rightarrow> False | Some b \<Rightarrow> b)"

record ('s, 'v) registry =
  rg_models :: "u16 \<rightharpoonup> ('s, 'v) gomodel"
  rg_ids :: "u16 list"

text \<open>The loop of \<^verbatim>\<open>NewRegistry\<close>; a nil model is \<open>None\<close>.\<close>

fun registry_add :: "('s, 'v) gomodel option list \<Rightarrow> ('s, 'v) registry \<Rightarrow> ('s, 'v) registry result" where
  "registry_add [] r = Inr r"
| "registry_add (None # ms) r = Inl (ErrOther ''model: nil'')"
| "registry_add (Some m # ms) r =
     (if md_ID m = 0 then Inl (ErrOther ''model: id 0 is reserved'')
      else if rg_models r (md_ID m) \<noteq> None then Inl (ErrOther ''model: two models share an id'')
      else registry_add ms (r\<lparr>rg_models := (rg_models r)(md_ID m \<mapsto> m), rg_ids := rg_ids r @ [md_ID m]\<rparr>))"

definition NewRegistry :: "('s, 'v) gomodel option list \<Rightarrow> ('s, 'v) registry result" where
  "NewRegistry ms =
     rbind (registry_add ms \<lparr>rg_models = Map.empty, rg_ids = []\<rparr>) (\<lambda>r. Inr (r\<lparr>rg_ids := sort (rg_ids r)\<rparr>))"

definition registry_Resolve :: "('s, 'v) registry \<Rightarrow> u16 \<Rightarrow> u16 \<Rightarrow> ('s, 'v) gomodel result" where
  "registry_Resolve r mid fmt =
     (case rg_models r mid of
        None \<Rightarrow> Inl ErrUnknownModel
      | Some m \<Rightarrow> if fmt = 0 \<or> fmt > md_FormatVersion m then Inl ErrUnknownModel else Inr m)"

definition registry_IDs :: "('s, 'v) registry \<Rightarrow> u16 list" where
  "registry_IDs r = rg_ids r"

definition registry_Accumulates :: "('s, 'v) registry \<Rightarrow> bool" where
  "registry_Accumulates r \<longleftrightarrow> list_ex (\<lambda>mid. case rg_models r mid of None \<Rightarrow> False | Some m \<Rightarrow> model_Accumulates m) (rg_ids r)"

section \<open>What a registry holds\<close>

lemma registry_add_Inr:
  assumes "registry_add ms r = Inr r'" and "set (rg_ids r) = dom (rg_models r)" and "distinct (rg_ids r)"
  shows "None \<notin> set ms \<and> rg_ids r' = rg_ids r @ map (md_ID \<circ> the) ms \<and> distinct (rg_ids r') \<and>
    0 \<notin> md_ID ` the ` set ms \<and>
    (\<forall>mid m. rg_models r' mid = Some m \<longleftrightarrow> rg_models r mid = Some m \<or> Some m \<in> set ms \<and> md_ID m = mid)"
  using assms
proof (induction ms r rule: registry_add.induct)
  case (3 m ms r)
  let ?r = "r\<lparr>rg_models := (rg_models r)(md_ID m \<mapsto> m), rg_ids := rg_ids r @ [md_ID m]\<rparr>"
  have n: "md_ID m \<noteq> 0" "rg_models r (md_ID m) = None" "registry_add ms ?r = Inr r'"
    using "3.prems"(1) by (auto split: if_splits)
  have fresh: "md_ID m \<notin> dom (rg_models r)" using n(2) by (simp add: domIff)
  then have i: "set (rg_ids ?r) = dom (rg_models ?r)" "distinct (rg_ids ?r)" using "3.prems"(2,3) by auto
  have nn: "\<not> rg_models r (md_ID m) \<noteq> None" using n(2) by simp
  note IH = "3.IH"[OF n(1) nn n(3) i]
  have "rg_models r' mid = Some x \<longleftrightarrow> rg_models r mid = Some x \<or> Some x \<in> set (Some m # ms) \<and> md_ID x = mid" for mid x
    using IH n(2) by (cases "mid = md_ID m") auto
  moreover have "None \<notin> set ms" "0 \<notin> md_ID ` the ` set ms" "distinct (rg_ids r')"
    "rg_ids r' = rg_ids r @ map (md_ID \<circ> the) (Some m # ms)" using IH by (elim conjE, simp)+
  ultimately show ?case using n(1) by (intro conjI) auto
qed auto

lemma registry_add_ok:
  "None \<notin> set ms \<Longrightarrow> 0 \<notin> md_ID ` the ` set ms \<Longrightarrow> distinct (map (md_ID \<circ> the) ms) \<Longrightarrow>
   md_ID ` the ` set ms \<inter> dom (rg_models r) = {} \<Longrightarrow> \<exists>r'. registry_add ms r = Inr r'"
  by (induction ms r rule: registry_add.induct) (auto simp: disjoint_iff dest!: spec)

lemma NewRegistry_Inr:
  assumes "NewRegistry ms = Inr r"
  shows "None \<notin> set ms \<and> rg_ids r = sort (map (md_ID \<circ> the) ms) \<and> distinct (rg_ids r) \<and> 0 \<notin> md_ID ` the ` set ms \<and>
    (\<forall>mid m. rg_models r mid = Some m \<longleftrightarrow> Some m \<in> set ms \<and> md_ID m = mid)"
proof -
  let ?e = "\<lparr>rg_models = Map.empty, rg_ids = []\<rparr> :: ('a, 'b) registry"
  obtain r' where r': "registry_add ms ?e = Inr r'" "r = r'\<lparr>rg_ids := sort (rg_ids r')\<rparr>"
    using assms by (auto simp: NewRegistry_def result_simps)
  have "distinct (rg_ids r) \<longleftrightarrow> distinct (rg_ids r')" using r'(2) by simp
  then show ?thesis using registry_add_Inr[OF r'(1)] r'(2) by auto
qed

text \<open>C37. A registry is built exactly from models that are not nil, whose ids are not 0 and all differ;
  what it resolves is then one of them, by its id, in a format from 1 to the one it writes, and
  nothing else.\<close>

theorem registry_resolves:
  fixes ms :: "('s, 'v) gomodel option list"
  shows "((\<exists>r. NewRegistry ms = Inr r) \<longleftrightarrow>
      None \<notin> set ms \<and> 0 \<notin> md_ID ` the ` set ms \<and> distinct (map (md_ID \<circ> the) ms)) \<and>
    (\<forall>r. NewRegistry ms = Inr r \<longrightarrow>
      strictly_sorted (registry_IDs r) \<and> set (registry_IDs r) = md_ID ` the ` set ms \<and>
      (\<forall>mid fmt m. registry_Resolve r mid fmt = Inr m \<longleftrightarrow>
         Some m \<in> set ms \<and> md_ID m = mid \<and> fmt \<noteq> 0 \<and> fmt \<le> md_FormatVersion m) \<and>
      (\<forall>mid fmt e. registry_Resolve r mid fmt = Inl e \<longrightarrow> e = ErrUnknownModel))"
proof (intro conjI allI impI)
  show "(\<exists>r. NewRegistry ms = Inr r) \<longleftrightarrow>
      None \<notin> set ms \<and> 0 \<notin> md_ID ` the ` set ms \<and> distinct (map (md_ID \<circ> the) ms)"
  proof
    assume "\<exists>r. NewRegistry ms = Inr r"
    then obtain r where "NewRegistry ms = Inr r" by blast
    from NewRegistry_Inr[OF this] show "None \<notin> set ms \<and> 0 \<notin> md_ID ` the ` set ms \<and> distinct (map (md_ID \<circ> the) ms)"
      by (metis distinct_sort)
  next
    assume "None \<notin> set ms \<and> 0 \<notin> md_ID ` the ` set ms \<and> distinct (map (md_ID \<circ> the) ms)"
    then obtain r' where "registry_add ms \<lparr>rg_models = Map.empty, rg_ids = []\<rparr> = Inr r'"
      using registry_add_ok[of ms "\<lparr>rg_models = Map.empty, rg_ids = []\<rparr>"] by auto
    then show "\<exists>r. NewRegistry ms = Inr r" by (simp add: NewRegistry_def)
  qed
next
  fix r :: "('s, 'v) registry"
  assume r: "NewRegistry ms = Inr r"
  note n = NewRegistry_Inr[OF r]
  show "strictly_sorted (registry_IDs r)" using n by (metis sorted_sort strict_sorted_iff registry_IDs_def)
  show "set (registry_IDs r) = md_ID ` the ` set ms" using n by (auto simp: registry_IDs_def)
  show "registry_Resolve r mid fmt = Inr m \<longleftrightarrow>
      Some m \<in> set ms \<and> md_ID m = mid \<and> fmt \<noteq> 0 \<and> fmt \<le> md_FormatVersion m" for mid fmt m
  proof -
    have "registry_Resolve r mid fmt = Inr m \<longleftrightarrow> rg_models r mid = Some m \<and> fmt \<noteq> 0 \<and> fmt \<le> md_FormatVersion m"
      by (auto simp: registry_Resolve_def not_less split: option.splits)
    then show ?thesis using n by metis
  qed
  show "registry_Resolve r mid fmt = Inl e \<Longrightarrow> e = ErrUnknownModel" for mid fmt e
    by (auto simp: registry_Resolve_def split: option.splits if_splits)
qed

definition witness_model :: "(memstore, unit) gomodel" where
  "witness_model = \<lparr>md_ID = 7, md_FormatVersion = 2, md_Validate = (\<lambda>_ _. Inr ()), md_Diff = (\<lambda>_ _ _. Inr ([], None)),
     md_Merge = (\<lambda>b o' t. sret \<lparr>mm_Root = o', mm_Conflicts = []\<rparr>), md_Walk = None, md_Accumulates = None\<rparr>"

theorem registry_resolves_witness:
  "\<exists>r. NewRegistry [Some witness_model] = Inr r \<and> registry_Resolve r 7 1 = Inr witness_model \<and>
     registry_Resolve r 7 3 = Inl ErrUnknownModel"
proof -
  let ?ms = "[Some witness_model]"
  note w = registry_resolves[of ?ms]
  obtain r where r: "NewRegistry ?ms = Inr r"
    using conjunct1[OF w] by (auto simp: witness_model_def)
  have i: "registry_Resolve r mid fmt = Inr m \<longleftrightarrow>
      Some m \<in> set ?ms \<and> md_ID m = mid \<and> fmt \<noteq> 0 \<and> fmt \<le> md_FormatVersion m" for mid fmt m
    using conjunct2[OF w] r by blast
  have e: "registry_Resolve r mid fmt = Inl e \<longrightarrow> e = ErrUnknownModel" for mid fmt e
    using conjunct2[OF w] r by blast
  have "registry_Resolve r 7 1 = Inr witness_model" by (simp only: i) (simp add: witness_model_def)
  moreover have "registry_Resolve r 7 3 \<noteq> Inr m" for m by (simp only: i) (simp add: witness_model_def)
  then have "registry_Resolve r 7 3 = Inl ErrUnknownModel" using e[of 7 3] by (cases "registry_Resolve r 7 3") auto
  ultimately show ?thesis using r by blast
qed

end
