(* ===== verification/Object.thy ===== *)
theory Object
  imports ProllyDiff Auth Model
begin

text \<open>
  \<^verbatim>\<open>core/object\<close>: the namespace, a prolly map from path to object reference. The 46-byte record and
  its decoder, the path grammar, and every operation of a namespace over the map's.
\<close>

section \<open>Object references\<close>

definition RefSize :: nat where
  "RefSize = 46"

record oref =
  or_Model :: u16
  or_Flags :: byte
  or_Root :: mroot

definition zero_ref :: oref where
  "zero_ref = \<lparr>or_Model = 0, or_Flags = 0, or_Root = \<lparr>mr_Hash = zero_hash, mr_Size = 0, mr_Depth = 0, mr_Format = 0\<rparr>\<rparr>"

definition ref_Encode :: "oref \<Rightarrow> bytes" where
  "ref_Encode r =
     put_U16 (or_Model r) @ put_U16 (mr_Format (or_Root r)) @ put_U8 (or_Flags r) @ put_U8 (mr_Depth (or_Root r)) @
     put_U64 (mr_Size (or_Root r)) @ hbytes (mr_Hash (or_Root r))"

definition DecodeRef :: "bytes \<Rightarrow> oref result" where
  "DecodeRef b =
     (if length b \<noteq> RefSize then Inl ErrChunkCorrupt
      else let r = NewReader b; (m, r) = rd_U16 r; (fmt, r) = rd_U16 r; (flags, r) = rd_U8 r; (depth, r) = rd_U8 r;
               (sz, r) = rd_U64 r; (h, r) = rd_Fixed 32 r
        in if rd_Done r \<noteq> None \<or> flags \<noteq> 0 \<or> m = 0 \<or> fmt = 0 then Inl ErrChunkCorrupt
           else Inr \<lparr>or_Model = m, or_Flags = flags,
                     or_Root = \<lparr>mr_Hash = copy_hash h, mr_Size = sz, mr_Depth = depth, mr_Format = fmt\<rparr>\<rparr>)"

definition ref_ok :: "oref \<Rightarrow> bool" where
  "ref_ok r \<longleftrightarrow> or_Flags r = 0 \<and> or_Model r \<noteq> 0 \<and> mr_Format (or_Root r) \<noteq> 0"

lemma length_ref_Encode [simp]: "length (ref_Encode r) = 46"
  by (simp add: ref_Encode_def put_U16_def put_U8_def put_U64_def)

lemma DecodeRef_Encode: "DecodeRef (ref_Encode r) = (if ref_ok r then Inr r else Inl ErrChunkCorrupt)"
proof -
  have d: "rd_Done (rd_at pre []) = None" for pre by (simp add: rd_Done_at)
  have "DecodeRef (ref_Encode r) =
      (if or_Flags r \<noteq> 0 \<or> or_Model r = 0 \<or> mr_Format (or_Root r) = 0 then Inl ErrChunkCorrupt
       else Inr \<lparr>or_Model = or_Model r, or_Flags = or_Flags r,
                 or_Root = \<lparr>mr_Hash = mr_Hash (or_Root r), mr_Size = mr_Size (or_Root r), mr_Depth = mr_Depth (or_Root r),
                            mr_Format = mr_Format (or_Root r)\<rparr>\<rparr>)"
    by (simp only: DecodeRef_def length_ref_Encode) (simp add: RefSize_def ref_Encode_def NewReader_at wire_simps d Let_def)
  then show ?thesis by (simp add: ref_ok_def)
qed

lemma DecodeRef_inv:
  assumes "DecodeRef b = Inr r"
  shows "b = ref_Encode r" and "ref_ok r"
proof -
  obtain m r1 fmt r2 flags r3 depth r4 sz r5 h r6 where
    f: "rd_U16 (NewReader b) = (m, r1)" "rd_U16 r1 = (fmt, r2)" "rd_U8 r2 = (flags, r3)" "rd_U8 r3 = (depth, r4)"
       "rd_U64 r4 = (sz, r5)" "rd_Fixed 32 r5 = (h, r6)"
    and ok: "rd_Done r6 = None" "flags = 0" "m \<noteq> 0" "fmt \<noteq> 0"
    and r: "r = \<lparr>or_Model = m, or_Flags = flags,
       or_Root = \<lparr>mr_Hash = copy_hash h, mr_Size = sz, mr_Depth = depth, mr_Format = fmt\<rparr>\<rparr>"
    using assms by (auto simp: DecodeRef_def Let_def split: prod.splits if_splits)
  note t6 = rd_Fixed_took[OF f(6) rd_Done_NoneD[OF ok(1)]]
  note t5 = rd_U64_took[OF f(5) conjunct1[OF rd_tookD[OF conjunct1[OF t6]]]]
  note t4 = rd_U8_took[OF f(4) conjunct1[OF rd_tookD[OF t5]]]
  note t3 = rd_U8_took[OF f(3) conjunct1[OF rd_tookD[OF t4]]]
  note t2 = rd_U16_took[OF f(2) conjunct1[OF rd_tookD[OF t3]]]
  note t1 = rd_U16_took[OF f(1) conjunct1[OF rd_tookD[OF t2]]]
  show "b = ref_Encode r"
    using rd_took_all[OF rd_took_trans[OF t1 rd_took_trans[OF t2 rd_took_trans[OF t3 rd_took_trans[OF t4
          rd_took_trans[OF t5 conjunct1[OF t6]]]]]] ok(1)] t6 r
    by (simp add: ref_Encode_def)
  show "ref_ok r" using ok r by (simp add: ref_ok_def)
qed

text \<open>C32. The 46-byte object record is canonical: exactly the references with a model, a format and no
  flags decode, each from its own encoding and from no other bytes.\<close>

theorem object_ref_canonical:
  "DecodeRef b = Inr r \<longleftrightarrow> b = ref_Encode r \<and> or_Flags r = 0 \<and> or_Model r \<noteq> 0 \<and> mr_Format (or_Root r) \<noteq> 0"
  using DecodeRef_inv[of b r] DecodeRef_Encode[of r] by (auto simp: ref_ok_def)

section \<open>Paths\<close>

definition MaxPathLen :: nat where "MaxPathLen = 4096"
definition MaxSegmentLen :: nat where "MaxSegmentLen = 255"
definition MaxDepth :: nat where "MaxDepth = 64"

definition bad_segment :: "bytes \<Rightarrow> bool" where
  "bad_segment seg \<longleftrightarrow> seg = [] \<or> length seg > MaxSegmentLen \<or> seg = ascii ''.'' \<or> seg = ascii ''..''"

text \<open>The loop over the segments; \<open>depth\<close> is how many it has seen.\<close>

fun path_loop :: "nat \<Rightarrow> bytes list \<Rightarrow> unit result" where
  "path_loop depth [] = Inr ()"
| "path_loop depth (seg # segs) =
     (if depth + 1 > MaxDepth \<or> bad_segment seg then Inl ErrInvalidPath
      else if list_ex control_byte seg then Inl ErrInvalidPath
      else path_loop (depth + 1) segs)"

definition ValidPath :: "bytes \<Rightarrow> unit result" where
  "ValidPath p =
     (if p = [] \<or> length p > MaxPathLen \<or> \<not> ValidString p then Inl ErrInvalidPath
      else path_loop 0 (split_at 0x2F p))"

lemma path_loop_iff:
  "path_loop depth segs = Inr () \<longleftrightarrow>
     (segs = [] \<or> depth + length segs \<le> MaxDepth) \<and> list_all (\<lambda>s. \<not> bad_segment s \<and> \<not> list_ex control_byte s) segs"
  by (induction segs arbitrary: depth) auto

lemma path_loop_err: "path_loop depth segs = Inl e \<Longrightarrow> e = ErrInvalidPath"
  by (induction segs arbitrary: depth) (auto split: if_splits)

lemma ValidPath_iff:
  "ValidPath p = Inr () \<longleftrightarrow> p \<noteq> [] \<and> length p \<le> MaxPathLen \<and> ValidString p \<and> length (split_at 0x2F p) \<le> MaxDepth \<and>
     list_all (\<lambda>s. \<not> bad_segment s \<and> \<not> list_ex control_byte s) (split_at 0x2F p)"
  by (auto simp: ValidPath_def path_loop_iff)

lemma ValidPath_err: "ValidPath p = Inl e \<Longrightarrow> e = ErrInvalidPath"
  by (auto simp: ValidPath_def split: if_splits dest: path_loop_err)

lemma ValidPath_key: "ValidPath p = Inr () \<Longrightarrow> length p \<le> MaxKeySize"
  by (simp add: ValidPath_iff MaxPathLen_def MaxKeySize_def)

section \<open>Namespaces\<close>

record ('s, 'v) onamespace =
  ns_m :: pmap
  ns_reg :: "('s, 'v) registry"

definition namespace_cfg :: "pconfig \<Rightarrow> pconfig" where
  "namespace_cfg c = c\<lparr>pc_MaxValue := int RefSize\<rparr>"

definition ns_New :: "('s, 'z) rw_scheme \<Rightarrow> pconfig \<Rightarrow> ('s, 'v) registry option \<Rightarrow> ('s, ('s, 'v) onamespace) comp" where
  "ns_New ops c reg =
     (case reg of
        None \<Rightarrow> sfail (ErrOther ''object: a namespace needs a model registry'')
      | Some rg \<Rightarrow> sbind (m_Empty ops (namespace_cfg c)) (\<lambda>m. sret \<lparr>ns_m = m, ns_reg = rg\<rparr>))"

definition ns_Open :: "('s, 'z) rw_scheme \<Rightarrow> 's \<Rightarrow> pconfig \<Rightarrow> ('s, 'v) registry option \<Rightarrow> hash \<Rightarrow> ('s, 'v) onamespace result" where
  "ns_Open ops s c reg root =
     (case reg of
        None \<Rightarrow> Inl (ErrOther ''object: a namespace needs a model registry'')
      | Some rg \<Rightarrow> rbind (m_Open ops s (namespace_cfg c) root) (\<lambda>m. Inr \<lparr>ns_m = m, ns_reg = rg\<rparr>))"

definition ns_Root :: "('s, 'v) onamespace \<Rightarrow> hash" where
  "ns_Root n = pm_root (ns_m n)"

definition ns_Count :: "('s, 'v) onamespace \<Rightarrow> u64" where
  "ns_Count n = pm_count (ns_m n)"

definition ns_Get :: "(nat \<Rightarrow> nat) \<Rightarrow> ('s, 'z) rw_scheme \<Rightarrow> 's \<Rightarrow> ('s, 'v) onamespace \<Rightarrow> bytes \<Rightarrow> (oref \<times> ('s, 'v) gomodel) option result" where
  "ns_Get grow ops s n path =
     rbind (ValidPath path) (\<lambda>_.
     rbind (m_Get grow ops s (ns_m n) path) (\<lambda>b.
       case b of
         None \<Rightarrow> Inr None
       | Some b \<Rightarrow>
           rbind (DecodeRef b) (\<lambda>ref.
           rbind (registry_Resolve (ns_reg n) (or_Model ref) (mr_Format (or_Root ref))) (\<lambda>m.
             Inr (Some (ref, m))))))"

record ('s, 'v) oeditor =
  oe_n :: "('s, 'v) onamespace"
  oe_e :: editor

definition ns_Editor :: "('s, 'v) onamespace \<Rightarrow> ('s, 'v) oeditor" where
  "ns_Editor n = \<lparr>oe_n = n, oe_e = m_Editor (ns_m n)\<rparr>"

text \<open>A call on the map's editor inside this one.\<close>

definition on_editor :: "(editor, 'a) comp \<Rightarrow> (('s, 'v) oeditor, 'a) comp" where
  "on_editor f e = (case f (oe_e e) of (r, x) \<Rightarrow> (r, e\<lparr>oe_e := x\<rparr>))"

definition oe_Put :: "bytes \<Rightarrow> oref \<Rightarrow> (('s, 'v) oeditor, unit) comp" where
  "oe_Put path ref e =
     sbind (slift (ValidPath path)) (\<lambda>_.
       if or_Flags ref \<noteq> 0 then sfail (ErrOther ''object: flags'')
       else sbind (slift (registry_Resolve (ns_reg (oe_n e)) (or_Model ref) (mr_Format (or_Root ref)))) (\<lambda>_.
         on_editor (eo_Put path (ref_Encode ref)))) e"

definition oe_Delete :: "bytes \<Rightarrow> (('s, 'v) oeditor, unit) comp" where
  "oe_Delete path = sbind (slift (ValidPath path)) (\<lambda>_. on_editor (eo_Delete path))"

definition oe_Flush :: "(bytes \<Rightarrow> hash) \<Rightarrow> (byte \<Rightarrow> u64) \<Rightarrow> ('s, 'z) rw_scheme \<Rightarrow> ('s, 'v) oeditor \<Rightarrow>
    ('s, ('s, 'v) onamespace \<times> ('s, 'v) oeditor) comp" where
  "oe_Flush H tb ops e =
     sbind (eo_Flush H tb ops (oe_e e)) (\<lambda>(m, e').
       let n = \<lparr>ns_m = m, ns_reg = ns_reg (oe_n e)\<rparr> in sret (n, \<lparr>oe_n = n, oe_e = e'\<rparr>))"

section \<open>Changes\<close>

record ochange =
  oc_Kind :: ChangeKind
  oc_Path :: bytes
  oc_From :: oref
  oc_To :: oref

record ('s, 'v) odiff =
  od_d :: pdiff
  od_to :: "('s, 'v) onamespace"

definition ns_Diff :: "('s, 'z) rw_scheme \<Rightarrow> 's \<Rightarrow> ('s, 'v) onamespace \<Rightarrow> ('s, 'v) onamespace \<Rightarrow> ('s, 'v) odiff result" where
  "ns_Diff ops s from to = rbind (m_Diff ops s (ns_m from) (ns_m to)) (\<lambda>d. Inr \<lparr>od_d = d, od_to = to\<rparr>)"

definition ref_side :: "bool \<Rightarrow> bytes option \<Rightarrow> oref result" where
  "ref_side present b = (if present then DecodeRef (case b of Some x \<Rightarrow> x | None \<Rightarrow> []) else Inr zero_ref)"

definition od_change :: "change \<Rightarrow> ochange result" where
  "od_change pc =
     (case ValidPath (ch_Key pc) of
        Inl e \<Rightarrow> Inl ErrChunkCorrupt
      | Inr _ \<Rightarrow>
          rbind (ref_side (ch_Kind pc \<noteq> Added) (ch_From pc)) (\<lambda>from.
          rbind (ref_side (ch_Kind pc \<noteq> Removed) (ch_To pc)) (\<lambda>to.
            Inr \<lparr>oc_Kind = ch_Kind pc, oc_Path = ch_Key pc, oc_From = from, oc_To = to\<rparr>)))"

definition od_Next :: "(nat \<Rightarrow> nat) \<Rightarrow> ('s, 'z) rw_scheme \<Rightarrow> 's \<Rightarrow> ('s, 'v) odiff \<Rightarrow> ochange option result \<times> ('s, 'v) odiff" where
  "od_Next grow ops s d =
     (case df_Next grow ops s (od_d d) of
        (r, pd) \<Rightarrow>
          (rbind r (\<lambda>pc. case pc of None \<Rightarrow> Inr None | Some pc \<Rightarrow> rbind (od_change pc) (\<lambda>c. Inr (Some c))),
           d\<lparr>od_d := pd\<rparr>))"

definition od_Detail :: "('s, 'v) odiff \<Rightarrow> 's \<Rightarrow> ochange \<Rightarrow> (mchange list \<times> err option) result" where
  "od_Detail d s c =
     (let reg = ns_reg (od_to d) in
      if oc_Kind c \<noteq> Modified \<or> or_Model (oc_From c) \<noteq> or_Model (oc_To c) then Inl (ErrOther ''object: no one model'')
      else rbind (registry_Resolve reg (or_Model (oc_From c)) (mr_Format (or_Root (oc_From c)))) (\<lambda>_.
           rbind (registry_Resolve reg (or_Model (oc_To c)) (mr_Format (or_Root (oc_To c)))) (\<lambda>m.
             md_Diff m (or_Root (oc_From c)) (or_Root (oc_To c)) s)))"

section \<open>Walking\<close>

definition WalkRef :: "'s \<Rightarrow> ('s, 'v) registry \<Rightarrow> oref \<Rightarrow> (hash \<Rightarrow> bool \<Rightarrow> ('v, bool) comp) \<Rightarrow> ('v, unit) comp" where
  "WalkRef s reg ref visit =
     sbind (slift (registry_Resolve reg (or_Model ref) (mr_Format (or_Root ref)))) (\<lambda>m.
       case md_Walk m of
         None \<Rightarrow> sfail ErrNotWalkable
       | Some w \<Rightarrow> w (or_Root ref) s visit)"

definition ns_Walk :: "(nat \<Rightarrow> nat) \<Rightarrow> ('s, 'z) rw_scheme \<Rightarrow> 's \<Rightarrow> pconfig \<Rightarrow> ('s, 'v) registry option \<Rightarrow> hash \<Rightarrow>
    (hash \<Rightarrow> bool \<Rightarrow> ('v, bool) comp) \<Rightarrow> ('v, unit) comp" where
  "ns_Walk grow ops s c reg root visit =
     (case reg of
        None \<Rightarrow> sfail (ErrOther ''object: a namespace needs a model registry'')
      | Some rg \<Rightarrow>
          m_Walk grow ops s (namespace_cfg c) root visit (Some (\<lambda>path val.
            case ValidPath path of
              Inl e \<Rightarrow> sfail ErrChunkCorrupt
            | Inr _ \<Rightarrow> sbind (slift (DecodeRef val)) (\<lambda>ref. WalkRef s rg ref visit))))"

definition ns_Changes :: "('s, 'v) onamespace \<Rightarrow> (hash \<times> bytes list) option" where
  "ns_Changes n = m_Changes (ns_m n)"

end
