(* ===== verification/Merge.thy ===== *)
theory Merge
  imports Object
begin

text \<open>
  \<^verbatim>\<open>core/merge\<close>: the three-way merge of namespaces. The two diffs from base are pulled side by side,
  as in the source: what a model's merge writes in between is there for the next pull.
\<close>

definition DefaultMaxConflicts :: nat where
  "DefaultMaxConflicts = 100000"

datatype conflict_kind = BothChanged | DeleteEdit | AddAdd | ModelChange

record conflict =
  xc_Path :: bytes
  xc_Kind :: conflict_kind
  xc_Base :: oref
  xc_Ours :: oref
  xc_Theirs :: oref
  xc_Model :: "mconflict list"

record mstats =
  st_Added :: nat
  st_Removed :: nat
  st_Modified :: nat
  st_Conflicts :: nat

record ('s, 'v) mresult =
  mg_Merged :: "('s, 'v) onamespace"
  mg_Conflicts :: "conflict list"
  mg_Stats :: mstats

record ('s, 'v) zipper =
  z_ed :: "('s, 'v) oeditor"
  z_Conflicts :: "conflict list"
  z_Stats :: mstats

definition zero_stats :: mstats where
  "zero_stats = \<lparr>st_Added = 0, st_Removed = 0, st_Modified = 0, st_Conflicts = 0\<rparr>"

definition z_Put :: "bytes \<Rightarrow> oref \<Rightarrow> ('s, 'v) zipper \<Rightarrow> ('s, 'v) zipper result" where
  "z_Put path ref z = (case oe_Put path ref (z_ed z) of (Inl e, ed) \<Rightarrow> Inl e | (Inr _, ed) \<Rightarrow> Inr (z\<lparr>z_ed := ed\<rparr>))"

definition z_Delete :: "bytes \<Rightarrow> ('s, 'v) zipper \<Rightarrow> ('s, 'v) zipper result" where
  "z_Delete path z = (case oe_Delete path (z_ed z) of (Inl e, ed) \<Rightarrow> Inl e | (Inr _, ed) \<Rightarrow> Inr (z\<lparr>z_ed := ed\<rparr>))"

definition z_take :: "ochange \<Rightarrow> ('s, 'v) zipper \<Rightarrow> ('s, 'v) zipper result" where
  "z_take c z =
     (let st = z_Stats z in
      case oc_Kind c of
        Removed \<Rightarrow> z_Delete (oc_Path c) (z\<lparr>z_Stats := st\<lparr>st_Removed := st_Removed st + 1\<rparr>\<rparr>)
      | Added \<Rightarrow> z_Put (oc_Path c) (oc_To c) (z\<lparr>z_Stats := st\<lparr>st_Added := st_Added st + 1\<rparr>\<rparr>)
      | Modified \<Rightarrow> z_Put (oc_Path c) (oc_To c) (z\<lparr>z_Stats := st\<lparr>st_Modified := st_Modified st + 1\<rparr>\<rparr>))"

definition z_conflict :: "conflict_kind \<Rightarrow> ochange \<Rightarrow> ochange \<Rightarrow> mconflict list \<Rightarrow> ('s, 'v) zipper \<Rightarrow> ('s, 'v) zipper" where
  "z_conflict k ours theirs mc z = z\<lparr>z_Conflicts := z_Conflicts z @
     [\<lparr>xc_Path = oc_Path ours, xc_Kind = k, xc_Base = oc_From ours, xc_Ours = oc_To ours, xc_Theirs = oc_To theirs, xc_Model = mc\<rparr>]\<rparr>"

definition z_accumulates :: "('s, 'v) registry \<Rightarrow> ochange \<Rightarrow> bool" where
  "z_accumulates reg c =
     (if or_Model (oc_From c) \<noteq> or_Model (oc_To c) then False
      else case registry_Resolve reg (or_Model (oc_To c)) (mr_Format (or_Root (oc_To c))) of
             Inl e \<Rightarrow> False
           | Inr m \<Rightarrow> model_Accumulates m)"

definition ref_model :: "('s, 'v) registry \<Rightarrow> oref \<Rightarrow> ('s, 'v) gomodel result" where
  "ref_model reg r = registry_Resolve reg (or_Model r) (mr_Format (or_Root r))"

text \<open>The end of \<^verbatim>\<open>both\<close>: one model owns base, ours and theirs, and is asked.\<close>

definition z_model :: "('s, 'v) registry \<Rightarrow> ochange \<Rightarrow> ochange \<Rightarrow> ('s, 'v) zipper \<Rightarrow> ('s, ('s, 'v) zipper) comp" where
  "z_model reg ours theirs z =
     sbind (slift (rbind (ref_model reg (oc_From ours)) (\<lambda>_. rbind (ref_model reg (oc_To ours)) (\<lambda>_. ref_model reg (oc_To theirs))))) (\<lambda>m.
     sbind (md_Merge m (or_Root (oc_From ours)) (or_Root (oc_To ours)) (or_Root (oc_To theirs))) (\<lambda>r.
       if mm_Conflicts r \<noteq> [] then sret (z_conflict BothChanged ours theirs (mm_Conflicts r) z)
       else if mr_Format (mm_Root r) = 0 \<or> mr_Format (mm_Root r) > md_FormatVersion m then sfail (ErrOther ''merge: format'')
       else slift (z_Put (oc_Path ours) \<lparr>or_Model = md_ID m, or_Flags = 0, or_Root = mm_Root r\<rparr>
              (z\<lparr>z_Stats := (z_Stats z)\<lparr>st_Modified := st_Modified (z_Stats z) + 1\<rparr>\<rparr>))))"

definition z_both :: "('s, 'v) registry \<Rightarrow> ochange \<Rightarrow> ochange \<Rightarrow> ('s, 'v) zipper \<Rightarrow> ('s, ('s, 'v) zipper) comp" where
  "z_both reg ours theirs z =
     (let oGone = (oc_Kind ours = Removed); tGone = (oc_Kind theirs = Removed) in
      if (oGone \<and> tGone) \<or> (\<not> oGone \<and> \<not> tGone \<and> oc_To ours = oc_To theirs \<and> \<not> z_accumulates reg ours) then sret z
      else if oGone \<or> tGone then sret (z_conflict DeleteEdit ours theirs [] z)
      else if oc_Kind ours = Added then sret (z_conflict AddAdd ours theirs [] z)
      else if or_Model (oc_From ours) \<noteq> or_Model (oc_To ours) \<or> or_Model (oc_To theirs) \<noteq> or_Model (oc_To ours)
        then sret (z_conflict ModelChange ours theirs [] z)
      else z_model reg ours theirs z)"

section \<open>The loop ends\<close>

text \<open>Every change a diff yields leaves it less to go through.\<close>

definition df_left :: "pdiff \<Rightarrow> nat list \<times> nat list" where
  "df_left d = (case df_cs d of None \<Rightarrow> ([], []) | Some (f, t) \<Rightarrow> (c_left f, c_left t))"

abbreviation left_rel :: "((nat list \<times> nat list) \<times> (nat list \<times> nat list)) set" where
  "left_rel \<equiv> lex less_than <*lex*> lex less_than"

lemma df_side_less: "df_side grow ops s m c = (Inr kv, c') \<Longrightarrow> c_valid c \<Longrightarrow> c_less c' c"
  by (auto simp: df_side_def Let_def split: sum.splits prod.splits dest: c_valid_moves)

lemma df_send_less:
  assumes "df_send grow ops s mf mt k f t = (Inr r, f', t')"
    and "k \<noteq> Added \<Longrightarrow> c_valid f" and "k = Added \<Longrightarrow> c_valid t"
  shows "((c_left f', c_left t'), (c_left f, c_left t)) \<in> left_rel"
  using assms by (cases k) (auto simp: df_send_def split: sum.splits prod.splits dest: df_side_less)

lemma df_loop_less:
  "df_loop grow ops s mf mt f t = (Inr r, f', t') \<Longrightarrow>
   ((c_left f', c_left t'), (c_left f, c_left t)) \<in> left_rel \<or> (r = None \<and> f' = f \<and> t' = t)"
proof (induction grow ops s mf mt f t arbitrary: r f' t' rule: df_loop.induct)
  case (1 grow ops s mf mt f t)
  note eq = df_loop.simps[of grow ops s mf mt f t]
  consider "\<not> c_valid f \<and> \<not> c_valid t" | "c_valid f \<or> c_valid t" "df_cmp f t < 0" | "c_valid f \<or> c_valid t" "df_cmp f t > 0"
    | "c_valid f \<or> c_valid t" "df_cmp f t = 0" by linarith
  then show ?case
  proof cases
    case 1
    then show ?thesis using "1.prems" eq by auto
  next
    case 2
    then have "c_valid f" by (auto simp: df_cmp_def split: if_splits)
    moreover have "df_send grow ops s mf mt Removed f t = (Inr r, f', t')" using "1.prems" eq 2 by auto
    ultimately show ?thesis by (blast dest: df_send_less)
  next
    case 3
    then have "c_valid t" by (auto simp: df_cmp_def split: if_splits)
    moreover have "df_send grow ops s mf mt Added f t = (Inr r, f', t')" using "1.prems" eq 3 by auto
    ultimately show ?thesis by (blast dest: df_send_less)
  next
    case 4
    then have v: "c_valid f" by (auto simp: df_cmp_def split: if_splits)
    show ?thesis
    proof (cases "v_equal (p_val (c_current f)) (p_val (c_current t))")
      case False
      then have "df_send grow ops s mf mt Modified f t = (Inr r, f', t')" using "1.prems" eq 4 by auto
      with v show ?thesis by (blast dest: df_send_less)
    next
      case True
      obtain f1 where f1: "c_advance ops s mf f = (Inr (), f1)"
        using "1.prems" eq 4 True by (auto split: sum.splits prod.splits)
      obtain t1 where t1: "c_advance ops s mt t = (Inr (), t1)"
        using "1.prems" eq 4 True f1 by (auto split: sum.splits prod.splits)
      obtain f2 t2 where k: "skipCommon ops s mf mt True f1 t1 = (Inr (), f2, t2)"
        using "1.prems" eq 4 True f1 t1 by (auto split: sum.splits prod.splits)
      have r: "df_loop grow ops s mf mt f2 t2 = (Inr r, f', t')" using "1.prems" eq 4 True f1 t1 k by auto
      have l: "c_less f2 f" by (rule df_step_less[OF v f1 k])
      have "((c_left f', c_left t'), (c_left f2, c_left t2)) \<in> left_rel \<or> (r = None \<and> f' = f2 \<and> t' = t2)"
        using "1.IH"[OF _ _ _ _ f1[symmetric] refl t1[symmetric] refl k[symmetric] refl refl r] 4 True by simp
      then show ?thesis using l lex_transI[OF trans_less_than] by (auto dest: transD)
    qed
  qed
qed

lemma od_Next_less:
  assumes "od_Next grow ops s d = (Inr c, d')"
  shows "(df_left (od_d d'), df_left (od_d d)) \<in> left_rel \<or> (c = None \<and> df_left (od_d d') = df_left (od_d d))"
  using assms df_loop_less[of grow ops s "df_mf (od_d d)" "df_mt (od_d d)"]
  by (fastforce simp: od_Next_def df_Next_def df_left_def result_simps split: option.splits prod.splits)

definition pull_left :: "ochange option \<Rightarrow> ('s, 'v) odiff \<Rightarrow> (nat list \<times> nat list) \<times> nat" where
  "pull_left c d = (df_left (od_d d), if c = None then 0 else 1)"

lemma pull_less:
  "od_Next grow ops s d = (Inr c', d') \<Longrightarrow> c \<noteq> None \<Longrightarrow> (pull_left c' d', pull_left c d) \<in> left_rel <*lex*> less_than"
  by (drule od_Next_less) (auto simp: pull_left_def)

section \<open>The merge\<close>

function mg_loop :: "(nat \<Rightarrow> nat) \<Rightarrow> ('s, 'z) rw_scheme \<Rightarrow> ('s, 'v) registry \<Rightarrow> nat \<Rightarrow> ochange option \<Rightarrow> ochange option \<Rightarrow>
    ('s, 'v) odiff \<Rightarrow> ('s, 'v) odiff \<Rightarrow> ('s, 'v) zipper \<Rightarrow> ('s, ('s, 'v) zipper) comp" where
  "mg_loop grow ops reg mx co ct dO dT z s =
     (if co = None \<and> ct = None then (Inr z, s)
      else if ct = None \<or> (co \<noteq> None \<and> oc_Path (the co) < oc_Path (the ct)) then
        (case od_Next grow ops s dO of
           (Inl e, dO) \<Rightarrow> (Inl e, s)
         | (Inr co, dO) \<Rightarrow> mg_loop grow ops reg mx co ct dO dT z s)
      else if co = None \<or> oc_Path (the ct) < oc_Path (the co) then
        (case z_take (the ct) z of
           Inl e \<Rightarrow> (Inl e, s)
         | Inr z \<Rightarrow>
             (case od_Next grow ops s dT of
                (Inl e, dT) \<Rightarrow> (Inl e, s)
              | (Inr ct, dT) \<Rightarrow> mg_loop grow ops reg mx co ct dO dT z s))
      else
        sbind (z_both reg (the co) (the ct) z) (\<lambda>z s.
          if length (z_Conflicts z) > mx then (Inl ErrTooManyConflicts, s)
          else
            (case od_Next grow ops s dO of
               (Inl e, dO) \<Rightarrow> (Inl e, s)
             | (Inr co, dO) \<Rightarrow>
                 (case od_Next grow ops s dT of
                    (Inl e, dT) \<Rightarrow> (Inl e, s)
                  | (Inr ct, dT) \<Rightarrow> mg_loop grow ops reg mx co ct dO dT z s))) s)"
  by pat_completeness auto
termination mg_loop
  by (relation "inv_image ((left_rel <*lex*> less_than) <*lex*> (left_rel <*lex*> less_than))
      (\<lambda>(grow, ops, reg, mx, co, ct, dO, dT, z, s). (pull_left co dO, pull_left ct dT))")
    (auto intro!: wf_inv_image wf_lex_prod wf_lex simp del: in_lex_prod simp: in_lex_prod[of _ _ _ _ "left_rel <*lex*> less_than"]
      intro: pull_less[OF sym])

declare mg_loop.simps [simp del]

definition ns_Merge :: "(bytes \<Rightarrow> hash) \<Rightarrow> (byte \<Rightarrow> u64) \<Rightarrow> (nat \<Rightarrow> nat) \<Rightarrow> ('s, 'z) rw_scheme \<Rightarrow> ('s, 'v) registry \<Rightarrow>
    ('s, 'v) onamespace \<Rightarrow> ('s, 'v) onamespace \<Rightarrow> ('s, 'v) onamespace \<Rightarrow> nat \<Rightarrow> ('s, ('s, 'v) mresult) comp" where
  "ns_Merge H tb grow ops reg base ours theirs maxConflicts s =
     (let mx = (if maxConflicts = 0 then DefaultMaxConflicts else maxConflicts);
          plain = (\<lambda>n. \<lparr>mg_Merged = n, mg_Conflicts = [], mg_Stats = zero_stats\<rparr>)
      in
      if ns_Root base = ns_Root theirs then (Inr (plain ours), s)
      else if ns_Root base = ns_Root ours then (Inr (plain theirs), s)
      else if ns_Root ours = ns_Root theirs \<and> \<not> registry_Accumulates reg then (Inr (plain ours), s)
      else
        sbind (slift (ns_Diff ops s base ours)) (\<lambda>dO.
        sbind (slift (ns_Diff ops s base theirs)) (\<lambda>dT.
          case od_Next grow ops s dO of
            (Inl e, _) \<Rightarrow> sfail e
          | (Inr co, dO) \<Rightarrow>
              (case od_Next grow ops s dT of
                 (Inl e, _) \<Rightarrow> sfail e
               | (Inr ct, dT) \<Rightarrow>
                   sbind (mg_loop grow ops reg mx co ct dO dT \<lparr>z_ed = ns_Editor ours, z_Conflicts = [], z_Stats = zero_stats\<rparr>) (\<lambda>z.
                   sbind (oe_Flush H tb ops (z_ed z)) (\<lambda>(n, _).
                     sret \<lparr>mg_Merged = n, mg_Conflicts = z_Conflicts z,
                           mg_Stats = (z_Stats z)\<lparr>st_Conflicts := length (z_Conflicts z)\<rparr>\<rparr>))))) s)"

end
