(* ===== verification/VcsCodec.thy ===== *)
theory VcsCodec
  imports Merge
begin

text \<open>
  \<^verbatim>\<open>core/vcs/encode.go\<close> and \<^verbatim>\<open>names.go\<close>: the chunks of the version graph (commits, tags, working
  sets), the conflict records, and the names of branches and tags. A \<^verbatim>\<open>time.Time\<close> is the 64 bits of
  its nanoseconds, which is all the encodings keep of it.
\<close>

definition kindCommit :: byte where "kindCommit = 0x03"
definition kindTag :: byte where "kindTag = 0x04"
definition kindWorkingSet :: byte where "kindWorkingSet = 0x05"

definition maxModelConflicts :: nat where "maxModelConflicts = 10000"
definition maxLocationLen :: nat where "maxLocationLen = 4096"
definition maxReasonLen :: nat where "maxReasonLen = 1024"
definition MaxMessageLen :: nat where "MaxMessageLen = 64 * 2 ^ 10"

definition maxConflictRecord :: nat where
  "maxConflictRecord =
     1 + 3 * (1 + RefSize) + length (put_Uvarint (of_nat maxModelConflicts)) +
     maxModelConflicts * (length (put_Uvarint (of_nat maxLocationLen)) + maxLocationLen +
                          length (put_Uvarint (of_nat maxReasonLen)) + maxReasonLen)"

definition refsMap :: "pconfig \<Rightarrow> pconfig" where
  "refsMap c = c\<lparr>pc_MaxValue := 32\<rparr>"

definition conflictsMap :: "pconfig \<Rightarrow> pconfig" where
  "conflictsMap c = c\<lparr>pc_MaxValue := int maxConflictRecord\<rparr>"

section \<open>Records\<close>

record commit =
  co_Hash :: hash
  co_Parents :: "hash list"
  co_Namespace :: hash
  co_Height :: u64
  co_Time :: u64
  co_Author :: bytes
  co_Message :: bytes

record tag =
  tg_Hash :: hash
  tg_Target :: hash
  tg_Time :: u64
  tg_Tagger :: bytes
  tg_Message :: bytes

record mergestate =
  me_Base :: hash
  me_Theirs :: hash
  me_Conflicts :: hash
  me_PreWorking :: hash
  me_PreStaged :: hash

record workingset =
  ws_Hash :: hash
  ws_Working :: hash
  ws_Staged :: hash
  ws_Merge :: "mergestate option"

text \<open>\<^verbatim>\<open>copy(h[:], r.Fixed(hash.Size))\<close> in a loop.\<close>

primrec rd_hashes :: "nat \<Rightarrow> reader \<Rightarrow> hash list \<times> reader" where
  "rd_hashes 0 r = ([], r)"
| "rd_hashes (Suc n) r = (let (h, r) = rd_hash r; (hs, r) = rd_hashes n r in (h # hs, r))"

definition commit_Encode :: "commit \<Rightarrow> bytes" where
  "commit_Encode c =
     put_U8 kindCommit @ put_U8 (of_nat (length (co_Parents c))) @ concat (map hbytes (co_Parents c)) @
     hbytes (co_Namespace c) @ put_Uvarint (co_Height c) @ put_U64 (co_Time c) @
     put_LenBytes (co_Author c) @ put_LenBytes (co_Message c)"

definition DecodeCommit :: "bytes \<Rightarrow> commit result" where
  "DecodeCommit b =
     (let r = NewReader b; (kind, r) = rd_U8 r; (n, r) = rd_U8 r in
      if rd_err r \<noteq> None \<or> kind \<noteq> kindCommit \<or> n > 2 then Inl ErrChunkCorrupt
      else
        let (ps, r) = rd_hashes (unat n) r; (ns, r) = rd_hash r; (height, r) = rd_Uvarint r; (time, r) = rd_U64 r;
            (author, r) = rd_LenBytes (int MaxIDLen) r; (msg, r) = rd_LenBytes (int MaxMessageLen) r
        in if rd_Done r \<noteq> None then Inl ErrChunkCorrupt
           else if n = 2 \<and> ps ! 0 = ps ! 1 then Inl ErrChunkCorrupt
           else if (n = 0) \<noteq> (height = 0) then Inl ErrChunkCorrupt
           else if \<not> ValidString author \<or> \<not> ValidString msg then Inl ErrChunkCorrupt
           else Inr \<lparr>co_Hash = zero_hash, co_Parents = ps, co_Namespace = ns, co_Height = height, co_Time = time,
                     co_Author = author, co_Message = msg\<rparr>)"

definition tag_encode :: "tag \<Rightarrow> bytes" where
  "tag_encode t = put_U8 kindTag @ hbytes (tg_Target t) @ put_U64 (tg_Time t) @ put_LenBytes (tg_Tagger t) @ put_LenBytes (tg_Message t)"

definition decodeTag :: "bytes \<Rightarrow> tag result" where
  "decodeTag b =
     (let r = NewReader b; (kind, r) = rd_U8 r in
      if kind \<noteq> kindTag then Inl ErrChunkCorrupt
      else
        let (target, r) = rd_hash r; (time, r) = rd_U64 r; (tagger, r) = rd_LenBytes (int MaxIDLen) r;
            (msg, r) = rd_LenBytes (int MaxMessageLen) r
        in if rd_Done r \<noteq> None then Inl ErrChunkCorrupt
           else if \<not> ValidString tagger \<or> \<not> ValidString msg then Inl ErrChunkCorrupt
           else Inr \<lparr>tg_Hash = zero_hash, tg_Target = target, tg_Time = time, tg_Tagger = tagger, tg_Message = msg\<rparr>)"

definition ws_encode :: "workingset \<Rightarrow> bytes" where
  "ws_encode ws =
     put_U8 kindWorkingSet @ hbytes (ws_Working ws) @ hbytes (ws_Staged ws) @
     (case ws_Merge ws of
        None \<Rightarrow> put_U8 0
      | Some m \<Rightarrow> put_U8 1 @ hbytes (me_Base m) @ hbytes (me_Theirs m) @ hbytes (me_Conflicts m) @
                  hbytes (me_PreWorking m) @ hbytes (me_PreStaged m))"

definition rd_merge :: "reader \<Rightarrow> mergestate \<times> reader" where
  "rd_merge r =
     (let (b, r) = rd_hash r; (t, r) = rd_hash r; (c, r) = rd_hash r; (w, r) = rd_hash r; (st, r) = rd_hash r in
      (\<lparr>me_Base = b, me_Theirs = t, me_Conflicts = c, me_PreWorking = w, me_PreStaged = st\<rparr>, r))"

definition decodeWorkingSet :: "bytes \<Rightarrow> workingset result" where
  "decodeWorkingSet b =
     (let r = NewReader b; (kind, r) = rd_U8 r in
      if kind \<noteq> kindWorkingSet then Inl ErrChunkCorrupt
      else
        let (w, r) = rd_hash r; (st, r) = rd_hash r; (merging, r) = rd_U8 r in
        if rd_err r \<noteq> None \<or> merging > 1 then Inl ErrChunkCorrupt
        else
          let (m, r) = (if merging = 1 then let (m, r) = rd_merge r in (Some m, r) else (None, r)) in
          if rd_Done r \<noteq> None then Inl ErrChunkCorrupt
          else Inr \<lparr>ws_Hash = zero_hash, ws_Working = w, ws_Staged = st, ws_Merge = m\<rparr>)"

section \<open>Conflict records\<close>

definition kind_u8 :: "conflict_kind \<Rightarrow> byte" where
  "kind_u8 k = (case k of BothChanged \<Rightarrow> 1 | DeleteEdit \<Rightarrow> 2 | AddAdd \<Rightarrow> 3 | ModelChange \<Rightarrow> 4)"

definition u8_kind :: "byte \<Rightarrow> conflict_kind option" where
  "u8_kind b =
     (if b = 1 then Some BothChanged else if b = 2 then Some DeleteEdit else if b = 3 then Some AddAdd
      else if b = 4 then Some ModelChange else None)"

definition put_side :: "oref \<Rightarrow> bytes" where
  "put_side r = (if r = zero_ref then put_U8 0 else put_U8 1 @ ref_Encode r)"

definition put_mconflict :: "mconflict \<Rightarrow> bytes" where
  "put_mconflict mc = put_LenBytes (mx_Location mc) @ put_LenBytes (mx_Reason mc)"

definition encodeConflict :: "conflict \<Rightarrow> bytes" where
  "encodeConflict c =
     put_U8 (kind_u8 (xc_Kind c)) @ put_side (xc_Base c) @ put_side (xc_Ours c) @ put_side (xc_Theirs c) @
     put_Uvarint (of_nat (length (xc_Model c))) @ concat (map put_mconflict (xc_Model c))"

definition mconflict_small :: "mconflict \<Rightarrow> bool" where
  "mconflict_small mc \<longleftrightarrow> length (mx_Location mc) \<le> maxLocationLen \<and> length (mx_Reason mc) \<le> maxReasonLen"

definition recordable :: "conflict \<Rightarrow> unit result" where
  "recordable c =
     (if length (xc_Model c) > maxModelConflicts then Inl ErrConflictTooLarge
      else if \<not> list_all mconflict_small (xc_Model c) then Inl ErrConflictTooLarge
      else Inr ())"

definition rd_side :: "reader \<Rightarrow> (oref \<times> reader) result" where
  "rd_side r =
     (let (present, r) = rd_U8 r in
      if rd_err r \<noteq> None \<or> present > 1 then Inl ErrChunkCorrupt
      else if present = 1 then
        let (b, r) = rd_Fixed (int RefSize) r in rbind (DecodeRef b) (\<lambda>ref. Inr (ref, r))
      else Inr (zero_ref, r))"

text \<open>The loop over the model's conflicts, which ends at the first error.\<close>

primrec rd_mconflicts :: "nat \<Rightarrow> reader \<Rightarrow> mconflict list \<times> reader" where
  "rd_mconflicts 0 r = ([], r)"
| "rd_mconflicts (Suc n) r =
     (let (loc, r) = rd_LenBytes (int maxLocationLen) r; (reason, r) = rd_LenBytes (int maxReasonLen) r in
      if rd_err r \<noteq> None then ([], r)
      else let (ms, r) = rd_mconflicts n r in (\<lparr>mx_Location = loc, mx_Reason = reason\<rparr> # ms, r))"

definition decodeConflict :: "bytes \<Rightarrow> bytes \<Rightarrow> conflict result" where
  "decodeConflict path b =
     (let r = NewReader b; (k, r) = rd_U8 r in
      case u8_kind k of
        None \<Rightarrow> Inl ErrChunkCorrupt
      | Some kind \<Rightarrow>
          rbind (rd_side r) (\<lambda>(base, r).
          rbind (rd_side r) (\<lambda>(ours, r).
          rbind (rd_side r) (\<lambda>(theirs, r).
            let (n, r) = rd_Uvarint r in
            if rd_err r \<noteq> None \<or> n > of_nat maxModelConflicts then Inl ErrChunkCorrupt
            else
              let (ms, r) = rd_mconflicts (unat n) r in
              if rd_Done r \<noteq> None then Inl ErrChunkCorrupt
              else Inr \<lparr>xc_Path = path, xc_Kind = kind, xc_Base = base, xc_Ours = ours, xc_Theirs = theirs, xc_Model = ms\<rparr>))))"

section \<open>Names\<close>

definition strings_Contains :: "bytes \<Rightarrow> bytes \<Rightarrow> bool" where
  "strings_Contains s sub \<longleftrightarrow> list_ex (\<lambda>i. take (length sub) (drop i s) = sub) [0..<length s + 1]"

definition HasSuffix :: "bytes \<Rightarrow> bytes \<Rightarrow> bool" where
  "HasSuffix s suf \<longleftrightarrow> length suf \<le> length s \<and> drop (length s - length suf) s = suf"

definition HasPrefix :: "bytes \<Rightarrow> bytes \<Rightarrow> bool" where
  "HasPrefix s pre \<longleftrightarrow> take (length pre) s = pre"

definition alnum :: "byte \<Rightarrow> bool" where
  "alnum c \<longleftrightarrow> (0x61 \<le> c \<and> c \<le> 0x7A) \<or> (0x41 \<le> c \<and> c \<le> 0x5A) \<or> (0x30 \<le> c \<and> c \<le> 0x39)"

text \<open>The loop of \<^verbatim>\<open>validName\<close> from byte \<open>i\<close>.\<close>

fun name_bad :: "nat \<Rightarrow> bytes \<Rightarrow> bool" where
  "name_bad i [] = False"
| "name_bad i (c # cs) =
     (if \<not> alnum c \<and> (i = 0 \<or> (c \<noteq> 0x2E \<and> c \<noteq> 0x5F \<and> c \<noteq> 0x2F \<and> c \<noteq> 0x2D)) then True else name_bad (i + 1) cs)"

definition validName :: "bytes \<Rightarrow> unit result" where
  "validName n =
     (if n = [] \<or> length n > 128 \<or> strings_Contains n (ascii ''..'') \<or> strings_Contains n (ascii ''//'') \<or>
         HasSuffix n (ascii ''/'') \<or> HasSuffix n (ascii ''.lock'') \<or> name_bad 0 n
      then Inl ErrInvalidName else Inr ())"

definition pathResource :: "bytes \<Rightarrow> bytes \<Rightarrow> bytes" where
  "pathResource branch path = ascii ''path:'' @ branch @ ascii '':'' @ path"

section \<open>The encodings are canonical\<close>

lemma rd_hashes_at [wire_simps]:
  "rd_hashes (length hs) (rd_at pre (concat (map hbytes hs) @ rest)) = (hs, rd_at (pre @ concat (map hbytes hs)) rest)"
  by (induction hs arbitrary: pre) (simp_all add: rd_hash_at)

lemma rd_hashes_took:
  "rd_hashes n r = (hs, r') \<Longrightarrow> rd_err r' = None \<Longrightarrow> rd_ok r \<Longrightarrow> rd_took r (concat (map hbytes hs)) r' \<and> length hs = n"
proof (induction n arbitrary: r hs)
  case (Suc n)
  obtain h r1 hs' where h: "rd_hash r = (h, r1)" "rd_hashes n r1 = (hs', r')" "hs = h # hs'"
    using Suc.prems(1) by (auto split: prod.splits)
  have e: "rd_err r1 = None \<Longrightarrow> rd_took r (hbytes h) r1" using rd_hash_took[OF h(1)] .
  have sticky: "rd_err r1 \<noteq> None \<Longrightarrow> rd_err r' \<noteq> None"
    using h(2) by (induction n arbitrary: r1 hs') (auto simp: rd_hash_def rd_Fixed_def split: prod.splits if_splits)
  then have t: "rd_took r (hbytes h) r1" using Suc.prems(2) e by blast
  from Suc.IH[OF h(2) Suc.prems(2) rd_took_ok[OF t]] t h(3) show ?case
    using rd_took_trans[OF t] by auto
qed auto

definition commit_ok :: "commit \<Rightarrow> bool" where
  "commit_ok c \<longleftrightarrow> length (co_Parents c) \<le> 2 \<and> distinct (co_Parents c) \<and> (co_Parents c = [] \<longleftrightarrow> co_Height c = 0) \<and>
     length (co_Author c) \<le> MaxIDLen \<and> length (co_Message c) \<le> MaxMessageLen \<and>
     ValidString (co_Author c) \<and> ValidString (co_Message c) \<and> co_Hash c = zero_hash"

lemma len_limits: "int MaxIDLen < 2 ^ 63" "int MaxMessageLen < 2 ^ 63" "int maxLocationLen < 2 ^ 63" "int maxReasonLen < 2 ^ 63"
  by (simp_all add: MaxIDLen_def MaxMessageLen_def maxLocationLen_def maxReasonLen_def)

lemma two_distinct: "length ps \<le> 2 \<Longrightarrow> distinct ps \<longleftrightarrow> \<not> (length ps = 2 \<and> ps ! 0 = ps ! 1)"
  by (cases ps; cases "tl ps") auto

lemma DecodeCommit_Encode:
  assumes "commit_ok c"
  shows "DecodeCommit (commit_Encode c) = Inr c"
proof -
  obtain ps ns ht tm au ms where c: "c = \<lparr>co_Hash = zero_hash, co_Parents = ps, co_Namespace = ns, co_Height = ht, co_Time = tm,
      co_Author = au, co_Message = ms\<rparr>"
    using assms by (cases c) (simp add: commit_ok_def)
  let ?n = "of_nat (length ps) :: byte"
  have n: "length ps \<le> 2" using assms c by (simp add: commit_ok_def)
  then have un: "unat ?n = length ps" by (intro unat_of_nat_small) simp
  have "\<not> ?n > 2" "?n = 0 \<longleftrightarrow> ps = []" "?n = 2 \<longleftrightarrow> length ps = 2"
    using n un by (auto simp: word_less_nat_alt word_unat_eq_iff simp del: unat_eq_zero)
  moreover have "\<not> (length ps = 2 \<and> ps ! 0 = ps ! 1)"
    using assms c two_distinct[of ps] by (simp add: commit_ok_def)
  ultimately show ?thesis
    using assms len_limits unfolding c
    by (simp add: DecodeCommit_def commit_Encode_def NewReader_at wire_simps at_done commit_ok_def un Let_def)
qed

lemma DecodeCommit_inv:
  assumes "DecodeCommit b = Inr c"
  shows "b = commit_Encode c" and "commit_ok c"
proof -
  obtain kind r1 n r2 ps r3 ns r4 ht r5 tm r6 au r7 ms r8 where
    f: "rd_U8 (NewReader b) = (kind, r1)" "rd_U8 r1 = (n, r2)" "rd_hashes (unat n) r2 = (ps, r3)" "rd_hash r3 = (ns, r4)"
       "rd_Uvarint r4 = (ht, r5)" "rd_U64 r5 = (tm, r6)" "rd_LenBytes (int MaxIDLen) r6 = (au, r7)"
       "rd_LenBytes (int MaxMessageLen) r7 = (ms, r8)"
    and ok: "rd_err r2 = None" "kind = kindCommit" "\<not> n > 2" "rd_Done r8 = None" "\<not> (n = 2 \<and> ps ! 0 = ps ! 1)"
       "n = 0 \<longleftrightarrow> ht = 0" "ValidString au" "ValidString ms"
    and c: "c = \<lparr>co_Hash = zero_hash, co_Parents = ps, co_Namespace = ns, co_Height = ht, co_Time = tm, co_Author = au, co_Message = ms\<rparr>"
    using assms by (auto simp: DecodeCommit_def Let_def split: prod.splits if_splits)
  note t8 = rd_LenBytes_took[OF f(8) rd_Done_NoneD[OF ok(4)] _ len_limits(2), simplified]
  note t7 = rd_LenBytes_took[OF f(7) conjunct1[OF rd_tookD[OF conjunct1[OF t8]]] _ len_limits(1), simplified]
  note t6 = rd_U64_took[OF f(6) conjunct1[OF rd_tookD[OF conjunct1[OF t7]]]]
  note t5 = rd_Uvarint_took[OF f(5) conjunct1[OF rd_tookD[OF t6]]]
  note t4 = rd_hash_took[OF f(4) conjunct1[OF rd_tookD[OF t5]]]
  note t2 = rd_U8_took[OF f(2) ok(1)]
  note t1 = rd_U8_took[OF f(1) conjunct1[OF rd_tookD[OF t2]]]
  note t3 = rd_hashes_took[OF f(3) conjunct1[OF rd_tookD[OF t4]] rd_took_ok[OF t2]]
  have n: "of_nat (length ps) = n" "length ps \<le> 2" "length ps = unat n"
    using t3 ok(3) by (auto simp: word_less_nat_alt)
  show "b = commit_Encode c"
    using rd_took_all[OF rd_took_trans[OF t1 rd_took_trans[OF t2 rd_took_trans[OF conjunct1[OF t3] rd_took_trans[OF t4
        rd_took_trans[OF t5 rd_took_trans[OF t6 rd_took_trans[OF conjunct1[OF t7] conjunct1[OF t8]]]]]]]] ok(4)] n(1) ok(2) c
    by (simp add: commit_Encode_def)
  have "length ps = 2 \<longleftrightarrow> n = 2" "ps = [] \<longleftrightarrow> n = 0"
    using n(3) by (auto simp: word_unat_eq_iff simp del: unat_eq_zero)
  then show "commit_ok c"
    using n ok(5-8) c t7 t8 two_distinct[OF n(2)] by (simp add: commit_ok_def)
qed

text \<open>C30. A commit chunk is canonical: what decodes is exactly a commit of at most two different
  parents, at height 0 just when it has none, with UTF-8 author and message inside their limits,
  and it decodes from its own encoding and from no other bytes, so a commit has one hash.\<close>

theorem commit_canonical:
  "DecodeCommit b = Inr c \<longleftrightarrow> b = commit_Encode c \<and> commit_ok c"
  using DecodeCommit_inv[of b c] DecodeCommit_Encode[of c] by auto

definition tag_ok :: "tag \<Rightarrow> bool" where
  "tag_ok t \<longleftrightarrow> length (tg_Tagger t) \<le> MaxIDLen \<and> length (tg_Message t) \<le> MaxMessageLen \<and>
     ValidString (tg_Tagger t) \<and> ValidString (tg_Message t) \<and> tg_Hash t = zero_hash"

lemma decodeTag_encode: "tag_ok t \<Longrightarrow> decodeTag (tag_encode t) = Inr t"
  using len_limits
  by (cases t) (simp add: decodeTag_def tag_encode_def NewReader_at wire_simps at_done tag_ok_def Let_def)

lemma decodeTag_inv:
  assumes "decodeTag b = Inr t"
  shows "b = tag_encode t" and "tag_ok t"
proof -
  obtain kind r1 tt r2 tm r3 tg r4 ms r5 where
    f: "rd_U8 (NewReader b) = (kind, r1)" "rd_hash r1 = (tt, r2)" "rd_U64 r2 = (tm, r3)"
       "rd_LenBytes (int MaxIDLen) r3 = (tg, r4)" "rd_LenBytes (int MaxMessageLen) r4 = (ms, r5)"
    and ok: "kind = kindTag" "rd_Done r5 = None" "ValidString tg" "ValidString ms"
    and t: "t = \<lparr>tg_Hash = zero_hash, tg_Target = tt, tg_Time = tm, tg_Tagger = tg, tg_Message = ms\<rparr>"
    using assms by (auto simp: decodeTag_def Let_def split: prod.splits if_splits)
  note t5 = rd_LenBytes_took[OF f(5) rd_Done_NoneD[OF ok(2)] _ len_limits(2), simplified]
  note t4 = rd_LenBytes_took[OF f(4) conjunct1[OF rd_tookD[OF conjunct1[OF t5]]] _ len_limits(1), simplified]
  note t3 = rd_U64_took[OF f(3) conjunct1[OF rd_tookD[OF conjunct1[OF t4]]]]
  note t2 = rd_hash_took[OF f(2) conjunct1[OF rd_tookD[OF t3]]]
  note t1 = rd_U8_took[OF f(1) conjunct1[OF rd_tookD[OF t2]]]
  show "b = tag_encode t"
    using rd_took_all[OF rd_took_trans[OF t1 rd_took_trans[OF t2 rd_took_trans[OF t3 rd_took_trans[OF conjunct1[OF t4] conjunct1[OF t5]]]]] ok(2)]
      ok(1) t by (simp add: tag_encode_def)
  show "tag_ok t" using t4 t5 ok t by (simp add: tag_ok_def)
qed

lemma rd_merge_took:
  assumes "rd_merge r = (m, r')" and "rd_err r' = None"
  shows "rd_took r (hbytes (me_Base m) @ hbytes (me_Theirs m) @ hbytes (me_Conflicts m) @ hbytes (me_PreWorking m) @ hbytes (me_PreStaged m)) r'"
proof -
  obtain a r1 b r2 c r3 d r4 e where f: "rd_hash r = (a, r1)" "rd_hash r1 = (b, r2)" "rd_hash r2 = (c, r3)" "rd_hash r3 = (d, r4)"
    "rd_hash r4 = (e, r')" and m: "m = \<lparr>me_Base = a, me_Theirs = b, me_Conflicts = c, me_PreWorking = d, me_PreStaged = e\<rparr>"
    using assms(1) by (auto simp: rd_merge_def split: prod.splits)
  note t5 = rd_hash_took[OF f(5) assms(2)]
  note t4 = rd_hash_took[OF f(4) conjunct1[OF rd_tookD[OF t5]]]
  note t3 = rd_hash_took[OF f(3) conjunct1[OF rd_tookD[OF t4]]]
  note t2 = rd_hash_took[OF f(2) conjunct1[OF rd_tookD[OF t3]]]
  note t1 = rd_hash_took[OF f(1) conjunct1[OF rd_tookD[OF t2]]]
  show ?thesis using rd_took_trans[OF t1 rd_took_trans[OF t2 rd_took_trans[OF t3 rd_took_trans[OF t4 t5]]]] m by simp
qed

lemma decodeWorkingSet_encode: "ws_Hash ws = zero_hash \<Longrightarrow> decodeWorkingSet (ws_encode ws) = Inr ws"
  by (cases ws) (auto simp: decodeWorkingSet_def ws_encode_def NewReader_at wire_simps at_done rd_merge_def Let_def split: option.splits)

lemma decodeWorkingSet_inv:
  assumes "decodeWorkingSet b = Inr ws"
  shows "b = ws_encode ws" and "ws_Hash ws = zero_hash"
proof -
  obtain kind r1 w r2 st r3 mg r4 m r5 where
    f: "rd_U8 (NewReader b) = (kind, r1)" "rd_hash r1 = (w, r2)" "rd_hash r2 = (st, r3)" "rd_U8 r3 = (mg, r4)"
    and g: "(if mg = 1 then let (m, r) = rd_merge r4 in (Some m, r) else (None, r4)) = (m, r5)"
    and ok: "kind = kindWorkingSet" "rd_err r4 = None" "\<not> mg > 1" "rd_Done r5 = None"
    and ws: "ws = \<lparr>ws_Hash = zero_hash, ws_Working = w, ws_Staged = st, ws_Merge = m\<rparr>"
    using assms by (auto simp: decodeWorkingSet_def Let_def split: prod.splits if_splits)
  note t4 = rd_U8_took[OF f(4) ok(2)]
  note t3 = rd_hash_took[OF f(3) conjunct1[OF rd_tookD[OF t4]]]
  note t2 = rd_hash_took[OF f(2) conjunct1[OF rd_tookD[OF t3]]]
  note t1 = rd_U8_took[OF f(1) conjunct1[OF rd_tookD[OF t2]]]
  note head = rd_took_trans[OF t1 rd_took_trans[OF t2 rd_took_trans[OF t3 t4]]]
  have "mg = 0 \<or> mg = 1" using ok(3) by (auto simp: word_less_nat_alt word_unat_eq_iff simp del: unat_eq_zero)
  then show "b = ws_encode ws"
  proof
    assume mg: "mg = 0"
    then have "m = None" "r5 = r4" using g by auto
    then show ?thesis using rd_took_all[OF head] ok mg ws by (simp add: ws_encode_def)
  next
    assume mg: "mg = 1"
    then obtain m' where m': "rd_merge r4 = (m', r5)" "m = Some m'" using g by (auto split: prod.splits)
    from rd_took_all[OF rd_took_trans[OF head rd_merge_took[OF m'(1) rd_Done_NoneD[OF ok(4)]]] ok(4)] m'(2) mg ok(1) ws
    show ?thesis by (simp add: ws_encode_def)
  qed
  show "ws_Hash ws = zero_hash" using ws by simp
qed

definition side_ok :: "oref \<Rightarrow> bool" where
  "side_ok r \<longleftrightarrow> r = zero_ref \<or> ref_ok r"

definition conflict_ok :: "conflict \<Rightarrow> bool" where
  "conflict_ok c \<longleftrightarrow> side_ok (xc_Base c) \<and> side_ok (xc_Ours c) \<and> side_ok (xc_Theirs c) \<and> recordable c = Inr ()"

lemma u8_kind_u8 [simp]: "u8_kind (kind_u8 k) = Some k"
  by (cases k) (simp_all add: u8_kind_def kind_u8_def)

lemma u8_kind_Some: "u8_kind b = Some k \<Longrightarrow> kind_u8 k = b"
  by (auto simp: u8_kind_def kind_u8_def split: if_splits)

lemma zero_ref_not_ok: "\<not> ref_ok zero_ref"
  by (simp add: ref_ok_def zero_ref_def)

lemma rd_side_at:
  assumes "side_ok x"
  shows "rd_side (rd_at pre (put_side x @ rest)) = Inr (x, rd_at (pre @ put_side x) rest)"
proof (cases "x = zero_ref")
  case True
  then show ?thesis by (simp add: rd_side_def put_side_def wire_simps)
next
  case False
  then have "ref_ok x" using assms by (simp add: side_ok_def)
  then show ?thesis using False by (simp add: rd_side_def put_side_def wire_simps RefSize_def DecodeRef_Encode)
qed

lemma rd_side_took:
  assumes "rd_side r = Inr (x, r')" and "rd_err r' = None"
  shows "rd_took r (put_side x) r' \<and> side_ok x"
proof -
  obtain p r1 where p: "rd_U8 r = (p, r1)" "rd_err r1 = None" "\<not> p > 1"
    using assms(1) by (auto simp: rd_side_def Let_def split: prod.splits if_splits)
  note t1 = rd_U8_took[OF p(1,2)]
  show ?thesis
  proof (cases "p = 1")
    case True
    then obtain b where b: "rd_Fixed (int RefSize) r1 = (b, r')" "DecodeRef b = Inr x"
      using assms(1) p by (auto simp: rd_side_def result_simps split: prod.splits)
    note t2 = rd_Fixed_took[OF b(1) assms(2)]
    show ?thesis
      using rd_took_trans[OF t1 conjunct1[OF t2]] DecodeRef_inv[OF b(2)] True zero_ref_not_ok
      by (auto simp: put_side_def side_ok_def)
  next
    case False
    then have "p = 0" "x = zero_ref" "r' = r1"
      using assms(1) p by (auto simp: rd_side_def word_less_nat_alt word_unat_eq_iff simp del: unat_eq_zero)
    then show ?thesis using t1 by (simp add: put_side_def side_ok_def)
  qed
qed

lemma rd_mconflicts_at:
  assumes "list_all mconflict_small ms"
  shows "rd_mconflicts (length ms) (rd_at pre (concat (map put_mconflict ms) @ rest)) = (ms, rd_at (pre @ concat (map put_mconflict ms)) rest)"
  using assms
proof (induction ms arbitrary: pre)
  case (Cons m ms)
  then have "int (length (mx_Location m)) \<le> int maxLocationLen" "int (length (mx_Reason m)) \<le> int maxReasonLen"
    by (auto simp: mconflict_small_def)
  then show ?case using Cons len_limits by (simp add: put_mconflict_def wire_simps)
qed simp

lemma rd_mconflicts_took:
  assumes "rd_mconflicts n r = (ms, r')" and "rd_err r' = None" and "rd_ok r"
  shows "rd_took r (concat (map put_mconflict ms)) r' \<and> length ms = n \<and> list_all mconflict_small ms"
  using assms
proof (induction n arbitrary: r ms)
  case (Suc n)
  obtain loc r1 rs r2 where f: "rd_LenBytes (int maxLocationLen) r = (loc, r1)" "rd_LenBytes (int maxReasonLen) r1 = (rs, r2)"
    by (metis surj_pair)
  have e: "rd_err r2 = None" using Suc.prems(1,2) f by (auto split: if_splits)
  obtain ms' where ms: "rd_mconflicts n r2 = (ms', r')" "ms = \<lparr>mx_Location = loc, mx_Reason = rs\<rparr> # ms'"
    using Suc.prems(1) f e by (auto split: prod.splits)
  note t2 = rd_LenBytes_took[OF f(2) e _ len_limits(4), simplified]
  note t1 = rd_LenBytes_took[OF f(1) conjunct1[OF rd_tookD[OF conjunct1[OF t2]]] _ len_limits(3), simplified]
  note t = rd_took_trans[OF conjunct1[OF t1] conjunct1[OF t2]]
  from Suc.IH[OF ms(1) Suc.prems(2) rd_took_ok[OF t]] show ?case
    using rd_took_trans[OF t] t1 t2 ms(2) by (auto simp: put_mconflict_def mconflict_small_def)
qed auto

lemma recordable_iff: "recordable c = Inr () \<longleftrightarrow> length (xc_Model c) \<le> maxModelConflicts \<and> list_all mconflict_small (xc_Model c)"
  by (auto simp: recordable_def)

lemma decodeConflict_encode:
  assumes "conflict_ok c"
  shows "decodeConflict (xc_Path c) (encodeConflict c) = Inr c"
proof -
  let ?n = "of_nat (length (xc_Model c)) :: u64"
  have l: "length (xc_Model c) \<le> maxModelConflicts" "list_all mconflict_small (xc_Model c)"
    using assms by (auto simp: conflict_ok_def recordable_iff)
  then have un: "unat ?n = length (xc_Model c)" by (intro unat_of_nat_small) (simp add: maxModelConflicts_def)
  have le: "\<not> ?n > of_nat maxModelConflicts" using l(1) un by (simp add: word_less_nat_alt maxModelConflicts_def)
  have s: "side_ok (xc_Base c)" "side_ok (xc_Ours c)" "side_ok (xc_Theirs c)" using assms by (auto simp: conflict_ok_def)
  show ?thesis
    using le rd_mconflicts_at[OF l(2), of _ "[]"]
    by (simp add: decodeConflict_def encodeConflict_def NewReader_at wire_simps rd_side_at[OF s(1)] rd_side_at[OF s(2)]
        rd_side_at[OF s(3)] un at_done Let_def)
qed

lemma decodeConflict_inv:
  assumes "decodeConflict path b = Inr c"
  shows "b = encodeConflict c" and "conflict_ok c" and "xc_Path c = path"
proof -
  obtain k r1 where k: "rd_U8 (NewReader b) = (k, r1)" by fastforce
  obtain kind where kind: "u8_kind k = Some kind" using assms k by (cases "u8_kind k") (auto simp: decodeConflict_def)
  obtain base r2 ours r3 theirs r4 where sides: "rd_side r1 = Inr (base, r2)" "rd_side r2 = Inr (ours, r3)" "rd_side r3 = Inr (theirs, r4)"
    using assms k kind by (auto simp: decodeConflict_def rbind_Inr_iff)
  obtain n r5 where n: "rd_Uvarint r4 = (n, r5)" by fastforce
  obtain ms r6 where ms: "rd_mconflicts (unat n) r5 = (ms, r6)" by fastforce
  note f = k kind sides n ms
  have ok: "rd_err r5 = None" "\<not> n > of_nat maxModelConflicts" "rd_Done r6 = None"
    and c: "c = \<lparr>xc_Path = path, xc_Kind = kind, xc_Base = base, xc_Ours = ours, xc_Theirs = theirs, xc_Model = ms\<rparr>"
    using assms f by (auto simp: decodeConflict_def Let_def split: if_splits)
  note t5 = rd_Uvarint_took[OF f(6) ok(1)]
  note t4 = rd_side_took[OF f(5) conjunct1[OF rd_tookD[OF t5]]]
  note t3 = rd_side_took[OF f(4) conjunct1[OF rd_tookD[OF conjunct1[OF t4]]]]
  note t2 = rd_side_took[OF f(3) conjunct1[OF rd_tookD[OF conjunct1[OF t3]]]]
  note t1 = rd_U8_took[OF f(1) conjunct1[OF rd_tookD[OF conjunct1[OF t2]]]]
  note t6 = rd_mconflicts_took[OF f(7) rd_Done_NoneD[OF ok(3)] rd_took_ok[OF t5]]
  have n: "of_nat (length ms) = n" "length ms \<le> maxModelConflicts"
    using t6 ok(2) by (auto simp: word_less_nat_alt maxModelConflicts_def)
  show "b = encodeConflict c"
    using rd_took_all[OF rd_took_trans[OF t1 rd_took_trans[OF conjunct1[OF t2] rd_took_trans[OF conjunct1[OF t3]
        rd_took_trans[OF conjunct1[OF t4] rd_took_trans[OF t5 conjunct1[OF t6]]]]]] ok(3)] n(1) c u8_kind_Some[OF f(2)]
    by (simp add: encodeConflict_def)
  show "conflict_ok c" "xc_Path c = path" using t2 t3 t4 t6 n c by (auto simp: conflict_ok_def recordable_iff)
qed

lemma length_put_Uvarint_2:
  assumes "n < 2 ^ 14"
  shows "length (put_Uvarint (of_nat n)) \<le> 2"
proof -
  have u: "unat (of_nat n :: u64) = n" using assms by (intro unat_of_nat_small) simp
  have "unat (drop_bit 7 (of_nat n :: u64)) = n div 128" by (simp only: unat_drop_bit_eq u) (simp add: drop_bit_eq_div)
  then have "drop_bit 7 (of_nat n :: u64) < 0x80" using assms by (simp add: word_less_nat_alt)
  then have "length (put_Uvarint (drop_bit 7 (of_nat n))) = 1" by (subst put_Uvarint.simps) simp
  then show ?thesis by (subst put_Uvarint.simps) simp
qed

lemma length_put_mconflict:
  assumes "mconflict_small m"
  shows "length (put_mconflict m) \<le> 5124"
proof -
  have "length (mx_Location m) \<le> 4096" "length (mx_Reason m) \<le> 1024"
    using assms by (auto simp: mconflict_small_def maxLocationLen_def maxReasonLen_def)
  then show ?thesis
    using length_put_Uvarint_2[of "length (mx_Location m)"] length_put_Uvarint_2[of "length (mx_Reason m)"]
    by (simp add: put_mconflict_def put_LenBytes_def)
qed

lemma maxConflictRecord_value: "maxConflictRecord = 51240144"
proof -
  have "length (put_Uvarint 10000) = 2" "length (put_Uvarint 4096) = 2" "length (put_Uvarint 1024) = 2"
    by (simp_all add: put_Uvarint.simps)
  then show ?thesis
    by (simp add: maxConflictRecord_def maxModelConflicts_def maxLocationLen_def maxReasonLen_def RefSize_def)
qed

text \<open>C31. Every conflict the merge is allowed to record reads back as it was, its record decodes from
  no other bytes, and it fits the conflicts map's value limit of 51,240,144 bytes; what the limits
  refuse is never written: a record that decodes is of a recordable conflict.\<close>

theorem conflict_record_canonical:
  "(decodeConflict path b = Inr c \<longleftrightarrow> b = encodeConflict c \<and> xc_Path c = path \<and> conflict_ok c) \<and>
   (decodeConflict path b = Inr c \<longrightarrow> length b \<le> 51240144 \<and> 51240144 = maxConflictRecord)"
proof (intro conjI impI)
  show "decodeConflict path b = Inr c \<longleftrightarrow> b = encodeConflict c \<and> xc_Path c = path \<and> conflict_ok c"
    using decodeConflict_inv[of path b c] decodeConflict_encode[of c] by auto
  show "51240144 = maxConflictRecord" by (simp add: maxConflictRecord_value)
  assume "decodeConflict path b = Inr c"
  from decodeConflict_inv[OF this] have b: "b = encodeConflict c" and l: "length (xc_Model c) \<le> 10000"
    "list_all mconflict_small (xc_Model c)"
    by (auto simp: conflict_ok_def recordable_iff maxModelConflicts_def)
  have "length (concat (map put_mconflict ms)) \<le> 5124 * length ms" if "list_all mconflict_small ms" for ms
    using that
  proof (induction ms)
    case (Cons m ms)
    then show ?case using length_put_mconflict[of m] by simp
  qed simp
  from this[OF l(2)] have "length (concat (map put_mconflict (xc_Model c))) \<le> 51240000" using l(1) by simp
  moreover have "length (put_side x) \<le> 47" for x by (simp add: put_side_def put_U8_def)
  from this[of "xc_Base c"] this[of "xc_Ours c"] this[of "xc_Theirs c"]
  have "length (put_side (xc_Base c)) + length (put_side (xc_Ours c)) + length (put_side (xc_Theirs c)) \<le> 141" by simp
  moreover have "length (put_Uvarint (of_nat (length (xc_Model c)))) \<le> 2" using l(1) by (intro length_put_Uvarint_2) simp
  ultimately show "length b \<le> 51240144" unfolding b encodeConflict_def by (simp add: put_U8_def)
qed

definition witness_conflict :: conflict where
  "witness_conflict = \<lparr>xc_Path = ascii ''a/b'', xc_Kind = AddAdd, xc_Base = zero_ref,
     xc_Ours = \<lparr>or_Model = 1, or_Flags = 0, or_Root = \<lparr>mr_Hash = zero_hash, mr_Size = 5, mr_Depth = 0, mr_Format = 1\<rparr>\<rparr>,
     xc_Theirs = zero_ref, xc_Model = [\<lparr>mx_Location = [1], mx_Reason = [2, 3]\<rparr>]\<rparr>"

theorem conflict_record_canonical_witness:
  "decodeConflict (ascii ''a/b'') (encodeConflict witness_conflict) = Inr witness_conflict \<and>
   length (encodeConflict witness_conflict) \<le> 51240144"
proof -
  have "conflict_ok witness_conflict" "xc_Path witness_conflict = ascii ''a/b''"
    by (simp_all add: conflict_ok_def side_ok_def ref_ok_def recordable_iff mconflict_small_def witness_conflict_def
      maxModelConflicts_def maxLocationLen_def maxReasonLen_def)
  then show ?thesis
    using conflict_record_canonical[of "ascii ''a/b''" "encodeConflict witness_conflict" witness_conflict] by blast
qed

section \<open>What a name may be\<close>

lemma strings_Contains_iff: "strings_Contains s sub \<longleftrightarrow> (\<exists>a b. s = a @ sub @ b)"
proof
  assume "strings_Contains s sub"
  then obtain i where "take (length sub) (drop i s) = sub" by (auto simp: strings_Contains_def list_ex_iff)
  then have "s = take i s @ sub @ drop (length sub) (drop i s)" by (metis append_take_drop_id)
  then show "\<exists>a b. s = a @ sub @ b" by blast
next
  assume "\<exists>a b. s = a @ sub @ b"
  then obtain a b where "s = a @ sub @ b" by blast
  then show "strings_Contains s sub" by (auto simp: strings_Contains_def list_ex_iff intro!: bexI[of _ "length a"])
qed

lemma HasSuffix_iff: "HasSuffix s suf \<longleftrightarrow> (\<exists>a. s = a @ suf)"
  by (auto simp: HasSuffix_def) (metis append_take_drop_id)

definition name_byte :: "byte \<Rightarrow> bool" where
  "name_byte c \<longleftrightarrow> alnum c \<or> c \<in> {0x2E, 0x5F, 0x2F, 0x2D}"

lemma name_bad_Suc: "name_bad (Suc i) cs \<longleftrightarrow> \<not> list_all name_byte cs"
  by (induction cs arbitrary: i) (auto simp: name_byte_def)

lemma validName_iff:
  "validName n = Inr () \<longleftrightarrow>
     (\<exists>c cs. n = c # cs \<and> alnum c \<and> list_all name_byte cs) \<and> length n \<le> 128 \<and>
     (\<nexists>a b. n = a @ ascii ''..'' @ b) \<and> (\<nexists>a b. n = a @ ascii ''//'' @ b) \<and>
     (\<nexists>a. n = a @ ascii ''/'') \<and> (\<nexists>a. n = a @ ascii ''.lock'')"
proof (cases n)
  case (Cons c cs)
  have "name_bad 0 n \<longleftrightarrow> \<not> (alnum c \<and> list_all name_byte cs)" using Cons name_bad_Suc[of 0 cs] by auto
  then show ?thesis using Cons by (auto simp: validName_def strings_Contains_iff HasSuffix_iff not_less)
qed (simp add: validName_def)

lemma validName_bytes: "validName n = Inr () \<Longrightarrow> c \<in> set n \<Longrightarrow> name_byte c"
  by (auto simp: validName_iff list_all_iff name_byte_def)

text \<open>C33. A branch or tag name is accepted exactly when it matches
  \<^verbatim>\<open>^[a-zA-Z0-9][a-zA-Z0-9._/-]{0,127}$\<close> and holds no \<^verbatim>\<open>..\<close>, no \<^verbatim>\<open>//\<close> and no trailing \<^verbatim>\<open>/\<close> or \<^verbatim>\<open>.lock\<close>.\<close>

theorem name_allowlist:
  "validName n = Inr () \<longleftrightarrow>
     (\<exists>c cs. n = c # cs \<and> alnum c \<and> list_all name_byte cs \<and> length cs \<le> 127) \<and>
     (\<nexists>a b. n = a @ ascii ''..'' @ b) \<and> (\<nexists>a b. n = a @ ascii ''//'' @ b) \<and>
     (\<nexists>a. n = a @ ascii ''/'') \<and> (\<nexists>a. n = a @ ascii ''.lock'')"
  by (auto simp: validName_iff)

text \<open>C34. What a path check asks the authorizer about names one branch and one path: a valid branch
  name holds no colon, so no two pairs of branch and path share a resource.\<close>

theorem path_resource_unambiguous:
  assumes "validName b = Inr ()" and "validName b' = Inr ()"
  shows "pathResource b p = pathResource b' p' \<longleftrightarrow> b = b' \<and> p = p'"
proof
  assume "pathResource b p = pathResource b' p'"
  then have eq: "b @ 0x3A # p = b' @ 0x3A # p'" by (simp add: pathResource_def ascii_def)
  have no: "0x3A \<notin> set n" if "validName n = Inr ()" for n
    using validName_bytes[OF that, of "0x3A"] by (auto simp: name_byte_def alnum_def)
  have "takeWhile (\<lambda>c. c \<noteq> 0x3A) (n @ 0x3A # q) = n" if "0x3A \<notin> set n" for n and q :: bytes
    using that by (induction n) auto
  from this[OF no[OF assms(1)], of p] this[OF no[OF assms(2)], of p'] eq show "b = b' \<and> p = p'" by simp
qed simp

theorem path_resource_unambiguous_witness:
  "pathResource (ascii ''main'') (ascii ''a'') \<noteq> pathResource (ascii ''dev'') (ascii ''a'')"
proof -
  have "validName (ascii ''main'') = Inr ()" "validName (ascii ''dev'') = Inr ()" by code_simp+
  from path_resource_unambiguous[OF this, of "ascii ''a''" "ascii ''a''"] show ?thesis by (simp add: ascii_def)
qed

end
