(* ===== verification/Vcs.thy ===== *)
theory Vcs
  imports VcsCodec "HOL-Library.While_Combinator"
begin

text \<open>
  \<^verbatim>\<open>core/vcs/vcs.go\<close>: the version graph. Every operation is a computation over the world \<open>'s\<close> the
  chunk store is part of. What a repository is configured with, the clock, the pause between lost
  swaps and its jitter included, is the record \<open>repo\<close>; other writers change the world during a pause
  and inside the store's own operations, which are arguments.
\<close>

definition MainBranch :: bytes where "MainBranch = ascii ''main''"
definition MaxLog :: nat where "MaxLog = 10000"
definition maxAttempts :: nat where "maxAttempts = 1000"

text \<open>Durations are nanoseconds.\<close>

definition backoffBase :: int where "backoffBase = 200000"
definition backoffCap :: int where "backoffCap = 20000000"

record ('s, 'v) repo =
  rp_Config :: pconfig
  rp_Registry :: "('s, 'v) registry"
  rp_Authorizer :: "authorizer option"
  rp_Clock :: "'s \<Rightarrow> u64"
  rp_MaxConflicts :: nat
  rp_checkedOut :: "bytes \<Rightarrow> nat"
  rp_sleep :: "int \<Rightarrow> ('s, unit) comp"
  rp_jitter :: "'s \<Rightarrow> int \<Rightarrow> int"

text \<open>\<^verbatim>\<open>newRepo\<close>: a missing clock is the wall clock's, \<open>wall\<close>.\<close>

definition newRepo :: "('s \<Rightarrow> u64) \<Rightarrow> pconfig \<Rightarrow> ('s, 'v) registry option \<Rightarrow> authorizer option \<Rightarrow> ('s \<Rightarrow> u64) option \<Rightarrow> nat \<Rightarrow>
    (int \<Rightarrow> ('s, unit) comp) \<Rightarrow> ('s \<Rightarrow> int \<Rightarrow> int) \<Rightarrow> ('s, 'v) repo result" where
  "newRepo wall cfg reg az clock mx slp jit =
     (case reg of
        None \<Rightarrow> Inl (ErrOther ''vcs: a repository needs a model registry'')
      | Some rg \<Rightarrow> Inr \<lparr>rp_Config = cfg, rp_Registry = rg, rp_Authorizer = az, rp_Clock = (case clock of None \<Rightarrow> wall | Some c \<Rightarrow> c),
          rp_MaxConflicts = mx, rp_checkedOut = (\<lambda>_. 0), rp_sleep = slp, rp_jitter = jit\<rparr>)"

definition backoff :: "nat \<Rightarrow> (int \<Rightarrow> int) \<Rightarrow> int" where
  "backoff attempt jitter =
     (let d = (if attempt < 16 then min (backoffBase * 2 ^ attempt) backoffCap else backoffCap) in
      d div 2 + jitter (d div 2 + 1))"

definition r_pause :: "('s, 'v) repo \<Rightarrow> nat \<Rightarrow> ('s, unit) comp" where
  "r_pause rp attempt s = rp_sleep rp (backoff attempt (rp_jitter rp s)) s"

definition headKey :: "bytes \<Rightarrow> bytes" where "headKey b = ascii ''heads/'' @ b"
definition workKey :: "bytes \<Rightarrow> bytes" where "workKey b = ascii ''work/'' @ b"
definition tagKey :: "bytes \<Rightarrow> bytes" where "tagKey t = ascii ''tags/'' @ t"

text \<open>A read of the store as a step.\<close>

definition sread :: "('s \<Rightarrow> 'a result) \<Rightarrow> ('s, 'a) comp" where
  "sread f s = (f s, s)"

text \<open>The editor's calls inside a computation over the store.\<close>

definition sedit :: "(editor, unit) comp \<Rightarrow> editor \<Rightarrow> ('s, editor) comp" where
  "sedit f e = (case f e of (Inl x, _) \<Rightarrow> sfail x | (Inr _, e) \<Rightarrow> sret e)"

definition no_merge :: "hash \<Rightarrow> hash \<Rightarrow> workingset" where
  "no_merge w st = \<lparr>ws_Hash = zero_hash, ws_Working = w, ws_Staged = st, ws_Merge = None\<rparr>"

section \<open>Refs\<close>

definition r_refs :: "('s, 'z) cstore_scheme \<Rightarrow> ('s, 'v) repo \<Rightarrow> 's \<Rightarrow> pmap result" where
  "r_refs ops rp s =
     rbind (cs_Root ops s) (\<lambda>root.
       if IsZero root then Inl ErrNoRepo else m_Open ops s (refsMap (rp_Config rp)) root)"

definition vcs_ref :: "(nat \<Rightarrow> nat) \<Rightarrow> ('s, 'z) cstore_scheme \<Rightarrow> pmap \<Rightarrow> bytes \<Rightarrow> 's \<Rightarrow> hash option result" where
  "vcs_ref grow ops m key s =
     rbind (m_Get grow ops s m key) (\<lambda>v.
       case v of
         None \<Rightarrow> Inr None
       | Some b \<Rightarrow> if length b \<noteq> 32 then Inl ErrChunkCorrupt else Inr (Some (copy_hash b)))"

text \<open>The attempts of \<^verbatim>\<open>update\<close> left; \<open>fn\<close> edits the refs it is given and says what the caller is to get.\<close>

primrec r_attempts :: "nat \<Rightarrow> (bytes \<Rightarrow> hash) \<Rightarrow> (byte \<Rightarrow> u64) \<Rightarrow> ('s, 'z) cstore_scheme \<Rightarrow> ('s, 'v) repo \<Rightarrow> nat \<Rightarrow>
    (pmap \<Rightarrow> editor \<Rightarrow> ('s, editor \<times> 'a) comp) \<Rightarrow> ('s, 'a) comp" where
  "r_attempts 0 H tb ops rp attempt fn = sfail (ErrOther ''vcs: the refs changed under every attempt'')"
| "r_attempts (Suc n) H tb ops rp attempt fn =
     sbind (if attempt > 0 then r_pause rp (attempt - 1) else sret ()) (\<lambda>_.
     sbind (sread (r_refs ops rp)) (\<lambda>m.
     sbind (fn m (m_Editor m)) (\<lambda>(e, out).
     sbind (eo_Flush H tb ops e) (\<lambda>(nxt, _) s.
       case cs_CompareAndSetRoot ops (pm_root m) (pm_root nxt) s of
         (Inl e, s) \<Rightarrow> if e = ErrChunkRootConflict then r_attempts n H tb ops rp (attempt + 1) fn s else (Inl e, s)
       | (Inr _, s) \<Rightarrow> (Inr out, s)))))"

definition r_update :: "(bytes \<Rightarrow> hash) \<Rightarrow> (byte \<Rightarrow> u64) \<Rightarrow> ('s, 'z) cstore_scheme \<Rightarrow> ('s, 'v) repo \<Rightarrow>
    (pmap \<Rightarrow> editor \<Rightarrow> ('s, editor \<times> 'a) comp) \<Rightarrow> ('s, 'a) comp" where
  "r_update H tb ops rp fn = r_attempts maxAttempts H tb ops rp 0 fn"

definition r_Namespace :: "('s, 'z) cstore_scheme \<Rightarrow> ('s, 'v) repo \<Rightarrow> hash \<Rightarrow> 's \<Rightarrow> ('s, 'v) onamespace result" where
  "r_Namespace ops rp root s = ns_Open ops s (rp_Config rp) (Some (rp_Registry rp)) root"

definition r_check :: "('s, 'v) repo \<Rightarrow> principal \<Rightarrow> action \<Rightarrow> bytes \<Rightarrow> unit result" where
  "r_check rp p a resource = auth_Check (rp_Authorizer rp) p a resource"

definition branchCheck :: "('s, 'v) repo \<Rightarrow> principal \<Rightarrow> action \<Rightarrow> bytes \<Rightarrow> unit result" where
  "branchCheck rp p a branch = rbind (r_check rp p a (ascii ''branch:'' @ branch)) (\<lambda>_. validName branch)"

section \<open>Init and Open\<close>

definition r_Init :: "(bytes \<Rightarrow> hash) \<Rightarrow> (byte \<Rightarrow> u64) \<Rightarrow> ('s, 'z) cstore_scheme \<Rightarrow> ('s, 'v) repo \<Rightarrow> principal \<Rightarrow> ('s, unit) comp" where
  "r_Init H tb ops rp p =
     sbind (slift (r_check rp p ActAdmin (ascii ''repo''))) (\<lambda>_.
     sbind (sread (cs_Root ops)) (\<lambda>root.
       if \<not> IsZero root then sfail ErrExists
       else
         sbind (ns_New ops (rp_Config rp) (Some (rp_Registry rp))) (\<lambda>ns.
         sbind (sread (\<lambda>s. Inr (rp_Clock rp s))) (\<lambda>now.
         sbind (rw_Put ops (commit_Encode \<lparr>co_Hash = zero_hash, co_Parents = [], co_Namespace = ns_Root ns, co_Height = 0, co_Time = now,
             co_Author = pr_ID p, co_Message = ascii ''Initialize the repository''\<rparr>)) (\<lambda>c.
         sbind (rw_Put ops (ws_encode (no_merge (ns_Root ns) (ns_Root ns)))) (\<lambda>ws.
         sbind (m_Empty ops (refsMap (rp_Config rp))) (\<lambda>refs.
         sbind (sedit (eo_Put (headKey MainBranch) (hbytes c)) (m_Editor refs)) (\<lambda>e.
         sbind (sedit (eo_Put (workKey MainBranch) (hbytes ws)) e) (\<lambda>e.
         sbind (eo_Flush H tb ops e) (\<lambda>(refs, _) s.
           case cs_CompareAndSetRoot ops zero_hash (pm_root refs) s of
             (Inl e, s) \<Rightarrow> (Inl (if e = ErrChunkRootConflict then ErrExists else e), s)
           | (Inr _, s) \<Rightarrow> (Inr (), s)))))))))))"

definition r_Open :: "('s, 'z) cstore_scheme \<Rightarrow> ('s, 'v) repo \<Rightarrow> 's \<Rightarrow> unit result" where
  "r_Open ops rp s = rbind (r_refs ops rp s) (\<lambda>_. Inr ())"

section \<open>Path checks\<close>

text \<open>\<open>f\<close> on every change a diff yields, until one fails.\<close>

function od_each :: "(nat \<Rightarrow> nat) \<Rightarrow> ('s, 'z) rw_scheme \<Rightarrow> 's \<Rightarrow> (ochange \<Rightarrow> unit result) \<Rightarrow> ('s, 'v) odiff \<Rightarrow> unit result" where
  "od_each grow ops s f d =
     (case od_Next grow ops s d of
        (Inl e, d) \<Rightarrow> Inl e
      | (Inr None, d) \<Rightarrow> Inr ()
      | (Inr (Some c), d) \<Rightarrow> rbind (f c) (\<lambda>_. od_each grow ops s f d))"
  by pat_completeness auto
termination od_each
proof (relation "inv_image left_rel (\<lambda>(grow, ops, s, f, d). df_left (od_d d))", goal_cases)
  case 1
  show ?case by (intro wf_inv_image wf_lex_prod wf_lex wf_less_than)
next
  case (2 grow ops s f d x d' y c)
  then have "od_Next grow ops s d = (Inr (Some c), d')" by simp
  from od_Next_less[OF this] show ?case by simp
qed

declare od_each.simps [simp del]

definition checkPaths :: "(nat \<Rightarrow> nat) \<Rightarrow> ('s, 'z) cstore_scheme \<Rightarrow> ('s, 'v) repo \<Rightarrow> principal \<Rightarrow> bytes \<Rightarrow> hash \<Rightarrow> hash \<Rightarrow> 's \<Rightarrow> unit result" where
  "checkPaths grow ops rp p branch from to s =
     (if from = to then Inr ()
      else
        rbind (r_Namespace ops rp from s) (\<lambda>f.
        rbind (r_Namespace ops rp to s) (\<lambda>t.
        rbind (ns_Diff ops s f t) (\<lambda>d.
          od_each grow ops s (\<lambda>c. r_check rp p ActWrite (pathResource branch (oc_Path c))) d))))"

text \<open>\<^verbatim>\<open>checkChanged\<close>: a flushed namespace that is \<open>to\<close>, made from \<open>from\<close>, says what changed itself.\<close>

definition flushed_paths :: "hash \<Rightarrow> hash \<Rightarrow> ('s, 'v) onamespace option \<Rightarrow> bytes list option" where
  "flushed_paths from to n =
     (case n of
        None \<Rightarrow> None
      | Some n \<Rightarrow>
          if ns_Root n \<noteq> to then None
          else case ns_Changes n of
                 None \<Rightarrow> None
               | Some (base, paths) \<Rightarrow> if base \<noteq> from then None else Some paths)"

fun check_all :: "('a \<Rightarrow> unit result) \<Rightarrow> 'a list \<Rightarrow> unit result" where
  "check_all f [] = Inr ()"
| "check_all f (x # xs) = rbind (f x) (\<lambda>_. check_all f xs)"

fun checkChanged :: "(nat \<Rightarrow> nat) \<Rightarrow> ('s, 'z) cstore_scheme \<Rightarrow> ('s, 'v) repo \<Rightarrow> principal \<Rightarrow> bytes \<Rightarrow> hash \<Rightarrow> hash \<Rightarrow>
    ('s, 'v) onamespace option list \<Rightarrow> 's \<Rightarrow> unit result" where
  "checkChanged grow ops rp p branch from to [] s = checkPaths grow ops rp p branch from to s"
| "checkChanged grow ops rp p branch from to (n # ns) s =
     (case flushed_paths from to n of
        None \<Rightarrow> checkChanged grow ops rp p branch from to ns s
      | Some paths \<Rightarrow> check_all (\<lambda>path. r_check rp p ActWrite (pathResource branch path)) paths)"

section \<open>Reading\<close>

definition readCommit :: "('s, 'z) cstore_scheme \<Rightarrow> hash \<Rightarrow> 's \<Rightarrow> commit result" where
  "readCommit ops h s = rbind (rw_Get ops s h) (\<lambda>b. rbind (DecodeCommit b) (\<lambda>c. Inr (c\<lparr>co_Hash := h\<rparr>)))"

definition readWorkingSet :: "('s, 'z) cstore_scheme \<Rightarrow> hash \<Rightarrow> 's \<Rightarrow> workingset result" where
  "readWorkingSet ops h s = rbind (rw_Get ops s h) (\<lambda>b. rbind (decodeWorkingSet b) (\<lambda>ws. Inr (ws\<lparr>ws_Hash := h\<rparr>)))"

definition readTag :: "('s, 'z) cstore_scheme \<Rightarrow> hash \<Rightarrow> 's \<Rightarrow> tag result" where
  "readTag ops h s = rbind (rw_Get ops s h) (\<lambda>b. rbind (decodeTag b) (\<lambda>t. Inr (t\<lparr>tg_Hash := h\<rparr>)))"

definition branchRefs :: "(nat \<Rightarrow> nat) \<Rightarrow> ('s, 'z) cstore_scheme \<Rightarrow> pmap \<Rightarrow> bytes \<Rightarrow> 's \<Rightarrow> (hash \<times> hash) result" where
  "branchRefs grow ops m branch s =
     rbind (vcs_ref grow ops m (headKey branch) s) (\<lambda>h.
       case h of
         None \<Rightarrow> Inl ErrBranchNotFound
       | Some head \<Rightarrow>
           rbind (vcs_ref grow ops m (workKey branch) s) (\<lambda>w.
             case w of None \<Rightarrow> Inl ErrChunkCorrupt | Some work \<Rightarrow> Inr (head, work)))"

definition r_Head :: "(nat \<Rightarrow> nat) \<Rightarrow> ('s, 'z) cstore_scheme \<Rightarrow> ('s, 'v) repo \<Rightarrow> principal \<Rightarrow> bytes \<Rightarrow> 's \<Rightarrow> commit result" where
  "r_Head grow ops rp p branch s =
     rbind (branchCheck rp p ActRead branch) (\<lambda>_.
     rbind (r_refs ops rp s) (\<lambda>m.
     rbind (branchRefs grow ops m branch s) (\<lambda>(head, _). readCommit ops head s)))"

text \<open>Every entry an iterator has left, through \<open>f\<close>.\<close>

function it_collect :: "(nat \<Rightarrow> nat) \<Rightarrow> ('s, 'z) rw_scheme \<Rightarrow> 's \<Rightarrow> (bytes \<Rightarrow> bytes \<Rightarrow> 'a result) \<Rightarrow> piter \<Rightarrow> 'a list result" where
  "it_collect grow ops s f it =
     (case it_Next grow ops s it of
        (Inl e, it) \<Rightarrow> Inl e
      | (Inr None, it) \<Rightarrow> Inr []
      | (Inr (Some (k, v)), it) \<Rightarrow> rbind (f k v) (\<lambda>x. rbind (it_collect grow ops s f it) (\<lambda>xs. Inr (x # xs))))"
  by pat_completeness auto
termination it_collect
proof (relation "inv_image (lex less_than) (\<lambda>(grow, ops, s, f, it). c_left (it_c it))", goal_cases)
  case 1
  show ?case by (intro wf_inv_image wf_lex wf_less_than)
next
  case (2 grow ops s f it x it' y kv k v)
  then have n: "it_Next grow ops s it = (Inr (Some (k, v)), it')" by simp
  then obtain u where "c_valid (it_c it)" "c_advance ops s (it_m it) (it_c it) = (Inr u, it_c it')"
    by (auto simp: it_Next_def Let_def split: if_splits sum.splits prod.splits)
  from c_valid_moves[OF this] show ?case by simp
qed

declare it_collect.simps [simp del]

definition r_names :: "(nat \<Rightarrow> nat) \<Rightarrow> ('s, 'z) cstore_scheme \<Rightarrow> ('s, 'v) repo \<Rightarrow> bytes \<Rightarrow> 's \<Rightarrow> bytes list result" where
  "r_names grow ops rp prefix s =
     rbind (r_refs ops rp s) (\<lambda>m.
     rbind (m_IterRange ops s m prefix (Some (take (length prefix - 1) prefix @ ascii ''0''))) (\<lambda>it.
       it_collect grow ops s (\<lambda>k _. Inr (if HasPrefix k prefix then drop (length prefix) k else k)) it))"

definition r_Branches :: "(nat \<Rightarrow> nat) \<Rightarrow> ('s, 'z) cstore_scheme \<Rightarrow> ('s, 'v) repo \<Rightarrow> principal \<Rightarrow> 's \<Rightarrow> bytes list result" where
  "r_Branches grow ops rp p s = rbind (r_check rp p ActRead (ascii ''repo'')) (\<lambda>_. r_names grow ops rp (ascii ''heads/'') s)"

definition r_Tags :: "(nat \<Rightarrow> nat) \<Rightarrow> ('s, 'z) cstore_scheme \<Rightarrow> ('s, 'v) repo \<Rightarrow> principal \<Rightarrow> 's \<Rightarrow> bytes list result" where
  "r_Tags grow ops rp p s = rbind (r_check rp p ActRead (ascii ''repo'')) (\<lambda>_. r_names grow ops rp (ascii ''tags/'') s)"

definition r_ReadCommit :: "('s, 'z) cstore_scheme \<Rightarrow> ('s, 'v) repo \<Rightarrow> principal \<Rightarrow> hash \<Rightarrow> 's \<Rightarrow> commit result" where
  "r_ReadCommit ops rp p h s = rbind (r_check rp p ActRead (ascii ''repo'')) (\<lambda>_. readCommit ops h s)"

definition r_WorkingSet :: "(nat \<Rightarrow> nat) \<Rightarrow> ('s, 'z) cstore_scheme \<Rightarrow> ('s, 'v) repo \<Rightarrow> principal \<Rightarrow> bytes \<Rightarrow> 's \<Rightarrow> workingset result" where
  "r_WorkingSet grow ops rp p branch s =
     rbind (branchCheck rp p ActRead branch) (\<lambda>_.
     rbind (r_refs ops rp s) (\<lambda>m.
     rbind (branchRefs grow ops m branch s) (\<lambda>(_, work). readWorkingSet ops work s)))"

definition r_Tag :: "(nat \<Rightarrow> nat) \<Rightarrow> ('s, 'z) cstore_scheme \<Rightarrow> ('s, 'v) repo \<Rightarrow> principal \<Rightarrow> bytes \<Rightarrow> 's \<Rightarrow> tag result" where
  "r_Tag grow ops rp p name s =
     rbind (r_check rp p ActRead (ascii ''tag:'' @ name)) (\<lambda>_.
     rbind (validName name) (\<lambda>_.
     rbind (r_refs ops rp s) (\<lambda>m.
     rbind (vcs_ref grow ops m (tagKey name) s) (\<lambda>h.
       case h of None \<Rightarrow> Inl ErrTagNotFound | Some h \<Rightarrow> readTag ops h s))))"

section \<open>Working sets\<close>

definition sameMerge :: "mergestate option \<Rightarrow> mergestate option \<Rightarrow> bool" where
  "sameMerge a b \<longleftrightarrow> (a = None \<and> b = None) \<or> (a \<noteq> None \<and> b \<noteq> None \<and> the a = the b)"

definition setWorkingSet :: "(bytes \<Rightarrow> hash) \<Rightarrow> (byte \<Rightarrow> u64) \<Rightarrow> (nat \<Rightarrow> nat) \<Rightarrow> ('s, 'z) cstore_scheme \<Rightarrow> ('s, 'v) repo \<Rightarrow> bytes \<Rightarrow>
    workingset \<Rightarrow> workingset \<Rightarrow> bool \<Rightarrow> ('s, workingset) comp" where
  "setWorkingSet H tb grow ops rp branch prev nxt keepMerge =
     sbind (rw_Put ops (ws_encode nxt)) (\<lambda>h.
     sbind (r_update H tb ops rp (\<lambda>m e.
         sbind (sread (branchRefs grow ops m branch)) (\<lambda>(_, work).
           if work \<noteq> ws_Hash prev then sfail ErrConflict
           else
             sbind (if keepMerge
                    then sbind (sread (readWorkingSet ops work)) (\<lambda>stored.
                           if \<not> sameMerge (ws_Merge stored) (ws_Merge nxt) then sfail ErrMergeState else sret ())
                    else sret ()) (\<lambda>_.
             sbind (sedit (eo_Put (workKey branch) (hbytes h)) e) (\<lambda>e. sret (e, ()))))))
       (\<lambda>_. sret (nxt\<lparr>ws_Hash := h\<rparr>)))"

definition r_updateWorkingSet :: "(bytes \<Rightarrow> hash) \<Rightarrow> (byte \<Rightarrow> u64) \<Rightarrow> (nat \<Rightarrow> nat) \<Rightarrow> ('s, 'z) cstore_scheme \<Rightarrow> ('s, 'v) repo \<Rightarrow> principal \<Rightarrow>
    bytes \<Rightarrow> workingset \<Rightarrow> workingset \<Rightarrow> ('s, 'v) onamespace option list \<Rightarrow> ('s, workingset) comp" where
  "r_updateWorkingSet H tb grow ops rp p branch prev nxt flushed =
     sbind (slift (branchCheck rp p ActWrite branch)) (\<lambda>_.
     sbind (sread (readWorkingSet ops (ws_Hash prev))) (\<lambda>stored.
     sbind (sread (checkChanged grow ops rp p branch (ws_Working stored) (ws_Working nxt) flushed)) (\<lambda>_.
     sbind (sread (checkChanged grow ops rp p branch (ws_Staged stored) (ws_Staged nxt) flushed)) (\<lambda>_.
       setWorkingSet H tb grow ops rp branch prev nxt True))))"

definition r_UpdateWorkingSet :: "(bytes \<Rightarrow> hash) \<Rightarrow> (byte \<Rightarrow> u64) \<Rightarrow> (nat \<Rightarrow> nat) \<Rightarrow> ('s, 'z) cstore_scheme \<Rightarrow> ('s, 'v) repo \<Rightarrow> principal \<Rightarrow>
    bytes \<Rightarrow> workingset \<Rightarrow> workingset \<Rightarrow> ('s, workingset) comp" where
  "r_UpdateWorkingSet H tb grow ops rp p branch prev nxt = r_updateWorkingSet H tb grow ops rp p branch prev nxt []"

definition conflictCount :: "('s, 'z) cstore_scheme \<Rightarrow> ('s, 'v) repo \<Rightarrow> workingset \<Rightarrow> 's \<Rightarrow> u64 result" where
  "conflictCount ops rp ws s =
     (case ws_Merge ws of
        None \<Rightarrow> Inr 0
      | Some mg \<Rightarrow> rbind (m_Open ops s (conflictsMap (rp_Config rp)) (me_Conflicts mg)) (\<lambda>m. Inr (pm_count m)))"

section \<open>Commits\<close>

text \<open>The commit onto \<open>head\<close>; a merge in progress adds its second parent.\<close>

definition new_commit :: "('s, 'z) cstore_scheme \<Rightarrow> ('s, 'v) repo \<Rightarrow> principal \<Rightarrow> bytes \<Rightarrow> commit \<Rightarrow> hash \<Rightarrow> mergestate option \<Rightarrow> 's \<Rightarrow> commit result" where
  "new_commit ops rp p message head ns mg s =
     (let c = \<lparr>co_Hash = zero_hash, co_Parents = [co_Hash head], co_Namespace = ns, co_Height = co_Height head + 1,
               co_Time = rp_Clock rp s, co_Author = pr_ID p, co_Message = message\<rparr>
      in case mg of
           None \<Rightarrow> Inr c
         | Some m \<Rightarrow> rbind (readCommit ops (me_Theirs m) s) (\<lambda>theirs.
             Inr (c\<lparr>co_Parents := co_Parents c @ [co_Hash theirs], co_Height := max (co_Height head) (co_Height theirs) + 1\<rparr>)))"

text \<open>What the two ways to commit end with: the commit and the next working set put, and the branch's refs edited.\<close>

definition land_commit :: "('s, 'z) cstore_scheme \<Rightarrow> bytes \<Rightarrow> commit \<Rightarrow> workingset \<Rightarrow> editor \<Rightarrow> ('s, editor \<times> commit) comp" where
  "land_commit ops branch c nextWS e =
     sbind (rw_Put ops (commit_Encode c)) (\<lambda>h.
     sbind (rw_Put ops (ws_encode nextWS)) (\<lambda>w.
     sbind (sedit (eo_Put (headKey branch) (hbytes h)) e) (\<lambda>e.
     sbind (sedit (eo_Put (workKey branch) (hbytes w)) e) (\<lambda>e. sret (e, c\<lparr>co_Hash := h\<rparr>)))))"

definition bad_message :: "bytes \<Rightarrow> bool" where
  "bad_message message \<longleftrightarrow> length message > MaxMessageLen \<or> \<not> ValidString message"

definition r_commitWorkingSet :: "(bytes \<Rightarrow> hash) \<Rightarrow> (byte \<Rightarrow> u64) \<Rightarrow> (nat \<Rightarrow> nat) \<Rightarrow> ('s, 'z) cstore_scheme \<Rightarrow> ('s, 'v) repo \<Rightarrow> principal \<Rightarrow>
    bytes \<Rightarrow> bytes \<Rightarrow> ('s, 'v) onamespace option list \<Rightarrow> ('s, commit) comp" where
  "r_commitWorkingSet H tb grow ops rp p branch message flushed =
     sbind (slift (branchCheck rp p ActCommit branch)) (\<lambda>_.
       if bad_message message then sfail (ErrOther ''vcs: a commit message'')
       else
         r_update H tb ops rp (\<lambda>m e.
           sbind (sread (branchRefs grow ops m branch)) (\<lambda>(headHash, work).
           sbind (sread (readWorkingSet ops work)) (\<lambda>ws.
           sbind (sread (conflictCount ops rp ws)) (\<lambda>n.
             if n > 0 then sfail ErrUnresolvedConflicts
             else
               sbind (sread (readCommit ops headHash)) (\<lambda>head.
               sbind (sread (checkChanged grow ops rp p branch (co_Namespace head) (ws_Staged ws) flushed)) (\<lambda>_.
               sbind (sread (new_commit ops rp p message head (ws_Staged ws) (ws_Merge ws))) (\<lambda>c.
                 land_commit ops branch c (no_merge (ws_Working ws) (ws_Staged ws)) e))))))))"

text \<open>The namespaces a commit is checked against, each once.\<close>

fun each_once :: "'a list \<Rightarrow> 'a list \<Rightarrow> 'a list" where
  "each_once seen [] = []"
| "each_once seen (x # xs) = (if x \<in> set seen then each_once (seen @ [x]) xs else x # each_once (seen @ [x]) xs)"

definition r_commit :: "(bytes \<Rightarrow> hash) \<Rightarrow> (byte \<Rightarrow> u64) \<Rightarrow> (nat \<Rightarrow> nat) \<Rightarrow> ('s, 'z) cstore_scheme \<Rightarrow> ('s, 'v) repo \<Rightarrow> principal \<Rightarrow>
    bytes \<Rightarrow> workingset \<Rightarrow> hash \<Rightarrow> ('s, 'v) onamespace option list \<Rightarrow> bytes \<Rightarrow> ('s, commit) comp" where
  "r_commit H tb grow ops rp p branch prev namespace flushed message =
     sbind (slift (branchCheck rp p ActWrite branch)) (\<lambda>_.
     sbind (slift (r_check rp p ActCommit (ascii ''branch:'' @ branch))) (\<lambda>_.
       if bad_message message then sfail (ErrOther ''vcs: a commit message'')
       else
         r_update H tb ops rp (\<lambda>m e.
           sbind (sread (branchRefs grow ops m branch)) (\<lambda>(headHash, work).
             if work \<noteq> ws_Hash prev then sfail ErrConflict
             else
               sbind (sread (readWorkingSet ops work)) (\<lambda>stored.
                 if \<not> sameMerge (ws_Merge stored) (ws_Merge prev) then sfail ErrMergeState
                 else
                   sbind (sread (conflictCount ops rp stored)) (\<lambda>n.
                     if n > 0 then sfail ErrUnresolvedConflicts
                     else
                       sbind (sread (readCommit ops headHash)) (\<lambda>head.
                       sbind (sread (\<lambda>s. check_all (\<lambda>from. checkChanged grow ops rp p branch from namespace flushed s)
                           (each_once [] [ws_Working stored, ws_Staged stored, co_Namespace head]))) (\<lambda>_.
                       sbind (sread (new_commit ops rp p message head namespace (ws_Merge stored))) (\<lambda>c.
                         land_commit ops branch c (no_merge namespace namespace) e)))))))))"

definition r_Commit :: "(bytes \<Rightarrow> hash) \<Rightarrow> (byte \<Rightarrow> u64) \<Rightarrow> (nat \<Rightarrow> nat) \<Rightarrow> ('s, 'z) cstore_scheme \<Rightarrow> ('s, 'v) repo \<Rightarrow> principal \<Rightarrow>
    bytes \<Rightarrow> workingset \<Rightarrow> hash \<Rightarrow> bytes \<Rightarrow> ('s, commit) comp" where
  "r_Commit H tb grow ops rp p branch prev namespace message = r_commit H tb grow ops rp p branch prev namespace [] message"

definition r_CommitNamespace :: "(bytes \<Rightarrow> hash) \<Rightarrow> (byte \<Rightarrow> u64) \<Rightarrow> (nat \<Rightarrow> nat) \<Rightarrow> ('s, 'z) cstore_scheme \<Rightarrow> ('s, 'v) repo \<Rightarrow> principal \<Rightarrow>
    bytes \<Rightarrow> workingset \<Rightarrow> ('s, 'v) onamespace \<Rightarrow> bytes \<Rightarrow> ('s, commit) comp" where
  "r_CommitNamespace H tb grow ops rp p branch prev n message = r_commit H tb grow ops rp p branch prev (ns_Root n) [Some n] message"

definition r_UpdateWorkingSetFlushed :: "(bytes \<Rightarrow> hash) \<Rightarrow> (byte \<Rightarrow> u64) \<Rightarrow> (nat \<Rightarrow> nat) \<Rightarrow> ('s, 'z) cstore_scheme \<Rightarrow> ('s, 'v) repo \<Rightarrow> principal \<Rightarrow>
    bytes \<Rightarrow> workingset \<Rightarrow> workingset \<Rightarrow> ('s, 'v) onamespace option list \<Rightarrow> ('s, workingset) comp" where
  "r_UpdateWorkingSetFlushed H tb grow ops rp p branch prev nxt flushed = r_updateWorkingSet H tb grow ops rp p branch prev nxt flushed"

definition r_CommitWorkingSet :: "(bytes \<Rightarrow> hash) \<Rightarrow> (byte \<Rightarrow> u64) \<Rightarrow> (nat \<Rightarrow> nat) \<Rightarrow> ('s, 'z) cstore_scheme \<Rightarrow> ('s, 'v) repo \<Rightarrow> principal \<Rightarrow>
    bytes \<Rightarrow> bytes \<Rightarrow> ('s, commit) comp" where
  "r_CommitWorkingSet H tb grow ops rp p branch message = r_commitWorkingSet H tb grow ops rp p branch message []"

definition r_CommitWorkingSetFlushed :: "(bytes \<Rightarrow> hash) \<Rightarrow> (byte \<Rightarrow> u64) \<Rightarrow> (nat \<Rightarrow> nat) \<Rightarrow> ('s, 'z) cstore_scheme \<Rightarrow> ('s, 'v) repo \<Rightarrow> principal \<Rightarrow>
    bytes \<Rightarrow> bytes \<Rightarrow> ('s, 'v) onamespace option list \<Rightarrow> ('s, commit) comp" where
  "r_CommitWorkingSetFlushed H tb grow ops rp p branch message flushed = r_commitWorkingSet H tb grow ops rp p branch message flushed"

end
