(* ===== verification/VcsGraph.thy ===== *)
theory VcsGraph
  imports Vcs
begin

text \<open>
  The rest of \<^verbatim>\<open>core/vcs/vcs.go\<close>: branches, sessions, tags, the log, merge bases and merging.
\<close>

section \<open>Branches, sessions and tags\<close>

definition r_CreateBranch :: "(bytes \<Rightarrow> hash) \<Rightarrow> (byte \<Rightarrow> u64) \<Rightarrow> (nat \<Rightarrow> nat) \<Rightarrow> ('s, 'z) cstore_scheme \<Rightarrow> ('s, 'v) repo \<Rightarrow> principal \<Rightarrow>
    bytes \<Rightarrow> hash \<Rightarrow> ('s, unit) comp" where
  "r_CreateBranch H tb grow ops rp p name at =
     sbind (slift (branchCheck rp p ActManage name)) (\<lambda>_.
     sbind (sread (readCommit ops at)) (\<lambda>c.
     sbind (rw_Put ops (ws_encode (no_merge (co_Namespace c) (co_Namespace c)))) (\<lambda>ws.
       r_update H tb ops rp (\<lambda>m e.
         sbind (sread (vcs_ref grow ops m (headKey name))) (\<lambda>h.
           if h \<noteq> None then sfail ErrBranchExists
           else
             sbind (sedit (eo_Put (headKey name) (hbytes at)) e) (\<lambda>e.
             sbind (sedit (eo_Put (workKey name) (hbytes ws)) e) (\<lambda>e. sret (e, ()))))))))"

definition r_DeleteBranch :: "(bytes \<Rightarrow> hash) \<Rightarrow> (byte \<Rightarrow> u64) \<Rightarrow> (nat \<Rightarrow> nat) \<Rightarrow> ('s, 'z) cstore_scheme \<Rightarrow> ('s, 'v) repo \<Rightarrow> principal \<Rightarrow>
    bytes \<Rightarrow> ('s, unit) comp" where
  "r_DeleteBranch H tb grow ops rp p name =
     sbind (slift (branchCheck rp p ActManage name)) (\<lambda>_.
       if rp_checkedOut rp name > 0 then sfail ErrBranchInUse
       else
         r_update H tb ops rp (\<lambda>m e.
           sbind (sread (branchRefs grow ops m name)) (\<lambda>_.
           sbind (sedit (eo_Delete (headKey name)) e) (\<lambda>e.
           sbind (sedit (eo_Delete (workKey name)) e) (\<lambda>e. sret (e, ()))))))"

text \<open>A session is its branch and whether it was closed; the repository counts the open ones.\<close>

record session =
  se_branch :: bytes
  se_closed :: bool

definition r_Checkout :: "(nat \<Rightarrow> nat) \<Rightarrow> ('s, 'z) cstore_scheme \<Rightarrow> ('s, 'v) repo \<Rightarrow> principal \<Rightarrow> bytes \<Rightarrow> 's \<Rightarrow> (session \<times> ('s, 'v) repo) result" where
  "r_Checkout grow ops rp p branch s =
     rbind (r_Head grow ops rp p branch s) (\<lambda>_.
       Inr (\<lparr>se_branch = branch, se_closed = False\<rparr>,
            rp\<lparr>rp_checkedOut := (rp_checkedOut rp)(branch := rp_checkedOut rp branch + 1)\<rparr>))"

text \<open>A count that reaches zero is deleted, which reads as zero.\<close>

definition session_Close :: "session \<Rightarrow> ('s, 'v) repo \<Rightarrow> session \<times> ('s, 'v) repo" where
  "session_Close se rp =
     (if se_closed se then (se, rp)
      else (se\<lparr>se_closed := True\<rparr>,
            rp\<lparr>rp_checkedOut := (rp_checkedOut rp)(se_branch se := rp_checkedOut rp (se_branch se) - 1)\<rparr>))"

definition r_CreateTag :: "(bytes \<Rightarrow> hash) \<Rightarrow> (byte \<Rightarrow> u64) \<Rightarrow> (nat \<Rightarrow> nat) \<Rightarrow> ('s, 'z) cstore_scheme \<Rightarrow> ('s, 'v) repo \<Rightarrow> principal \<Rightarrow>
    bytes \<Rightarrow> hash \<Rightarrow> bytes \<Rightarrow> ('s, tag) comp" where
  "r_CreateTag H tb grow ops rp p name target message =
     sbind (slift (r_check rp p ActManage (ascii ''tag:'' @ name))) (\<lambda>_.
     sbind (slift (validName name)) (\<lambda>_.
       if bad_message message then sfail (ErrOther ''vcs: a tag message'')
       else
         sbind (sread (readCommit ops target)) (\<lambda>_.
         sbind (sread (\<lambda>s. Inr (rp_Clock rp s))) (\<lambda>now.
           let t = \<lparr>tg_Hash = zero_hash, tg_Target = target, tg_Time = now, tg_Tagger = pr_ID p, tg_Message = message\<rparr> in
           sbind (rw_Put ops (tag_encode t)) (\<lambda>h.
             r_update H tb ops rp (\<lambda>m e.
               sbind (sread (vcs_ref grow ops m (tagKey name))) (\<lambda>old.
                 if old \<noteq> None then sfail ErrTagExists
                 else sbind (sedit (eo_Put (tagKey name) (hbytes h)) e) (\<lambda>e. sret (e, t\<lparr>tg_Hash := h\<rparr>)))))))))"

definition r_DeleteTag :: "(bytes \<Rightarrow> hash) \<Rightarrow> (byte \<Rightarrow> u64) \<Rightarrow> (nat \<Rightarrow> nat) \<Rightarrow> ('s, 'z) cstore_scheme \<Rightarrow> ('s, 'v) repo \<Rightarrow> principal \<Rightarrow>
    bytes \<Rightarrow> ('s, unit) comp" where
  "r_DeleteTag H tb grow ops rp p name =
     sbind (slift (r_check rp p ActManage (ascii ''tag:'' @ name))) (\<lambda>_.
     sbind (slift (validName name)) (\<lambda>_.
       r_update H tb ops rp (\<lambda>m e.
         sbind (sread (vcs_ref grow ops m (tagKey name))) (\<lambda>old.
           if old = None then sfail ErrTagNotFound
           else sbind (sedit (eo_Delete (tagKey name)) e) (\<lambda>e. sret (e, ()))))))"

section \<open>The log\<close>

text \<open>\<^verbatim>\<open>byHeight.Less\<close>: the order \<^verbatim>\<open>container/heap\<close> pops by.\<close>

definition byHeight_Less :: "commit \<Rightarrow> commit \<Rightarrow> bool" where
  "byHeight_Less a b \<longleftrightarrow>
     (if co_Height a \<noteq> co_Height b then co_Height a > co_Height b else co_Hash a < co_Hash b)"

text \<open>\<^verbatim>\<open>heap.Pop\<close>: an element no other comes before, and the rest.\<close>

fun heap_first :: "commit \<Rightarrow> commit list \<Rightarrow> commit" where
  "heap_first c [] = c"
| "heap_first c (d # ds) = heap_first (if byHeight_Less d c then d else c) ds"

definition heap_Pop :: "commit list \<Rightarrow> commit \<times> commit list" where
  "heap_Pop q = (let c = heap_first (hd q) (tl q) in (c, remove1 c q))"

text \<open>The parents not seen yet, queued.\<close>

fun log_parents :: "('s, 'z) cstore_scheme \<Rightarrow> 's \<Rightarrow> hash list \<Rightarrow> commit list \<Rightarrow> hash list \<Rightarrow> (commit list \<times> hash list) result" where
  "log_parents ops s [] q seen = Inr (q, seen)"
| "log_parents ops s (ph # ps) q seen =
     (if ph \<in> set seen then log_parents ops s ps q seen
      else rbind (readCommit ops ph s) (\<lambda>pc. log_parents ops s ps (q @ [pc]) (ph # seen)))"

text \<open>The loop of \<^verbatim>\<open>Log\<close>, with \<open>n\<close> commits still to be listed.\<close>

primrec log_loop :: "nat \<Rightarrow> ('s, 'z) cstore_scheme \<Rightarrow> 's \<Rightarrow> commit list \<Rightarrow> hash list \<Rightarrow> commit list result" where
  "log_loop 0 ops s q seen = Inr []"
| "log_loop (Suc n) ops s q seen =
     (if q = [] then Inr []
      else let (c, q) = heap_Pop q in
        rbind (log_parents ops s (co_Parents c) q seen) (\<lambda>(q, seen).
        rbind (log_loop n ops s q seen) (\<lambda>cs. Inr (c # cs))))"

definition r_Log :: "('s, 'z) cstore_scheme \<Rightarrow> ('s, 'v) repo \<Rightarrow> principal \<Rightarrow> hash \<Rightarrow> int \<Rightarrow> 's \<Rightarrow> commit list result" where
  "r_Log ops rp p from limit s =
     rbind (r_check rp p ActRead (ascii ''repo'')) (\<lambda>_.
       if limit < 1 \<or> limit > int MaxLog then Inl ErrInvalidLimit
       else rbind (readCommit ops from s) (\<lambda>start. log_loop (nat limit) ops s [start] [from]))"

section \<open>Merge bases\<close>

text \<open>The flags of a commit: reached from \<open>a\<close>, reached from \<open>b\<close>.\<close>

type_synonym flags = "hash \<Rightarrow> bool \<times> bool"

definition flag_or :: "bool \<times> bool \<Rightarrow> bool \<times> bool \<Rightarrow> bool \<times> bool" where
  "flag_or f g = (fst f \<or> fst g, snd f \<or> snd g)"

record mbstate =
  mb_q :: "commit list"
  mb_flags :: flags
  mb_res :: "hash result option"

text \<open>One commit given the flags \<open>f\<close>, queued if it had none.\<close>

definition mb_reach :: "('s, 'z) cstore_scheme \<Rightarrow> 's \<Rightarrow> hash \<Rightarrow> bool \<times> bool \<Rightarrow> mbstate \<Rightarrow> mbstate" where
  "mb_reach ops s h f st =
     (if mb_res st \<noteq> None then st
      else if mb_flags st h = (False, False) then
        (case readCommit ops h s of
           Inl e \<Rightarrow> st\<lparr>mb_res := Some (Inl e)\<rparr>
         | Inr c \<Rightarrow> st\<lparr>mb_q := mb_q st @ [c], mb_flags := (mb_flags st)(h := f)\<rparr>)
      else st\<lparr>mb_flags := (mb_flags st)(h := flag_or (mb_flags st h) f)\<rparr>)"

definition mb_step :: "('s, 'z) cstore_scheme \<Rightarrow> 's \<Rightarrow> mbstate \<Rightarrow> mbstate" where
  "mb_step ops s st =
     (let (c, q) = heap_Pop (mb_q st); f = mb_flags st (co_Hash c) in
      if f = (True, True) then st\<lparr>mb_q := q, mb_res := Some (Inr (co_Hash c))\<rparr>
      else fold (\<lambda>ph. mb_reach ops s ph f) (co_Parents c) (st\<lparr>mb_q := q\<rparr>))"

text \<open>
  The loop of \<^verbatim>\<open>mergeBase\<close>, which on a store that never runs out of new ancestors need not end:
  \<open>VcsBase\<close> shows it does on a store of finitely many chunks.
\<close>

definition mb_start :: "('s, 'z) cstore_scheme \<Rightarrow> 's \<Rightarrow> hash \<Rightarrow> hash \<Rightarrow> mbstate" where
  "mb_start ops s a b =
     mb_reach ops s b (False, True) (mb_reach ops s a (True, False) \<lparr>mb_q = [], mb_flags = (\<lambda>_. (False, False)), mb_res = None\<rparr>)"

definition mb_loop :: "('s, 'z) cstore_scheme \<Rightarrow> 's \<Rightarrow> mbstate \<Rightarrow> mbstate option" where
  "mb_loop ops s = while_option (\<lambda>st. mb_res st = None \<and> mb_q st \<noteq> []) (mb_step ops s)"

definition r_mergeBase :: "('s, 'z) cstore_scheme \<Rightarrow> hash \<Rightarrow> hash \<Rightarrow> 's \<Rightarrow> hash result" where
  "r_mergeBase ops a b s =
     (case mb_loop ops s (mb_start ops s a b) of
        None \<Rightarrow> Inl (ErrOther ''does not return'')
      | Some st \<Rightarrow> (case mb_res st of Some r \<Rightarrow> r | None \<Rightarrow> Inl (ErrOther ''vcs: no shared history'')))"

definition r_MergeBase :: "('s, 'z) cstore_scheme \<Rightarrow> ('s, 'v) repo \<Rightarrow> principal \<Rightarrow> hash \<Rightarrow> hash \<Rightarrow> 's \<Rightarrow> hash result" where
  "r_MergeBase ops rp p a b s = rbind (r_check rp p ActRead (ascii ''repo'')) (\<lambda>_. r_mergeBase ops a b s)"

section \<open>Merging\<close>

fun put_conflicts :: "conflict list \<Rightarrow> editor \<Rightarrow> editor result" where
  "put_conflicts [] e = Inr e"
| "put_conflicts (c # cs) e =
     (case eo_Put (xc_Path c) (encodeConflict c) e of (Inl x, _) \<Rightarrow> Inl x | (Inr _, e) \<Rightarrow> put_conflicts cs e)"

definition r_Merge :: "(bytes \<Rightarrow> hash) \<Rightarrow> (byte \<Rightarrow> u64) \<Rightarrow> (nat \<Rightarrow> nat) \<Rightarrow> ('s, 'z) cstore_scheme \<Rightarrow> ('s, 'v) repo \<Rightarrow> principal \<Rightarrow>
    bytes \<Rightarrow> hash \<Rightarrow> ('s, ('s, 'v) mresult) comp" where
  "r_Merge H tb grow ops rp p branch theirs =
     sbind (slift (branchCheck rp p ActMerge branch)) (\<lambda>_.
     sbind (sread (r_refs ops rp)) (\<lambda>m.
     sbind (sread (branchRefs grow ops m branch)) (\<lambda>(headHash, work).
     sbind (sread (readWorkingSet ops work)) (\<lambda>ws.
       if ws_Merge ws \<noteq> None then sfail (ErrOther ''vcs: a merge is already in progress'')
       else
         sbind (sread (r_mergeBase ops headHash theirs)) (\<lambda>baseHash.
           if baseHash = theirs then
             sbind (sread (r_Namespace ops rp (ws_Working ws))) (\<lambda>ours.
               sret \<lparr>mg_Merged = ours, mg_Conflicts = [], mg_Stats = zero_stats\<rparr>)
           else
             sbind (sread (readCommit ops baseHash)) (\<lambda>bc.
             sbind (sread (r_Namespace ops rp (co_Namespace bc))) (\<lambda>base.
             sbind (sread (readCommit ops theirs)) (\<lambda>tc.
             sbind (sread (r_Namespace ops rp (co_Namespace tc))) (\<lambda>their.
             sbind (sread (r_Namespace ops rp (ws_Working ws))) (\<lambda>ours.
             sbind (ns_Merge H tb grow ops (rp_Registry rp) base ours their (rp_MaxConflicts rp)) (\<lambda>res.
             sbind (slift (check_all recordable (mg_Conflicts res))) (\<lambda>_.
             sbind (sread (checkPaths grow ops rp p branch (ws_Working ws) (ns_Root (mg_Merged res)))) (\<lambda>_.
             sbind (m_Empty ops (conflictsMap (rp_Config rp))) (\<lambda>cm.
             sbind (slift (put_conflicts (mg_Conflicts res) (m_Editor cm))) (\<lambda>ce.
             sbind (eo_Flush H tb ops ce) (\<lambda>(cm, _).
               let root = ns_Root (mg_Merged res);
                   nxt = \<lparr>ws_Hash = zero_hash, ws_Working = root, ws_Staged = root,
                          ws_Merge = Some \<lparr>me_Base = baseHash, me_Theirs = theirs, me_Conflicts = pm_root cm,
                                           me_PreWorking = ws_Working ws, me_PreStaged = ws_Staged ws\<rparr>\<rparr>
               in sbind (setWorkingSet H tb grow ops rp branch ws nxt False) (\<lambda>_. sret res)))))))))))))))))"

definition r_AbortMerge :: "(bytes \<Rightarrow> hash) \<Rightarrow> (byte \<Rightarrow> u64) \<Rightarrow> (nat \<Rightarrow> nat) \<Rightarrow> ('s, 'z) cstore_scheme \<Rightarrow> ('s, 'v) repo \<Rightarrow> principal \<Rightarrow>
    bytes \<Rightarrow> ('s, unit) comp" where
  "r_AbortMerge H tb grow ops rp p branch =
     sbind (slift (branchCheck rp p ActMerge branch)) (\<lambda>_.
       r_update H tb ops rp (\<lambda>m e.
         sbind (sread (branchRefs grow ops m branch)) (\<lambda>(_, work).
         sbind (sread (readWorkingSet ops work)) (\<lambda>ws.
           case ws_Merge ws of
             None \<Rightarrow> sfail ErrNoMerge
           | Some mg \<Rightarrow>
               sbind (sread (checkPaths grow ops rp p branch (ws_Working ws) (me_PreWorking mg))) (\<lambda>_.
               sbind (sread (checkPaths grow ops rp p branch (ws_Staged ws) (me_PreStaged mg))) (\<lambda>_.
               sbind (rw_Put ops (ws_encode (no_merge (me_PreWorking mg) (me_PreStaged mg)))) (\<lambda>h.
               sbind (sedit (eo_Put (workKey branch) (hbytes h)) e) (\<lambda>e. sret (e, ())))))))))"

definition r_Conflicts :: "(nat \<Rightarrow> nat) \<Rightarrow> ('s, 'z) cstore_scheme \<Rightarrow> ('s, 'v) repo \<Rightarrow> principal \<Rightarrow> bytes \<Rightarrow> 's \<Rightarrow> conflict list result" where
  "r_Conflicts grow ops rp p branch s =
     rbind (r_WorkingSet grow ops rp p branch s) (\<lambda>ws.
       case ws_Merge ws of
         None \<Rightarrow> Inr []
       | Some mg \<Rightarrow>
           rbind (m_Open ops s (conflictsMap (rp_Config rp)) (me_Conflicts mg)) (\<lambda>m.
           rbind (m_IterRange ops s m [] None) (\<lambda>it. it_collect grow ops s decodeConflict it)))"

text \<open>One of the two namespaces with the path settled.\<close>

definition resolve_in :: "(bytes \<Rightarrow> hash) \<Rightarrow> (byte \<Rightarrow> u64) \<Rightarrow> ('s, 'z) cstore_scheme \<Rightarrow> ('s, 'v) repo \<Rightarrow> bytes \<Rightarrow> oref option \<Rightarrow> hash \<Rightarrow> ('s, hash) comp" where
  "resolve_in H tb ops rp path to dst =
     sbind (sread (r_Namespace ops rp dst)) (\<lambda>n.
       case (case to of None \<Rightarrow> oe_Delete path (ns_Editor n) | Some ref \<Rightarrow> oe_Put path ref (ns_Editor n)) of
         (Inl x, _) \<Rightarrow> sfail x
       | (Inr _, e) \<Rightarrow> sbind (oe_Flush H tb ops e) (\<lambda>(n, _). sret (ns_Root n)))"

primrec resolve_attempts :: "nat \<Rightarrow> (bytes \<Rightarrow> hash) \<Rightarrow> (byte \<Rightarrow> u64) \<Rightarrow> (nat \<Rightarrow> nat) \<Rightarrow> ('s, 'z) cstore_scheme \<Rightarrow> ('s, 'v) repo \<Rightarrow> principal \<Rightarrow>
    bytes \<Rightarrow> bytes \<Rightarrow> oref option \<Rightarrow> nat \<Rightarrow> ('s, unit) comp" where
  "resolve_attempts 0 H tb grow ops rp p branch path to attempt = sfail (ErrOther ''vcs: the working set kept changing'')"
| "resolve_attempts (Suc n) H tb grow ops rp p branch path to attempt =
     sbind (if attempt > 0 then r_pause rp (attempt - 1) else sret ()) (\<lambda>_.
     sbind (sread (r_WorkingSet grow ops rp p branch)) (\<lambda>ws.
       case ws_Merge ws of
         None \<Rightarrow> sfail (ErrOther ''vcs: no merge is in progress'')
       | Some mg \<Rightarrow>
           sbind (sread (\<lambda>s. m_Open ops s (conflictsMap (rp_Config rp)) (me_Conflicts mg))) (\<lambda>cm.
           sbind (sread (\<lambda>s. m_Get grow ops s cm path)) (\<lambda>c.
             if c = None then sfail (ErrOther ''vcs: no conflict'')
             else
               sbind (resolve_in H tb ops rp path to (ws_Working ws)) (\<lambda>w.
               sbind (resolve_in H tb ops rp path to (ws_Staged ws)) (\<lambda>st.
               sbind (sedit (eo_Delete path) (m_Editor cm)) (\<lambda>ce.
               sbind (eo_Flush H tb ops ce) (\<lambda>(cm, _) s.
                 case setWorkingSet H tb grow ops rp branch ws
                        (ws\<lparr>ws_Working := w, ws_Staged := st, ws_Merge := Some (mg\<lparr>me_Conflicts := pm_root cm\<rparr>)\<rparr>) False s of
                   (Inl e, s) \<Rightarrow>
                     if e = ErrConflict then resolve_attempts n H tb grow ops rp p branch path to (attempt + 1) s else (Inl e, s)
                 | (Inr _, s) \<Rightarrow> (Inr (), s)))))))))"

definition r_ResolveConflict :: "(bytes \<Rightarrow> hash) \<Rightarrow> (byte \<Rightarrow> u64) \<Rightarrow> (nat \<Rightarrow> nat) \<Rightarrow> ('s, 'z) cstore_scheme \<Rightarrow> ('s, 'v) repo \<Rightarrow> principal \<Rightarrow>
    bytes \<Rightarrow> bytes \<Rightarrow> oref option \<Rightarrow> ('s, unit) comp" where
  "r_ResolveConflict H tb grow ops rp p branch path to =
     sbind (slift (branchCheck rp p ActMerge branch)) (\<lambda>_.
     sbind (slift (r_check rp p ActWrite (pathResource branch path))) (\<lambda>_.
       resolve_attempts maxAttempts H tb grow ops rp p branch path to 0))"

end
