(* ===== verification/VcsBase.thy ===== *)
theory VcsBase
  imports VcsGraph
begin

text \<open>
  The merge base of \<^verbatim>\<open>core/vcs\<close>: on a history whose commits are higher than their parents, the walk
  highest first ends at the highest common ancestor, the lower hash on a tie; and on any store of
  finitely many chunks, a forged history included, it ends.
\<close>

section \<open>Histories\<close>

definition parent_of :: "('s, 'z) cstore_scheme \<Rightarrow> 's \<Rightarrow> hash \<Rightarrow> hash \<Rightarrow> bool" where
  "parent_of ops s h p \<longleftrightarrow> (\<exists>c. readCommit ops h s = Inr c \<and> p \<in> set (co_Parents c))"

definition ancestor :: "('s, 'z) cstore_scheme \<Rightarrow> 's \<Rightarrow> hash \<Rightarrow> hash \<Rightarrow> bool" where
  "ancestor ops s = (parent_of ops s)\<^sup>*\<^sup>*"

text \<open>Every ancestor reads, and is higher than its parents.\<close>

definition history :: "('s, 'z) cstore_scheme \<Rightarrow> 's \<Rightarrow> hash \<Rightarrow> bool" where
  "history ops s a \<longleftrightarrow> (\<forall>h. ancestor ops s a h \<longrightarrow>
     (\<exists>c. readCommit ops h s = Inr c \<and> (\<forall>p pc. p \<in> set (co_Parents c) \<longrightarrow> readCommit ops p s = Inr pc \<longrightarrow> co_Height pc < co_Height c)))"

definition best_base :: "('s, 'z) cstore_scheme \<Rightarrow> 's \<Rightarrow> hash \<Rightarrow> hash \<Rightarrow> hash \<Rightarrow> bool" where
  "best_base ops s a b h \<longleftrightarrow> ancestor ops s a h \<and> ancestor ops s b h \<and>
     (\<forall>d. ancestor ops s a d \<longrightarrow> ancestor ops s b d \<longrightarrow> d = h \<or>
       (\<exists>hc dc. readCommit ops h s = Inr hc \<and> readCommit ops d s = Inr dc \<and> byHeight_Less hc dc))"

lemma ancestor_refl [simp]: "ancestor ops s a a"
  by (simp add: ancestor_def)

lemma ancestor_step: "ancestor ops s a h \<Longrightarrow> parent_of ops s h p \<Longrightarrow> ancestor ops s a p"
  by (simp add: ancestor_def)

lemma history_parent: "history ops s a \<Longrightarrow> parent_of ops s a p \<Longrightarrow> history ops s p"
  by (auto simp: history_def ancestor_def intro: converse_rtranclp_into_rtranclp)

lemma readCommit_Hash: "readCommit ops h s = Inr c \<Longrightarrow> co_Hash c = h"
  by (auto simp: readCommit_def result_simps)

lemma history_read:
  "history ops s a \<Longrightarrow> \<exists>c. readCommit ops a s = Inr c \<and>
     (\<forall>p pc. p \<in> set (co_Parents c) \<longrightarrow> readCommit ops p s = Inr pc \<longrightarrow> co_Height pc < co_Height c)"
  unfolding history_def by (erule allE[of _ a]) simp

lemma history_ancestor: "history ops s a \<Longrightarrow> ancestor ops s a h \<Longrightarrow> history ops s h"
  using rtranclp_trans[of "parent_of ops s" a h] by (simp add: history_def ancestor_def)

lemma finite_ancestors: "history ops s a \<Longrightarrow> finite {h. ancestor ops s a h}"
proof (induction "case readCommit ops a s of Inr c \<Rightarrow> unat (co_Height c) | Inl _ \<Rightarrow> 0" arbitrary: a rule: less_induct)
  case less
  from less.prems obtain c where c: "readCommit ops a s = Inr c"
    and lt: "\<forall>p pc. p \<in> set (co_Parents c) \<longrightarrow> readCommit ops p s = Inr pc \<longrightarrow> co_Height pc < co_Height c"
    using history_read[of ops s a] by blast
  have "finite {h. ancestor ops s p h}" if p: "p \<in> set (co_Parents c)" for p
  proof -
    have hp: "history ops s p" using history_parent[OF less.prems, of p] p c by (simp add: parent_of_def)
    from history_read[OF this] obtain pc where pc: "readCommit ops p s = Inr pc" by (elim exE conjE)
    show ?thesis using lt p pc by (intro less.hyps[OF _ hp]) (simp add: c pc word_less_nat_alt)
  qed
  moreover have "{h. ancestor ops s a h} \<subseteq> insert a (\<Union>p\<in>set (co_Parents c). {h. ancestor ops s p h})"
    by (auto simp: ancestor_def parent_of_def c elim: converse_rtranclpE)
  ultimately show ?case by (meson finite_UN_I finite_insert finite_set finite_subset)
qed

section \<open>The heap\<close>

lemma byHeight_trans: "byHeight_Less a b \<Longrightarrow> byHeight_Less b c \<Longrightarrow> byHeight_Less a c"
  by (auto simp: byHeight_Less_def split: if_splits)

lemma byHeight_irrefl [simp]: "\<not> byHeight_Less a a"
  by (simp add: byHeight_Less_def)

lemma byHeight_total: "co_Hash a \<noteq> co_Hash b \<Longrightarrow> byHeight_Less a b \<or> byHeight_Less b a"
  by (auto simp: byHeight_Less_def)

lemma heap_first_mem: "heap_first c ds \<in> set (c # ds)"
  by (induction c ds rule: heap_first.induct) (auto split: if_splits)

lemma heap_first_least: "d \<in> set (c # ds) \<Longrightarrow> \<not> byHeight_Less d (heap_first c ds)"
proof (induction c ds arbitrary: d rule: heap_first.induct)
  case (2 c e ds)
  let ?m = "if byHeight_Less e c then e else c"
  have m: "\<not> byHeight_Less ?m (heap_first ?m ds)" using 2 by auto
  show ?case
  proof (cases "d \<in> set ds")
    case True
    then show ?thesis using 2 by auto
  next
    case False
    have "\<not> byHeight_Less d ?m" if "d = c \<or> d = e"
      using that by (auto simp: byHeight_Less_def split: if_splits)
    then have "\<not> byHeight_Less d (heap_first ?m ds)"
      using m False 2(2) by (auto simp: byHeight_Less_def split: if_splits)
    then show ?thesis by simp
  qed
qed auto

lemma heap_Pop_least:
  assumes "heap_Pop q = (c, q')" and "q \<noteq> []" and "distinct (map co_Hash q)"
  shows "c \<in> set q" and "q' = remove1 c q" and "\<And>d. d \<in> set q \<Longrightarrow> d \<noteq> c \<Longrightarrow> byHeight_Less c d"
proof -
  obtain x xs where q: "q = x # xs" using assms(2) by (cases q) auto
  have c: "c = heap_first x xs" and q': "q' = remove1 c q" using assms(1) by (auto simp: heap_Pop_def q Let_def)
  show m: "c \<in> set q" using heap_first_mem[of x xs] by (simp add: c q)
  show "q' = remove1 c q" by (rule q')
  show "byHeight_Less c d" if "d \<in> set q" "d \<noteq> c" for d
  proof -
    have "co_Hash d \<noteq> co_Hash c" using assms(3) that m by (auto simp: distinct_map inj_on_def)
    then show ?thesis using byHeight_total[of c d] heap_first_least[of d x xs] that by (auto simp: c q)
  qed
qed

section \<open>The walk ends\<close>

definition mb_left :: "('s, 'z) cstore_scheme \<Rightarrow> 's \<Rightarrow> hash set \<Rightarrow> mbstate \<Rightarrow> nat" where
  "mb_left ops s F st = length (mb_q st) + 2 * card {h \<in> F. mb_flags st h = (False, False)} + (if mb_res st = None then 1 else 0)"

lemma mb_reach_left:
  assumes "finite F" and "h \<in> F \<or> (\<exists>e. readCommit ops h s = Inl e)" and "f \<noteq> (False, False)"
  shows "mb_left ops s F (mb_reach ops s h f st) \<le> mb_left ops s F st"
proof (cases "mb_res st = None \<and> mb_flags st h = (False, False)")
  case True
  show ?thesis
  proof (cases "readCommit ops h s")
    case (Inl e)
    then show ?thesis using True by (simp add: mb_reach_def mb_left_def)
  next
    case (Inr c)
    let ?A = "{x \<in> F. mb_flags st x = (False, False)}"
    have "h \<in> ?A" using assms(2) Inr True by auto
    moreover have "{x \<in> F. (if x = h then f else mb_flags st x) = (False, False)} = ?A - {h}" using assms(3) by auto
    moreover have "finite ?A" using assms(1) by simp
    ultimately have "Suc (card {x \<in> F. (if x = h then f else mb_flags st x) = (False, False)}) = card ?A"
      using card_Suc_Diff1[of ?A h] by simp
    then show ?thesis using True Inr by (simp add: mb_reach_def mb_left_def fun_upd_def)
  qed
next
  case False
  have "card {x \<in> F. (if x = h then flag_or (mb_flags st h) f else mb_flags st x) = (False, False)} \<le>
      card {x \<in> F. mb_flags st x = (False, False)}"
    using assms(1,3) by (intro card_mono) (auto simp: flag_or_def prod_eq_iff split: if_splits)
  then show ?thesis using False by (auto simp: mb_reach_def mb_left_def fun_upd_def)
qed

lemma mb_step_left:
  assumes "finite F" and "mb_res st = None" and "mb_q st \<noteq> []" and "mb_flags st (co_Hash c) \<noteq> (False, False)"
    and pop: "heap_Pop (mb_q st) = (c, q)"
    and ps: "\<And>p. p \<in> set (co_Parents c) \<Longrightarrow> p \<in> F \<or> (\<exists>e. readCommit ops p s = Inl e)"
  shows "mb_left ops s F (mb_step ops s st) < mb_left ops s F st"
proof -
  have "c \<in> set (mb_q st)" "q = remove1 c (mb_q st)"
    using pop heap_first_mem[of "hd (mb_q st)" "tl (mb_q st)"] assms(3) by (auto simp: heap_Pop_def Let_def)
  then have len: "Suc (length q) = length (mb_q st)" using assms(3) by (simp add: length_remove1)
  let ?f = "mb_flags st (co_Hash c)"
  have "mb_left ops s F (fold (\<lambda>ph. mb_reach ops s ph ?f) xs t) \<le> mb_left ops s F t"
    if "\<And>p. p \<in> set xs \<Longrightarrow> p \<in> F \<or> (\<exists>e. readCommit ops p s = Inl e)" for xs t
    using that
  proof (induction xs arbitrary: t)
    case (Cons x xs)
    have "mb_left ops s F (mb_reach ops s x ?f t) \<le> mb_left ops s F t"
      using Cons.prems[of x] by (intro mb_reach_left assms(1,4)) simp
    then show ?case using Cons.IH[of "mb_reach ops s x ?f t"] Cons.prems by (fastforce intro: order_trans)
  qed simp
  note par = this[of "co_Parents c" "st\<lparr>mb_q := q\<rparr>", OF ps]
  have pop_less: "mb_left ops s F (st\<lparr>mb_q := q, mb_res := r\<rparr>) < mb_left ops s F st" for r
    using len assms(2) by (simp add: mb_left_def)
  show ?thesis
  proof (cases "?f = (True, True)")
    case True
    then show ?thesis using pop_less by (simp add: mb_step_def pop)
  next
    case False
    then have "mb_step ops s st = fold (\<lambda>ph. mb_reach ops s ph ?f) (co_Parents c) (st\<lparr>mb_q := q\<rparr>)"
      by (simp add: mb_step_def pop Let_def)
    then show ?thesis using par pop_less[of "mb_res st"] by simp
  qed
qed

section \<open>The walk finds the base\<close>

definition flag_le :: "bool \<times> bool \<Rightarrow> bool \<times> bool \<Rightarrow> bool" where
  "flag_le f g \<longleftrightarrow> (fst f \<longrightarrow> fst g) \<and> (snd f \<longrightarrow> snd g)"

text \<open>
  The walk with the commits \<open>P\<close> done: they come before all still queued, none is reached from both sides, and
  their parents have their flags.
\<close>

definition mb_inv :: "('s, 'z) cstore_scheme \<Rightarrow> 's \<Rightarrow> hash \<Rightarrow> hash \<Rightarrow> hash set \<Rightarrow> mbstate \<Rightarrow> bool" where
  "mb_inv ops s a b P st \<longleftrightarrow> mb_res st = None \<and> distinct (map co_Hash (mb_q st)) \<and>
     (\<forall>c \<in> set (mb_q st). readCommit ops (co_Hash c) s = Inr c \<and> co_Hash c \<notin> P) \<and>
     (\<forall>h. mb_flags st h \<noteq> (False, False) \<longleftrightarrow> h \<in> P \<or> h \<in> co_Hash ` set (mb_q st)) \<and>
     (\<forall>h. fst (mb_flags st h) \<longrightarrow> ancestor ops s a h) \<and> (\<forall>h. snd (mb_flags st h) \<longrightarrow> ancestor ops s b h) \<and>
     (\<forall>x \<in> P. mb_flags st x \<noteq> (True, True) \<and> (\<exists>c. readCommit ops x s = Inr c \<and> (\<forall>d \<in> set (mb_q st). byHeight_Less c d))) \<and>
     fst (mb_flags st a) \<and> snd (mb_flags st b)"

definition mb_closed :: "('s, 'z) cstore_scheme \<Rightarrow> 's \<Rightarrow> hash set \<Rightarrow> mbstate \<Rightarrow> bool" where
  "mb_closed ops s P st \<longleftrightarrow> (\<forall>x \<in> P. \<forall>p. parent_of ops s x p \<longrightarrow> flag_le (mb_flags st x) (mb_flags st p))"

text \<open>A parent \<open>p\<close> of the commit \<open>c\<close> just popped: it reads, comes after \<open>c\<close>, and so is not done.\<close>

lemma mb_reach_inv:
  assumes inv: "mb_inv ops s a b P st" and cl: "mb_closed ops s (P - {co_Hash c}) st" and cP: "co_Hash c \<in> P"
    and c: "readCommit ops (co_Hash c) s = Inr c" and cs: "\<forall>x \<in> P. \<exists>xc. readCommit ops x s = Inr xc \<and> (xc = c \<or> byHeight_Less xc c)"
    and pc: "readCommit ops p s = Inr pc" "byHeight_Less c pc" and f: "f = mb_flags st (co_Hash c)"
    and anc: "fst f \<Longrightarrow> ancestor ops s a p" "snd f \<Longrightarrow> ancestor ops s b p"
  shows "mb_inv ops s a b P (mb_reach ops s p f st)" and "mb_closed ops s (P - {co_Hash c}) (mb_reach ops s p f st)"
    and "mb_flags (mb_reach ops s p f st) (co_Hash c) = f" and "flag_le (mb_flags st h) (mb_flags (mb_reach ops s p f st) h)"
    and "flag_le f (mb_flags (mb_reach ops s p f st) p)"
proof -
  have f0: "f \<noteq> (False, False)" using inv cP by (auto simp: mb_inv_def f)
  have pP: "p \<notin> P"
  proof
    assume "p \<in> P"
    then have "pc = c \<or> byHeight_Less pc c" using cs pc(1) by auto
    then show False using pc(2) byHeight_trans[of c pc c] by auto
  qed
  then have ne: "p \<noteq> co_Hash c" using cP by auto
  let ?st = "mb_reach ops s p f st"
  have res: "mb_res st = None" using inv by (simp add: mb_inv_def)
  have fl: "mb_flags ?st = (mb_flags st)(p := flag_or (mb_flags st p) f)"
    using res pc(1) by (auto simp: mb_reach_def flag_or_def fun_eq_iff)
  have q: "mb_q ?st = (if mb_flags st p = (False, False) then mb_q st @ [pc] else mb_q st)" "mb_res ?st = None"
    using res pc(1) by (simp_all add: mb_reach_def)
  show "mb_flags ?st (co_Hash c) = f" unfolding fl using ne by (simp add: f)
  show "flag_le (mb_flags st h) (mb_flags ?st h)" "flag_le f (mb_flags ?st p)" by (auto simp: fl flag_le_def flag_or_def)
  have same: "mb_flags ?st x = mb_flags st x" if "x \<in> P" for x using that pP by (auto simp: fl)
  show "mb_closed ops s (P - {co_Hash c}) ?st"
    using cl same by (auto simp: mb_closed_def fl flag_le_def flag_or_def)
  have h: "co_Hash pc = p" using pc(1) by (rule readCommit_Hash)
  have "x \<in> P \<Longrightarrow> \<exists>xc. readCommit ops x s = Inr xc \<and> (\<forall>d \<in> set (mb_q ?st). byHeight_Less xc d)" for x
    using inv cs pc(2) byHeight_trans unfolding q(1) mb_inv_def by (auto split: if_splits) (metis Inr_inject)+
  moreover have "mb_flags ?st x \<noteq> (True, True)" if "x \<in> P" for x using inv same[OF that] that by (simp add: mb_inv_def)
  moreover have "mb_flags ?st x \<noteq> (False, False) \<longleftrightarrow> x \<in> P \<or> x \<in> co_Hash ` set (mb_q ?st)" for x
  proof (cases "x = p")
    case True
    have "mb_flags ?st p \<noteq> (False, False)" unfolding fl using f0 by (auto simp: flag_or_def prod_eq_iff)
    moreover have "p \<in> co_Hash ` set (mb_q ?st)" using inv pP h by (auto simp: q mb_inv_def)
    ultimately show ?thesis using True by simp
  next
    case False
    then show ?thesis using inv h by (auto simp: fl q mb_inv_def)
  qed
  moreover have "distinct (map co_Hash (mb_q ?st))" using inv h by (auto simp: q mb_inv_def)
  moreover have "\<forall>d \<in> set (mb_q ?st). readCommit ops (co_Hash d) s = Inr d \<and> co_Hash d \<notin> P"
    using inv h pc(1) pP by (auto simp: q mb_inv_def)
  moreover have "fst (mb_flags ?st x) \<longrightarrow> ancestor ops s a x" "snd (mb_flags ?st x) \<longrightarrow> ancestor ops s b x" for x
    using inv anc by (auto simp: fl flag_or_def mb_inv_def)
  moreover have "fst (mb_flags ?st a)" "snd (mb_flags ?st b)" using inv by (auto simp: fl flag_or_def mb_inv_def)
  ultimately show "mb_inv ops s a b P ?st" using q(2) unfolding mb_inv_def by blast
qed

lemma mb_parents_inv:
  assumes "mb_inv ops s a b P st" and "mb_closed ops s (P - {co_Hash c}) st" and cP: "co_Hash c \<in> P"
    and c: "readCommit ops (co_Hash c) s = Inr c" and cs: "\<forall>x \<in> P. \<exists>xc. readCommit ops x s = Inr xc \<and> (xc = c \<or> byHeight_Less xc c)"
    and ps: "\<forall>p \<in> set ps. (\<exists>pc. readCommit ops p s = Inr pc \<and> byHeight_Less c pc) \<and> (fst f \<longrightarrow> ancestor ops s a p) \<and> (snd f \<longrightarrow> ancestor ops s b p)"
    and "mb_flags st (co_Hash c) = f"
  shows "mb_inv ops s a b P (fold (\<lambda>ph. mb_reach ops s ph f) ps st) \<and>
    mb_closed ops s (P - {co_Hash c}) (fold (\<lambda>ph. mb_reach ops s ph f) ps st) \<and>
    mb_flags (fold (\<lambda>ph. mb_reach ops s ph f) ps st) (co_Hash c) = f \<and>
    (\<forall>h. flag_le (mb_flags st h) (mb_flags (fold (\<lambda>ph. mb_reach ops s ph f) ps st) h)) \<and>
    (\<forall>p \<in> set ps. flag_le f (mb_flags (fold (\<lambda>ph. mb_reach ops s ph f) ps st) p))"
  using assms(1,2,6,7)
proof (induction ps arbitrary: st)
  case Nil
  then show ?case by (simp add: flag_le_def)
next
  case (Cons p ps)
  obtain pc where pc: "readCommit ops p s = Inr pc" "byHeight_Less c pc" using Cons.prems(3) by auto
  note r = mb_reach_inv[OF Cons.prems(1,2) cP c cs pc Cons.prems(4)[symmetric]]
  let ?t = "mb_reach ops s p f st"
  have a: "fst f \<Longrightarrow> ancestor ops s a p" "snd f \<Longrightarrow> ancestor ops s b p" using Cons.prems(3) by auto
  have tl: "\<forall>p \<in> set ps. (\<exists>pc. readCommit ops p s = Inr pc \<and> byHeight_Less c pc) \<and> (fst f \<longrightarrow> ancestor ops s a p) \<and> (snd f \<longrightarrow> ancestor ops s b p)"
    using Cons.prems(3) by simp
  note ih = Cons.IH[OF r(1)[OF a] r(2)[OF a] tl r(3)[OF a]]
  have "flag_le f (mb_flags (fold (\<lambda>ph. mb_reach ops s ph f) ps ?t) p)" using ih r(5)[OF a] by (auto simp: flag_le_def)
  moreover have "flag_le (mb_flags st h) (mb_flags (fold (\<lambda>ph. mb_reach ops s ph f) ps ?t) h)" for h
    using ih r(4)[OF a, of h] by (auto simp: flag_le_def)
  ultimately show ?case using ih by simp
qed

text \<open>Every ancestor that comes before all those queued is done, with its side's flag.\<close>

lemma mb_before:
  assumes inv: "mb_inv ops s a b P st" and cl: "mb_closed ops s P st"
    and B: "\<And>x y. byHeight_Less x y \<Longrightarrow> B y \<Longrightarrow> B x" "\<And>d. d \<in> set (mb_q st) \<Longrightarrow> \<not> B d"
    and hi: "history ops s r" and side: "r = a \<and> sel = fst \<or> r = b \<and> sel = snd"
  shows "ancestor ops s r d \<Longrightarrow> readCommit ops d s = Inr dc \<Longrightarrow> B dc \<Longrightarrow> d \<in> P \<and> sel (mb_flags st d)"
proof -
  have inP: "d \<in> P" if "sel (mb_flags st d)" "readCommit ops d s = Inr dc" "B dc" for d dc
  proof -
    have "mb_flags st d \<noteq> (False, False)" using that(1) side by auto
    then have "d \<in> P \<or> d \<in> co_Hash ` set (mb_q st)" using inv by (simp add: mb_inv_def)
    moreover have "d \<notin> co_Hash ` set (mb_q st)"
    proof
      assume "d \<in> co_Hash ` set (mb_q st)"
      then obtain e where "e \<in> set (mb_q st)" "co_Hash e = d" by auto
      then show False using inv that(2,3) B(2)[of e] by (auto simp: mb_inv_def)
    qed
    ultimately show ?thesis by blast
  qed
  show "d \<in> P \<and> sel (mb_flags st d)" if "ancestor ops s r d" "readCommit ops d s = Inr dc" "B dc"
    using that unfolding ancestor_def
  proof (induction arbitrary: dc rule: rtranclp_induct)
    case base
    have "sel (mb_flags st r)" using inv side by (auto simp: mb_inv_def)
    then show ?case using inP base by blast
  next
    case (step x d)
    obtain xc where xc: "readCommit ops x s = Inr xc" "d \<in> set (co_Parents xc)" using step.hyps(2) by (auto simp: parent_of_def)
    have "history ops s x" using history_ancestor[OF hi, of x] step.hyps(1) by (simp add: ancestor_def)
    from history_read[OF this] have "co_Height dc < co_Height xc" using xc step.prems(1) by auto
    then have "byHeight_Less xc dc" by (auto simp: byHeight_Less_def)
    then have x: "x \<in> P \<and> sel (mb_flags st x)" using step.IH[OF xc(1)] B(1) step.prems(2) by blast
    then have "flag_le (mb_flags st x) (mb_flags st d)" using cl step.hyps(2) by (simp add: mb_closed_def)
    then have "sel (mb_flags st d)" using x side by (auto simp: flag_le_def)
    then show ?case using inP step.prems by blast
  qed
qed

lemma mb_step_inv:
  assumes inv: "mb_inv ops s a b P st" and cl: "mb_closed ops s P st" and q: "mb_q st \<noteq> []"
    and ha: "history ops s a" and hb: "history ops s b" and pop: "heap_Pop (mb_q st) = (c, q')"
  shows "(\<exists>P'. mb_inv ops s a b P' (mb_step ops s st) \<and> mb_closed ops s P' (mb_step ops s st)) \<or>
    (\<exists>h. mb_res (mb_step ops s st) = Some (Inr h) \<and> best_base ops s a b h)"
    and "mb_flags st (co_Hash c) \<noteq> (False, False)" and "readCommit ops (co_Hash c) s = Inr c"
    and "ancestor ops s a (co_Hash c) \<or> ancestor ops s b (co_Hash c)"
proof -
  let ?h = "co_Hash c" and ?f = "mb_flags st (co_Hash c)"
  have dq: "distinct (map co_Hash (mb_q st))" using inv by (simp add: mb_inv_def)
  note least = heap_Pop_least[OF pop q dq]
  show c: "readCommit ops ?h s = Inr c" and f0: "?f \<noteq> (False, False)" using inv least(1) by (auto simp: mb_inv_def)
  have an: "fst ?f \<Longrightarrow> ancestor ops s a ?h" "snd ?f \<Longrightarrow> ancestor ops s b ?h" using inv by (auto simp: mb_inv_def)
  then show side: "ancestor ops s a ?h \<or> ancestor ops s b ?h" using f0 by (cases ?f) auto
  show "(\<exists>P'. mb_inv ops s a b P' (mb_step ops s st) \<and> mb_closed ops s P' (mb_step ops s st)) \<or>
    (\<exists>h. mb_res (mb_step ops s st) = Some (Inr h) \<and> best_base ops s a b h)"
  proof (cases "?f = (True, True)")
    case True
    have "d = ?h \<or> (\<exists>hc dc. readCommit ops ?h s = Inr hc \<and> readCommit ops d s = Inr dc \<and> byHeight_Less hc dc)"
      if d: "ancestor ops s a d" "ancestor ops s b d" for d
    proof -
      have "history ops s d" using history_ancestor[OF ha d(1)] .
      from history_read[OF this] obtain dc where dc: "readCommit ops d s = Inr dc" by (elim exE conjE)
      have "\<not> byHeight_Less dc c"
      proof
        assume l: "byHeight_Less dc c"
        have nq: "\<not> byHeight_Less e c" if "e \<in> set (mb_q st)" for e
          using least(3)[of e] that byHeight_trans[of e c e] by auto
        have "d \<in> P \<and> fst (mb_flags st d)" "d \<in> P \<and> snd (mb_flags st d)"
          using mb_before[OF inv cl, where B = "\<lambda>x. byHeight_Less x c" and sel = fst, OF byHeight_trans nq ha _ d(1) dc l]
            mb_before[OF inv cl, where B = "\<lambda>x. byHeight_Less x c" and sel = snd, OF byHeight_trans nq hb _ d(2) dc l]
          by simp_all
        then show False using inv by (auto simp: mb_inv_def prod_eq_iff)
      qed
      then show ?thesis using byHeight_total[of c dc] c dc readCommit_Hash[OF dc] by metis
    qed
    then have "best_base ops s a b ?h" using an True by (simp add: best_base_def)
    then show ?thesis using True by (simp add: mb_step_def pop)
  next
    case False
    have hc: "history ops s ?h" using side history_ancestor[OF ha, of ?h] history_ancestor[OF hb, of ?h] by (elim disjE) simp_all
    have ps: "\<forall>p \<in> set (co_Parents c). (\<exists>pc. readCommit ops p s = Inr pc \<and> byHeight_Less c pc) \<and>
        (fst ?f \<longrightarrow> ancestor ops s a p) \<and> (snd ?f \<longrightarrow> ancestor ops s b p)"
    proof
      fix p assume p: "p \<in> set (co_Parents c)"
      then have par: "parent_of ops s ?h p" using c by (auto simp: parent_of_def)
      from history_read[OF history_parent[OF hc par]] obtain pc where pc: "readCommit ops p s = Inr pc" by (elim exE conjE)
      from history_read[OF hc] have "co_Height pc < co_Height c" using c p pc by auto
      then have "byHeight_Less c pc" by (auto simp: byHeight_Less_def)
      then show "(\<exists>pc. readCommit ops p s = Inr pc \<and> byHeight_Less c pc) \<and>
        (fst ?f \<longrightarrow> ancestor ops s a p) \<and> (snd ?f \<longrightarrow> ancestor ops s b p)"
        using pc an ancestor_step[OF _ par] by blast
    qed
    let ?P = "insert ?h P" and ?t = "st\<lparr>mb_q := q'\<rparr>"
    have hP: "?h \<notin> P" using inv least(1) by (auto simp: mb_inv_def)
    have sq: "set q' = set (mb_q st) - {c}" using least(2) dq by (simp add: distinct_map)
    have nh: "?h \<notin> co_Hash ` (set (mb_q st) - {c})" using dq least(1) by (auto simp: distinct_map inj_on_def)
    have cs: "\<forall>x \<in> ?P. \<exists>xc. readCommit ops x s = Inr xc \<and> (xc = c \<or> byHeight_Less xc c)"
      using inv c least(1) by (fastforce simp: mb_inv_def)
    have i0: "mb_inv ops s a b ?P ?t" using inv c False least nh hP
      by (auto simp: mb_inv_def sq distinct_map inj_on_def intro: distinct_remove1)
    have c0: "mb_closed ops s (?P - {?h}) ?t" using cl hP by (auto simp: mb_closed_def)
    have "mb_flags ?t ?h = ?f" by simp
    note r = mb_parents_inv[OF i0 c0 _ c cs ps this]
    let ?u = "fold (\<lambda>ph. mb_reach ops s ph ?f) (co_Parents c) ?t"
    have "mb_closed ops s ?P ?u"
    proof -
      have "flag_le (mb_flags ?u ?h) (mb_flags ?u p)" if "parent_of ops s ?h p" for p
        using r that c by (auto simp: parent_of_def)
      then show ?thesis using r by (auto simp: mb_closed_def)
    qed
    moreover have "mb_step ops s st = ?u" using False by (simp add: mb_step_def pop Let_def)
    ultimately show ?thesis using r by auto
  qed
qed

lemma mb_start_inv:
  assumes "history ops s a" and "history ops s b"
  shows "mb_inv ops s a b {} (mb_start ops s a b)" and "mb_closed ops s {} (mb_start ops s a b)"
proof -
  obtain ac where a: "readCommit ops a s = Inr ac" using history_read[OF assms(1)] by (elim exE conjE)
  obtain bc where b: "readCommit ops b s = Inr bc" using history_read[OF assms(2)] by (elim exE conjE)
  note h = readCommit_Hash[OF a] readCommit_Hash[OF b]
  show "mb_inv ops s a b {} (mb_start ops s a b)"
    using a b h by (cases "a = b") (auto simp: mb_start_def mb_reach_def mb_inv_def flag_or_def)
  show "mb_closed ops s {} (mb_start ops s a b)" by (simp add: mb_closed_def)
qed

lemma mb_loop_found:
  assumes ha: "history ops s a" and hb: "history ops s b"
  shows "\<exists>t. mb_loop ops s (mb_start ops s a b) = Some t \<and>
    ((\<exists>h. mb_res t = Some (Inr h) \<and> best_base ops s a b h) \<or> mb_res t = None \<and> (\<nexists>d. ancestor ops s a d \<and> ancestor ops s b d))"
proof -
  define I where "I st \<longleftrightarrow> (\<exists>P. mb_inv ops s a b P st \<and> mb_closed ops s P st) \<or> (\<exists>h. mb_res st = Some (Inr h) \<and> best_base ops s a b h)" for st
  let ?F = "{h. ancestor ops s a h} \<union> {h. ancestor ops s b h}"
  have fin: "finite ?F" using finite_ancestors[OF ha] finite_ancestors[OF hb] by simp
  have step: "I (mb_step ops s st) \<and> mb_left ops s ?F (mb_step ops s st) < mb_left ops s ?F st" if i: "I st" and b: "mb_res st = None \<and> mb_q st \<noteq> []" for st
  proof -
    obtain P where P: "mb_inv ops s a b P st" "mb_closed ops s P st" using i b by (auto simp: I_def)
    obtain c q where pop: "heap_Pop (mb_q st) = (c, q)" by fastforce
    note r = mb_step_inv[OF P conjunct2[OF b] ha hb pop]
    have "p \<in> ?F" if "p \<in> set (co_Parents c)" for p
    proof -
      have "parent_of ops s (co_Hash c) p" using r(3) that by (auto simp: parent_of_def)
      then show ?thesis using r(4) ancestor_step[of ops s a "co_Hash c" p] ancestor_step[of ops s b "co_Hash c" p] by auto
    qed
    then have "mb_left ops s ?F (mb_step ops s st) < mb_left ops s ?F st"
      by (intro mb_step_left[OF fin conjunct1[OF b] conjunct2[OF b] r(2) pop]) simp
    moreover have "I (mb_step ops s st)" using r(1) unfolding I_def .
    ultimately show ?thesis by simp
  qed
  have i0: "I (mb_start ops s a b)" using mb_start_inv[OF ha hb] unfolding I_def by blast
  obtain t where t: "while_option (\<lambda>st. mb_res st = None \<and> mb_q st \<noteq> []) (mb_step ops s) (mb_start ops s a b) = Some t"
    using measure_while_option_Some[where P = I and f = "mb_left ops s ?F" and b = "\<lambda>st. mb_res st = None \<and> mb_q st \<noteq> []", OF step i0] by auto
  have it: "I t" by (rule while_option_rule[where P = I, OF conjunct1[OF step] t i0])
  have stop: "mb_res t = None \<Longrightarrow> mb_q t = []" using while_option_stop[OF t] by auto
  have none: "\<nexists>d. ancestor ops s a d \<and> ancestor ops s b d" if P: "mb_inv ops s a b P t" "mb_closed ops s P t" for P
  proof
    assume "\<exists>d. ancestor ops s a d \<and> ancestor ops s b d"
    then obtain d where d: "ancestor ops s a d" "ancestor ops s b d" by auto
    obtain dc where dc: "readCommit ops d s = Inr dc" using history_read[OF history_ancestor[OF ha d(1)]] by (elim exE conjE)
    have q: "e \<in> set (mb_q t) \<Longrightarrow> \<not> True" for e using stop P(1) by (simp add: mb_inv_def)
    have "d \<in> P \<and> fst (mb_flags t d)" "d \<in> P \<and> snd (mb_flags t d)"
      using mb_before[OF P, where B = "\<lambda>_. True" and sel = fst, OF _ q ha _ d(1) dc] mb_before[OF P, where B = "\<lambda>_. True" and sel = snd, OF _ q hb _ d(2) dc]
      by simp_all
    then show False using P(1) by (auto simp: mb_inv_def prod_eq_iff)
  qed
  have "(\<exists>h. mb_res t = Some (Inr h) \<and> best_base ops s a b h) \<or> mb_res t = None \<and> (\<nexists>d. ancestor ops s a d \<and> ancestor ops s b d)"
    using it none unfolding I_def by (auto simp: mb_inv_def)
  then show ?thesis using t by (simp add: mb_loop_def)
qed

section \<open>A small history\<close>

definition root_commit :: commit where
  "root_commit = \<lparr>co_Hash = zero_hash, co_Parents = [], co_Namespace = zero_hash, co_Height = 0, co_Time = 0, co_Author = [], co_Message = []\<rparr>"

definition root_store :: memstore where
  "root_store = ms_New\<lparr>ms_chunks := [zero_hash \<mapsto> commit_Encode root_commit], ms_puts := [commit_Encode root_commit]\<rparr>"

lemma root_store_ok: "ms_ok (\<lambda>_. zero_hash) root_store"
  by (auto simp: ms_ok_def root_store_def ms_New_def split: if_splits)

lemma root_history: "history (memstore_ops (\<lambda>_. zero_hash)) root_store zero_hash"
proof -
  let ?o = "memstore_ops (\<lambda>_. zero_hash)"
  have "commit_ok root_commit" by (simp add: commit_ok_def root_commit_def ValidString.simps)
  then have r: "readCommit ?o zero_hash root_store = Inr root_commit"
    by (simp add: readCommit_def memstore_ops_def ms_Get_def root_store_def ms_New_def DecodeCommit_Encode) (simp add: root_commit_def)
  have "h = zero_hash" if "ancestor ?o root_store zero_hash h" for h
    using that unfolding ancestor_def by (induction rule: rtranclp_induct) (auto simp: parent_of_def r root_commit_def)
  moreover have "co_Parents root_commit = []" by (simp add: root_commit_def)
  ultimately show ?thesis unfolding history_def using r by (metis empty_iff list.set(1))
qed

section \<open>Properties\<close>

text \<open>C11. Of two commits whose histories read and rise, the merge base is their highest common ancestor, the one of the
  lower hash on a tie: the walk returns it whenever they have a common ancestor, and refuses when they have none.\<close>

theorem merge_base_highest:
  assumes "history ops s a" and "history ops s b"
  shows "if \<exists>d. ancestor ops s a d \<and> ancestor ops s b d then \<exists>h. r_mergeBase ops a b s = Inr h \<and> best_base ops s a b h
    else r_mergeBase ops a b s = Inl (ErrOther ''vcs: no shared history'')"
  using mb_loop_found[OF assms] by (auto simp: r_mergeBase_def best_base_def)

theorem merge_base_highest_witness:
  "r_mergeBase (memstore_ops (\<lambda>_. zero_hash)) zero_hash zero_hash root_store = Inr zero_hash"
proof -
  have a: "h = zero_hash" if "best_base (memstore_ops (\<lambda>_. zero_hash)) root_store zero_hash zero_hash h" for h
  proof -
    from that have "ancestor (memstore_ops (\<lambda>_. zero_hash)) root_store zero_hash h" by (simp add: best_base_def)
    then obtain c where "readCommit (memstore_ops (\<lambda>_. zero_hash)) h root_store = Inr c" using root_history unfolding history_def by blast
    then show ?thesis by (auto simp: readCommit_def memstore_ops_def ms_Get_def root_store_def result_simps split: if_splits option.splits)
  qed
  have "\<exists>d. ancestor (memstore_ops (\<lambda>_. zero_hash)) root_store zero_hash d \<and> ancestor (memstore_ops (\<lambda>_. zero_hash)) root_store zero_hash d"
    by (intro exI[of _ zero_hash]) simp
  with merge_base_highest[OF root_history root_history] a show ?thesis by auto
qed

text \<open>C12. Finding a merge base ends on every store of chunks in memory, whatever commits were forged into it: no commit is
  queued twice, so cycles and heights that lie cannot keep the walk going.\<close>

theorem merge_base_ends:
  assumes "ms_ok H s"
  shows "\<exists>t. mb_loop (memstore_ops H) s (mb_start (memstore_ops H) s a b) = Some t"
proof -
  let ?o = "memstore_ops H" and ?F = "H ` set (ms_puts s)"
  have F: "h \<in> ?F \<or> (\<exists>e. readCommit ?o h s = Inl e)" for h
    using assms by (cases "ms_chunks s h") (auto simp: readCommit_def memstore_ops_def ms_Get_def ms_ok_def)
  define I where "I st \<longleftrightarrow> (\<forall>c \<in> set (mb_q st). mb_flags st (co_Hash c) \<noteq> (False, False))" for st :: mbstate
  have reach: "I (mb_reach ?o s h f st)" if "I st" "f \<noteq> (False, False)" for h f st
    using that by (auto simp: I_def mb_reach_def flag_or_def prod_eq_iff readCommit_Hash split: sum.splits dest: readCommit_Hash)
  have "I (fold (\<lambda>ph. mb_reach ?o s ph f) ps st)" if "I st" "f \<noteq> (False, False)" for f ps st
    using that by (induction ps arbitrary: st) (auto intro: reach)
  note parents = this
  have step: "I (mb_step ?o s st) \<and> mb_left ?o s ?F (mb_step ?o s st) < mb_left ?o s ?F st" if i: "I st" and b: "mb_res st = None \<and> mb_q st \<noteq> []" for st
  proof -
    obtain c q where pop: "heap_Pop (mb_q st) = (c, q)" by fastforce
    have "c \<in> set (mb_q st)" "set q \<subseteq> set (mb_q st)" using pop b heap_first_mem[of "hd (mb_q st)" "tl (mb_q st)"]
      by (auto simp: heap_Pop_def Let_def dest: set_remove1_subset[THEN subsetD])
    then have f: "mb_flags st (co_Hash c) \<noteq> (False, False)" and iq: "I (st\<lparr>mb_q := q, mb_res := r\<rparr>)" for r using i by (auto simp: I_def)
    have "I (mb_step ?o s st)" using parents[OF iq[of "mb_res st"] f] iq by (simp add: mb_step_def pop Let_def)
    then show ?thesis using mb_step_left[OF _ conjunct1[OF b] conjunct2[OF b] f pop F] by simp
  qed
  have "I (mb_start ?o s a b)" unfolding mb_start_def by (intro reach) (simp_all add: I_def)
  from measure_while_option_Some[where P = I and b = "\<lambda>st. mb_res st = None \<and> mb_q st \<noteq> []", OF step this] show ?thesis by (simp add: mb_loop_def)
qed

theorem merge_base_ends_witness:
  "\<exists>t. mb_loop (memstore_ops (\<lambda>_. zero_hash)) root_store (mb_start (memstore_ops (\<lambda>_. zero_hash)) root_store zero_hash zero_hash) = Some t"
  by (rule merge_base_ends[OF root_store_ok])

end
