(* ===== verification/VcsWalk.thy ===== *)
theory VcsWalk
  imports VcsGraph
begin

text \<open>
  \<^verbatim>\<open>core/vcs/walk.go\<close>: every chunk a repository reaches. The walker's own state, the commits named
  but not read and the graph's chunks read so far, is carried beside the visitor's.
\<close>

record 'v vwalk =
  vw_v :: 'v
  vw_commits :: "hash list"
  vw_kinds :: "hash \<rightharpoonup> byte"

definition vw_visit :: "(hash \<Rightarrow> bool \<Rightarrow> ('v, bool) comp) \<Rightarrow> hash \<Rightarrow> bool \<Rightarrow> ('v vwalk, bool) comp" where
  "vw_visit visit h leaf w = (case visit h leaf (vw_v w) of (r, v) \<Rightarrow> (r, w\<lparr>vw_v := v\<rparr>))"

definition vw_push :: "hash list \<Rightarrow> ('v vwalk, unit) comp" where
  "vw_push hs w = (Inr (), w\<lparr>vw_commits := vw_commits w @ hs\<rparr>)"

definition vw_enter :: "('s, 'z) rw_scheme \<Rightarrow> 's \<Rightarrow> (hash \<Rightarrow> bool \<Rightarrow> ('v, bool) comp) \<Rightarrow> hash \<Rightarrow> byte \<Rightarrow> ('v vwalk, bytes option) comp" where
  "vw_enter ops s visit h kind w =
     (case vw_kinds w h of
        Some k \<Rightarrow> (if k \<noteq> kind then Inl ErrChunkCorrupt else Inr None, w)
      | None \<Rightarrow>
          sbind (vw_visit visit h False) (\<lambda>_.
          sbind (slift (rw_Get ops s h)) (\<lambda>b. sret (Some b))) (w\<lparr>vw_kinds := (vw_kinds w)(h \<mapsto> kind)\<rparr>))"

definition vw_namespace :: "(nat \<Rightarrow> nat) \<Rightarrow> ('s, 'z) rw_scheme \<Rightarrow> 's \<Rightarrow> pconfig \<Rightarrow> ('s, 'v vwalk) registry \<Rightarrow>
    (hash \<Rightarrow> bool \<Rightarrow> ('v, bool) comp) \<Rightarrow> hash \<Rightarrow> ('v vwalk, unit) comp" where
  "vw_namespace grow ops s c reg visit root = ns_Walk grow ops s c (Some reg) root (vw_visit visit)"

definition vw_tag :: "('s, 'z) rw_scheme \<Rightarrow> 's \<Rightarrow> (hash \<Rightarrow> bool \<Rightarrow> ('v, bool) comp) \<Rightarrow> hash \<Rightarrow> ('v vwalk, unit) comp" where
  "vw_tag ops s visit h =
     sbind (vw_enter ops s visit h kindTag) (\<lambda>b.
       case b of
         None \<Rightarrow> sret ()
       | Some b \<Rightarrow> sbind (slift (decodeTag b)) (\<lambda>t. vw_push [tg_Target t]))"

text \<open>What a conflict record names: the objects of its sides.\<close>

definition vw_conflict :: "'s \<Rightarrow> ('s, 'v vwalk) registry \<Rightarrow> (hash \<Rightarrow> bool \<Rightarrow> ('v, bool) comp) \<Rightarrow> bytes \<Rightarrow> bytes \<Rightarrow> ('v vwalk, unit) comp" where
  "vw_conflict s reg visit key val =
     sbind (slift (decodeConflict key val)) (\<lambda>c.
       sfold (\<lambda>side _. if side = zero_ref then sret () else WalkRef s reg side (vw_visit visit))
         [xc_Base c, xc_Ours c, xc_Theirs c] ())"

definition vw_workingSet :: "(nat \<Rightarrow> nat) \<Rightarrow> ('s, 'z) rw_scheme \<Rightarrow> 's \<Rightarrow> pconfig \<Rightarrow> ('s, 'v vwalk) registry \<Rightarrow>
    (hash \<Rightarrow> bool \<Rightarrow> ('v, bool) comp) \<Rightarrow> hash \<Rightarrow> ('v vwalk, unit) comp" where
  "vw_workingSet grow ops s c reg visit h =
     sbind (vw_enter ops s visit h kindWorkingSet) (\<lambda>b.
       case b of
         None \<Rightarrow> sret ()
       | Some b \<Rightarrow>
           sbind (slift (decodeWorkingSet b)) (\<lambda>ws.
           sbind (sfold (\<lambda>ns _. vw_namespace grow ops s c reg visit ns) [ws_Working ws, ws_Staged ws] ()) (\<lambda>_.
             case ws_Merge ws of
               None \<Rightarrow> sret ()
             | Some mg \<Rightarrow>
                 sbind (sfold (\<lambda>ns _. vw_namespace grow ops s c reg visit ns) [me_PreWorking mg, me_PreStaged mg] ()) (\<lambda>_.
                 sbind (vw_push [me_Base mg, me_Theirs mg]) (\<lambda>_.
                   m_Walk grow ops s (conflictsMap c) (me_Conflicts mg) (vw_visit visit) (Some (vw_conflict s reg visit)))))))"

text \<open>One commit off the stack.\<close>

definition vw_commit :: "(nat \<Rightarrow> nat) \<Rightarrow> ('s, 'z) rw_scheme \<Rightarrow> 's \<Rightarrow> pconfig \<Rightarrow> ('s, 'v vwalk) registry \<Rightarrow>
    (hash \<Rightarrow> bool \<Rightarrow> ('v, bool) comp) \<Rightarrow> ('v vwalk, unit) comp" where
  "vw_commit grow ops s c reg visit w =
     (let h = last (vw_commits w) in
      sbind (vw_enter ops s visit h kindCommit) (\<lambda>b.
        case b of
          None \<Rightarrow> sret ()
        | Some b \<Rightarrow>
            sbind (slift (DecodeCommit b)) (\<lambda>co.
            sbind (vw_namespace grow ops s c reg visit (co_Namespace co)) (\<lambda>_. vw_push (co_Parents co))))
        (w\<lparr>vw_commits := butlast (vw_commits w)\<rparr>))"

text \<open>The loop of \<^verbatim>\<open>history\<close>; it need not end on a store of infinitely many commits.\<close>

definition vw_history :: "(nat \<Rightarrow> nat) \<Rightarrow> ('s, 'z) rw_scheme \<Rightarrow> 's \<Rightarrow> pconfig \<Rightarrow> ('s, 'v vwalk) registry \<Rightarrow>
    (hash \<Rightarrow> bool \<Rightarrow> ('v, bool) comp) \<Rightarrow> ('v vwalk, unit) comp" where
  "vw_history grow ops s c reg visit w =
     (case while_option (\<lambda>(r, w). r = Inr () \<and> vw_commits w \<noteq> []) (\<lambda>(r, w). vw_commit grow ops s c reg visit w) (Inr (), w) of
        None \<Rightarrow> (Inl (ErrOther ''does not return''), w)
      | Some rw \<Rightarrow> rw)"

text \<open>What a ref names, by its prefix.\<close>

definition vw_ref :: "(nat \<Rightarrow> nat) \<Rightarrow> ('s, 'z) rw_scheme \<Rightarrow> 's \<Rightarrow> pconfig \<Rightarrow> ('s, 'v vwalk) registry \<Rightarrow>
    (hash \<Rightarrow> bool \<Rightarrow> ('v, bool) comp) \<Rightarrow> bytes \<Rightarrow> bytes \<Rightarrow> ('v vwalk, unit) comp" where
  "vw_ref grow ops s c reg visit key val =
     (if length val \<noteq> 32 then sfail ErrChunkCorrupt
      else let h = copy_hash val in
        if HasPrefix key (ascii ''heads/'') then vw_push [h]
        else if HasPrefix key (ascii ''tags/'') then vw_tag ops s visit h
        else if HasPrefix key (ascii ''work/'') then vw_workingSet grow ops s c reg visit h
        else sfail ErrChunkCorrupt)"

definition vcs_Walk :: "(nat \<Rightarrow> nat) \<Rightarrow> ('s, 'z) rw_scheme \<Rightarrow> 's \<Rightarrow> pconfig \<Rightarrow> ('s, 'v vwalk) registry \<Rightarrow> hash \<Rightarrow>
    (hash \<Rightarrow> bool \<Rightarrow> ('v, bool) comp) \<Rightarrow> ('v, unit) comp" where
  "vcs_Walk grow ops s c reg root visit v =
     (case sbind (m_Walk grow ops s (refsMap c) root (vw_visit visit) (Some (vw_ref grow ops s c reg visit)))
             (\<lambda>_. vw_history grow ops s c reg visit) \<lparr>vw_v = v, vw_commits = [], vw_kinds = Map.empty\<rparr> of
        (r, w) \<Rightarrow> (r, vw_v w))"

end
