(* ===== verification/Blob.thy ===== *)
theory Blob
  imports Hash
begin

text \<open>
  \<^verbatim>\<open>core/blob\<close> (\<^verbatim>\<open>port.go\<close>, \<^verbatim>\<open>helpers.go\<close>, \<^verbatim>\<open>journal.go\<close>): the backend port, the checks every backend
  applies, the name grammar and the wrapper without deletes. The port is a record of methods over
  the backend's state; what it promises is the locale \<open>blob_store\<close>, whose lemmas hold for every
  backend with those laws. An object handed out by \<^verbatim>\<open>Get\<close> is the reader the caller drains.
\<close>

section \<open>Limits and names\<close>

abbreviation bs_MaxNameLen :: nat where "bs_MaxNameLen \<equiv> 512"
abbreviation bs_MaxSegmentLen :: nat where "bs_MaxSegmentLen \<equiv> 128"
abbreviation bs_MaxDepth :: nat where "bs_MaxDepth \<equiv> 8"
abbreviation MaxListPage :: nat where "MaxListPage \<equiv> 1000"
abbreviation MaxObjectSize :: int where "MaxObjectSize \<equiv> 5 * 2 ^ 30"
abbreviation MaxRootSize :: nat where "MaxRootSize \<equiv> 4 * 2 ^ 20"

definition segment_byte :: "byte \<Rightarrow> bool" where
  "segment_byte c \<longleftrightarrow> \<not> ((c < 0x61 \<or> c > 0x7A) \<and> (c < 0x30 \<or> c > 0x39) \<and> c \<noteq> 0x2E \<and> c \<noteq> 0x5F \<and> c \<noteq> 0x2D)"

definition validSegment :: "bytes \<Rightarrow> unit result" where
  "validSegment seg =
     (if length seg = 0 \<or> length seg > bs_MaxSegmentLen then Inl ErrBlobInvalidName
      else if hd seg = 0x2E then Inl ErrBlobInvalidName
      else if list_ex (\<lambda>c. \<not> segment_byte c) seg then Inl ErrBlobInvalidName
      else Inr ())"

fun validSegments :: "bytes list \<Rightarrow> unit result" where
  "validSegments [] = Inr ()"
| "validSegments (seg # segs) = rbind (validSegment seg) (\<lambda>_. validSegments segs)"

definition bs_ValidName :: "bytes \<Rightarrow> unit result" where
  "bs_ValidName name =
     (if length name = 0 \<or> length name > bs_MaxNameLen then Inl ErrBlobInvalidName
      else let segs = split_at 0x2F name in
        if length segs > bs_MaxDepth then Inl ErrBlobInvalidName else validSegments segs)"

text \<open>\<^verbatim>\<open>strings.TrimSuffix(s, "/")\<close>\<close>

definition trim_slash :: "bytes \<Rightarrow> bytes" where
  "trim_slash p = (if p \<noteq> [] \<and> last p = 0x2F then butlast p else p)"

definition ValidPrefix :: "bytes \<Rightarrow> unit result" where
  "ValidPrefix p = (if p = [] then Inr () else bs_ValidName (trim_slash p))"

section \<open>Checks\<close>

definition CheckPut :: "bytes \<Rightarrow> int \<Rightarrow> unit result" where
  "CheckPut name sz =
     rbind (bs_ValidName name) (\<lambda>_.
       if sz < 0 then Inl ErrBlobSizeMismatch
       else if sz > MaxObjectSize then Inl ErrBlobTooLarge
       else Inr ())"

definition CopyExact :: "rdr \<Rightarrow> int \<Rightarrow> bytes result" where
  "CopyExact src sz =
     (let ((b, e), src) = rdr_upto (nat sz) src in
      if length b < nat sz
      then Inl (case e of None \<Rightarrow> ErrBlobSizeMismatch | Some _ \<Rightarrow> ErrOther ''reading the body'')
      else let (m, e) = rdr_one src in
        if m \<noteq> [] then Inl ErrBlobSizeMismatch
        else if e \<noteq> None \<and> e \<noteq> Some EOF then Inl (ErrOther ''reading the body'')
        else Inr b)"

definition bs_Range :: "int \<Rightarrow> int \<Rightarrow> int \<Rightarrow> (int \<times> int) result" where
  "bs_Range off n sz =
     (if off < 0 \<or> n < -1 \<or> off > sz then Inl ErrBlobInvalidRange
      else let len = sz - off in Inr (off, if n \<ge> 0 \<and> n < len then n else len))"

definition CheckList :: "bytes \<Rightarrow> int \<Rightarrow> unit result" where
  "CheckList prefix limit =
     rbind (ValidPrefix prefix) (\<lambda>_.
       if limit < 1 \<or> limit > int MaxListPage then Inl ErrBlobInvalidLimit else Inr ())"

definition CheckRootValue :: "bytes \<Rightarrow> unit result" where
  "CheckRootValue nxt =
     (if length nxt = 0 then Inl ErrBlobEmptyRoot
      else if length nxt > MaxRootSize then Inl ErrBlobTooLarge
      else Inr ())"

section \<open>The port\<close>

record info =
  bi_Name :: bytes
  bi_Size :: int
  bi_ModTime :: int

type_synonym version = bytes

abbreviation NoVersion :: version where
  "NoVersion \<equiv> []"

text \<open>\<^verbatim>\<open>NewVersion\<close>; \<open>rnd\<close> is what \<^verbatim>\<open>crypto/rand\<close> gave, 16 bytes or a failure.\<close>

definition NewVersion :: "bytes option \<Rightarrow> version result" where
  "NewVersion rnd = (case rnd of None \<Rightarrow> Inl (ErrOther ''crypto/rand'') | Some b \<Rightarrow> Inr (hex_encode b))"

record broot =
  rt_Value :: bytes
  rt_Version :: version

record 's blobs =
  bs_Put :: "bytes \<Rightarrow> rdr \<Rightarrow> int \<Rightarrow> ('s, unit) comp"
  bs_Get :: "bytes \<Rightarrow> int \<Rightarrow> int \<Rightarrow> ('s, rdr) comp"
  bs_Stat :: "bytes \<Rightarrow> ('s, info) comp"
  bs_List :: "bytes \<Rightarrow> bytes \<Rightarrow> int \<Rightarrow> ('s, info list) comp"
  bs_Delete :: "bytes \<Rightarrow> ('s, unit) comp"
  bs_Root :: "('s, broot) comp"
  bs_SwapRoot :: "version \<Rightarrow> bytes \<Rightarrow> ('s, version) comp"

text \<open>The optional journal: an open one is named by its handle, a hold by its ticket.\<close>

record 's journaler = "'s blobs" +
  jn_OpenJournal :: "('s, nat) comp"
  jn_HoldJournal :: "('s, int \<times> nat) comp"
  jn_release :: "nat \<Rightarrow> ('s, unit) comp"
  jn_ByDefault :: bool
  jn_Read :: "nat \<Rightarrow> int \<Rightarrow> ('s, bytes) comp"
  jn_Append :: "nat \<Rightarrow> bytes \<Rightarrow> ('s, unit) comp"
  jn_Write :: "nat \<Rightarrow> bytes \<Rightarrow> ('s, unit) comp"
  jn_Sync :: "nat \<Rightarrow> ('s, unit) comp"
  jn_Rotate :: "nat \<Rightarrow> ('s, unit) comp"
  jn_Drop :: "nat \<Rightarrow> ('s, unit) comp"
  jn_Reset :: "nat \<Rightarrow> ('s, unit) comp"
  jn_Close :: "nat \<Rightarrow> ('s, unit) comp"

text \<open>The wrapper changes one method and keeps the rest, the journal included.\<close>

definition NoDelete :: "('s, 'z) blobs_scheme \<Rightarrow> ('s, 'z) blobs_scheme" where
  "NoDelete ops = ops\<lparr>bs_Delete := \<lambda>_. sfail ErrDeleteForbidden\<rparr>"

section \<open>The contract\<close>

text \<open>
  What every backend promises, over the objects it shows, their stamps and its root: an object is
  stored whole or not at all and never replaced, a range is cut at the end, a listing is the names
  after a place in byte order, and the root changes only by a swap that names its version.
\<close>

definition object_range :: "bytes \<Rightarrow> int \<Rightarrow> int \<Rightarrow> bytes result" where
  "object_range b off n =
     rbind (bs_Range off n (int (length b))) (\<lambda>(start, len). Inr (take (nat len) (drop (nat start) b)))"

text \<open>\<^verbatim>\<open>strings.HasPrefix\<close>\<close>

definition has_prefix :: "bytes \<Rightarrow> bytes \<Rightarrow> bool" where
  "has_prefix p name \<longleftrightarrow> take (length p) name = p"

locale blob_store =
  fixes ops :: "('s, 'z) blobs_scheme"
    and ok :: "'s \<Rightarrow> bool"
    and objects :: "'s \<Rightarrow> bytes \<rightharpoonup> bytes"
    and stamp :: "'s \<Rightarrow> bytes \<Rightarrow> int"
    and rootof :: "'s \<Rightarrow> broot"
  assumes finite_objects: "ok s \<Longrightarrow> finite (dom (objects s))"
    and put_new: "ok s \<Longrightarrow> CheckPut name sz = Inr () \<Longrightarrow> CopyExact r sz = Inr b \<Longrightarrow> objects s name = None \<Longrightarrow>
      \<exists>s'. bs_Put ops name r sz s = (Inr (), s') \<and> ok s' \<and> objects s' = (objects s)(name \<mapsto> b) \<and> rootof s' = rootof s \<and>
        (\<forall>n. n \<noteq> name \<longrightarrow> stamp s' n = stamp s n)"
    and put_exists: "ok s \<Longrightarrow> CheckPut name sz = Inr () \<Longrightarrow> CopyExact r sz = Inr b \<Longrightarrow> objects s name \<noteq> None \<Longrightarrow>
      bs_Put ops name r sz s = (Inl ErrBlobExists, s)"
    and put_bad: "ok s \<Longrightarrow> CheckPut name sz \<noteq> Inr () \<or> (\<forall>b. CopyExact r sz \<noteq> Inr b) \<Longrightarrow> \<exists>e. bs_Put ops name r sz s = (Inl e, s)"
    and get_eq: "ok s \<Longrightarrow> bs_ValidName name = Inr () \<Longrightarrow> bs_Get ops name off n s =
      ((case objects s name of None \<Rightarrow> Inl ErrBlobNotFound | Some b \<Rightarrow> rbind (object_range b off n) (\<lambda>b. Inr (bytes_rdr b))), s)"
    and stat_eq: "ok s \<Longrightarrow> bs_ValidName name = Inr () \<Longrightarrow> bs_Stat ops name s =
      ((case objects s name of None \<Rightarrow> Inl ErrBlobNotFound
        | Some b \<Rightarrow> Inr \<lparr>bi_Name = name, bi_Size = int (length b), bi_ModTime = stamp s name\<rparr>), s)"
    and list_eq: "ok s \<Longrightarrow> CheckList prefix limit = Inr () \<Longrightarrow> bs_List ops prefix after limit s =
      (Inr (map (\<lambda>name. \<lparr>bi_Name = name, bi_Size = int (length (the (objects s name))), bi_ModTime = stamp s name\<rparr>)
         (take (nat limit) (sorted_list_of_set {name \<in> dom (objects s). has_prefix prefix name \<and> after < name}))), s)"
    and delete_eq: "ok s \<Longrightarrow> bs_ValidName name = Inr () \<Longrightarrow> \<exists>s'. bs_Delete ops name s = (Inr (), s') \<and> ok s' \<and>
      objects s' = (objects s)(name := None) \<and> rootof s' = rootof s \<and> (\<forall>n. n \<noteq> name \<longrightarrow> stamp s' n = stamp s n)"
    and root_eq: "ok s \<Longrightarrow> bs_Root ops s = (Inr (rootof s), s)"
    and swap_Inr: "ok s \<Longrightarrow> bs_SwapRoot ops v nxt s = (Inr v', s') \<Longrightarrow> CheckRootValue nxt = Inr () \<and> rt_Version (rootof s) = v \<and>
      rootof s' = \<lparr>rt_Value = nxt, rt_Version = v'\<rparr> \<and> objects s' = objects s \<and> stamp s' = stamp s \<and> ok s' \<and> v' \<noteq> NoVersion"
    and swap_Inl: "ok s \<Longrightarrow> bs_SwapRoot ops v nxt s = (Inl e, s') \<Longrightarrow> rootof s' = rootof s \<and> objects s' = objects s \<and>
      stamp s' = stamp s \<and> ok s'"
    and swap_conflict: "ok s \<Longrightarrow> bs_SwapRoot ops v nxt s = (Inl ErrBlobRootConflict, s') \<Longrightarrow> rt_Version (rootof s) \<noteq> v"
begin

text \<open>Reading back what was put.\<close>

lemma put_get:
  assumes "ok s" and "CheckPut name sz = Inr ()" and "CopyExact r sz = Inr b" and "objects s name = None"
  shows "\<exists>s'. bs_Put ops name r sz s = (Inr (), s') \<and> bs_Get ops name 0 (-1) s' = (Inr (bytes_rdr b), s')"
proof -
  obtain s' where s': "bs_Put ops name r sz s = (Inr (), s')" "ok s'" "objects s' = (objects s)(name \<mapsto> b)"
    using put_new[OF assms] by blast
  have "bs_ValidName name = Inr ()" using assms(2) by (auto simp: CheckPut_def rbind_Inr_iff)
  then show ?thesis using s' get_eq[OF s'(2)] by (auto simp: object_range_def bs_Range_def)
qed

end

end
