(* ===== verification/BlobMem.thy ===== *)
theory BlobMem
  imports Blob "HOL-Library.AList"
begin

text \<open>
  \<^verbatim>\<open>core/blob/mem\<close>: the in-memory backend, which defines the contract the others follow. The Go map of
  objects is an association list with one entry a name. What the clock and \<^verbatim>\<open>crypto/rand\<close> will give is
  part of the state, with how often each was asked. An open journal is named by its place among the
  handles ever given out, a hold by its place among the holds, so that using a closed handle or
  releasing a hold twice is expressed as in the source.
\<close>

record memblob =
  mb_objects :: "(bytes \<times> bytes \<times> int) list"
  mb_root :: bytes
  mb_version :: version
  mb_mirror :: bytes
  mb_jsegs :: "bytes list"
  mb_jopen :: bool
  mb_jholds :: nat
  mb_closed :: "bool list"
  mb_released :: "bool list"
  mb_clock :: "nat \<Rightarrow> int"
  mb_ticks :: nat
  mb_rand :: "nat \<Rightarrow> bytes option"
  mb_draws :: nat

definition mb_New :: "(nat \<Rightarrow> int) \<Rightarrow> (nat \<Rightarrow> bytes option) \<Rightarrow> memblob" where
  "mb_New clock rnd = \<lparr>mb_objects = [], mb_root = [], mb_version = NoVersion, mb_mirror = [], mb_jsegs = [], mb_jopen = False,
     mb_jholds = 0, mb_closed = [], mb_released = [], mb_clock = clock, mb_ticks = 0, mb_rand = rnd, mb_draws = 0\<rparr>"

section \<open>Objects and root\<close>

definition mb_Put :: "bytes \<Rightarrow> rdr \<Rightarrow> int \<Rightarrow> (memblob, unit) comp" where
  "mb_Put name r sz s =
     (case rbind (CheckPut name sz) (\<lambda>_. CopyExact r sz) of
        Inl e \<Rightarrow> (Inl e, s)
      | Inr b \<Rightarrow>
          if map_of (mb_objects s) name \<noteq> None then (Inl ErrBlobExists, s)
          else (Inr (), s\<lparr>mb_objects := AList.update name (b, mb_clock s (mb_ticks s)) (mb_objects s), mb_ticks := Suc (mb_ticks s)\<rparr>))"

definition mb_Get :: "bytes \<Rightarrow> int \<Rightarrow> int \<Rightarrow> (memblob, rdr) comp" where
  "mb_Get name off n s =
     (rbind (bs_ValidName name) (\<lambda>_.
      case map_of (mb_objects s) name of
        None \<Rightarrow> Inl ErrBlobNotFound
      | Some (b, _) \<Rightarrow>
          rbind (bs_Range off n (int (length b))) (\<lambda>(start, len). Inr (bytes_rdr (take (nat len) (drop (nat start) b))))), s)"

definition mb_info :: "bytes \<times> bytes \<times> int \<Rightarrow> info" where
  "mb_info = (\<lambda>(name, b, at). \<lparr>bi_Name = name, bi_Size = int (length b), bi_ModTime = at\<rparr>)"

definition mb_Stat :: "bytes \<Rightarrow> (memblob, info) comp" where
  "mb_Stat name s =
     (rbind (bs_ValidName name) (\<lambda>_.
      case map_of (mb_objects s) name of None \<Rightarrow> Inl ErrBlobNotFound | Some o' \<Rightarrow> Inr (mb_info (name, o'))), s)"

definition mb_List :: "bytes \<Rightarrow> bytes \<Rightarrow> int \<Rightarrow> (memblob, info list) comp" where
  "mb_List prefix after limit s =
     (rbind (CheckList prefix limit) (\<lambda>_.
        let infos = map mb_info (filter (\<lambda>(name, _). has_prefix prefix name \<and> name > after) (mb_objects s));
            infos = sort_key bi_Name infos in
        Inr (if int (length infos) > limit then take (nat limit) infos else infos)), s)"

definition mb_Delete :: "bytes \<Rightarrow> (memblob, unit) comp" where
  "mb_Delete name s =
     (case bs_ValidName name of
        Inl e \<Rightarrow> (Inl e, s)
      | Inr _ \<Rightarrow> (Inr (), s\<lparr>mb_objects := AList.delete name (mb_objects s)\<rparr>))"

definition mb_Root :: "(memblob, broot) comp" where
  "mb_Root s = (Inr \<lparr>rt_Value = mb_root s, rt_Version = mb_version s\<rparr>, s)"

definition mb_SwapRoot :: "version \<Rightarrow> bytes \<Rightarrow> (memblob, version) comp" where
  "mb_SwapRoot expected nxt s =
     (case CheckRootValue nxt of
        Inl e \<Rightarrow> (Inl e, s)
      | Inr _ \<Rightarrow>
          let rnd = mb_rand s (mb_draws s); s = s\<lparr>mb_draws := Suc (mb_draws s)\<rparr> in
          case NewVersion rnd of
            Inl e \<Rightarrow> (Inl e, s)
          | Inr v \<Rightarrow>
              if mb_version s \<noteq> expected then (Inl ErrBlobRootConflict, s)
              else (Inr v, s\<lparr>mb_root := nxt, mb_version := v\<rparr>))"

definition mb_WriteMirror :: "bytes \<Rightarrow> (memblob, unit) comp" where
  "mb_WriteMirror value s =
     (case CheckRootValue value of Inl e \<Rightarrow> (Inl e, s) | Inr _ \<Rightarrow> (Inr (), s\<lparr>mb_mirror := value\<rparr>))"

definition mb_ReadMirror :: "(memblob, bytes) comp" where
  "mb_ReadMirror s = (Inr (mb_mirror s), s)"

section \<open>The journal\<close>

definition journalLocked :: "memblob \<Rightarrow> bytes" where
  "journalLocked s = concat (mb_jsegs s)"

definition mb_OpenJournal :: "(memblob, nat) comp" where
  "mb_OpenJournal s =
     (if mb_jopen s \<or> mb_jholds s > 0 then (Inl ErrJournalBusy, s)
      else (Inr (length (mb_closed s)), s\<lparr>mb_jopen := True, mb_closed := mb_closed s @ [False]\<rparr>))"

definition mb_HoldJournal :: "(memblob, int \<times> nat) comp" where
  "mb_HoldJournal s =
     (if mb_jopen s then (Inl ErrJournalBusy, s)
      else (Inr (int (length (journalLocked s)), length (mb_released s)),
            s\<lparr>mb_jholds := Suc (mb_jholds s), mb_released := mb_released s @ [False]\<rparr>))"

definition mb_release :: "nat \<Rightarrow> (memblob, unit) comp" where
  "mb_release t s =
     (Inr (), if mb_released s ! t then s else s\<lparr>mb_jholds := mb_jholds s - 1, mb_released := (mb_released s)[t := True]\<rparr>)"

text \<open>A method of an open journal: every one but \<^verbatim>\<open>Close\<close> fails on a closed handle.\<close>

definition j_open :: "nat \<Rightarrow> (memblob, 'a) comp \<Rightarrow> (memblob, 'a) comp" where
  "j_open j f s = (if mb_closed s ! j then (Inl ErrJournalClosed, s) else f s)"

definition mj_Read :: "nat \<Rightarrow> int \<Rightarrow> (memblob, bytes) comp" where
  "mj_Read j limit = j_open j (\<lambda>s.
     if int (length (journalLocked s)) > limit then (Inl ErrBlobTooLarge, s) else (Inr (journalLocked s), s))"

definition mj_Append :: "nat \<Rightarrow> bytes \<Rightarrow> (memblob, unit) comp" where
  "mj_Append j b = j_open j (\<lambda>s.
     let segs = (if mb_jsegs s = [] then [[]] else mb_jsegs s) in
     (Inr (), s\<lparr>mb_jsegs := butlast segs @ [last segs @ b]\<rparr>))"

definition mj_Reset :: "nat \<Rightarrow> (memblob, unit) comp" where
  "mj_Reset j = j_open j (\<lambda>s. (Inr (), s\<lparr>mb_jsegs := []\<rparr>))"

definition mj_Close :: "nat \<Rightarrow> (memblob, unit) comp" where
  "mj_Close j s = (Inr (), if mb_closed s ! j then s else s\<lparr>mb_closed := (mb_closed s)[j := True], mb_jopen := False\<rparr>)"

definition mj_Write :: "nat \<Rightarrow> bytes \<Rightarrow> (memblob, unit) comp" where
  "mj_Write j b = mj_Append j b"

definition mj_Sync :: "nat \<Rightarrow> (memblob, unit) comp" where
  "mj_Sync j = j_open j (\<lambda>s. (Inr (), s))"

definition mj_Rotate :: "nat \<Rightarrow> (memblob, unit) comp" where
  "mj_Rotate j = j_open j (\<lambda>s. (Inr (), s\<lparr>mb_jsegs := mb_jsegs s @ [[]]\<rparr>))"

definition mj_Drop :: "nat \<Rightarrow> (memblob, unit) comp" where
  "mj_Drop j = j_open j (\<lambda>s.
     let n = length (mb_jsegs s) in
     (Inr (), if n > 1 then s\<lparr>mb_jsegs := drop (n - 1) (mb_jsegs s)\<rparr> else s))"

definition memblob_ops :: "memblob journaler" where
  "memblob_ops = \<lparr>bs_Put = mb_Put, bs_Get = mb_Get, bs_Stat = mb_Stat, bs_List = mb_List, bs_Delete = mb_Delete,
     bs_Root = mb_Root, bs_SwapRoot = mb_SwapRoot, jn_OpenJournal = mb_OpenJournal, jn_HoldJournal = mb_HoldJournal,
     jn_release = mb_release, jn_ByDefault = False, jn_Read = mj_Read, jn_Append = mj_Append, jn_Write = mj_Write,
     jn_Sync = mj_Sync, jn_Rotate = mj_Rotate, jn_Drop = mj_Drop, jn_Reset = mj_Reset, jn_Close = mj_Close\<rparr>"

section \<open>The store keeps the contract\<close>

text \<open>One entry a name, and tokens of 16 bytes never given twice, the current version among those given.\<close>

definition mb_ok :: "memblob \<Rightarrow> bool" where
  "mb_ok s \<longleftrightarrow> distinct (map fst (mb_objects s)) \<and> (\<forall>n b. mb_rand s n = Some b \<longrightarrow> length b = 16) \<and>
     inj_on (mb_rand s) {n. mb_rand s n \<noteq> None} \<and>
     (mb_version s = NoVersion \<or> (\<exists>n b. n < mb_draws s \<and> mb_rand s n = Some b \<and> mb_version s = hex_encode b))"

definition mb_view :: "memblob \<Rightarrow> bytes \<rightharpoonup> bytes" where
  "mb_view s name = map_option fst (map_of (mb_objects s) name)"

definition mb_stamp :: "memblob \<Rightarrow> bytes \<Rightarrow> int" where
  "mb_stamp s name = (case map_of (mb_objects s) name of None \<Rightarrow> 0 | Some o' \<Rightarrow> snd o')"

definition mb_rootof :: "memblob \<Rightarrow> broot" where
  "mb_rootof s = \<lparr>rt_Value = mb_root s, rt_Version = mb_version s\<rparr>"

text \<open>A listing of an association list with one entry a name.\<close>

lemma mb_listed:
  assumes "distinct (map fst (mb_objects s))"
  shows "sort_key bi_Name (map mb_info (filter (\<lambda>(name, _). P name) (mb_objects s))) =
    map (\<lambda>name. \<lparr>bi_Name = name, bi_Size = int (length (the (mb_view s name))), bi_ModTime = mb_stamp s name\<rparr>)
      (sorted_list_of_set {name \<in> dom (mb_view s). P name})"
    (is "sort_key bi_Name ?is = map ?f ?ns")
proof -
  have dom: "{name \<in> dom (mb_view s). P name} = set (map fst (filter (\<lambda>(name, _). P name) (mb_objects s)))"
    by (force simp: mb_view_def dom_def map_of_eq_None_iff dest: map_of_SomeD)
  have d: "distinct (map fst (filter (\<lambda>(name, _). P name) (mb_objects s)))" using assms by (simp add: distinct_map_filter)
  have infos: "?is = map ?f (map fst (filter (\<lambda>(name, _). P name) (mb_objects s)))"
    using assms by (auto simp: mb_info_def mb_view_def mb_stamp_def map_of_is_SomeI)
  have k: "map bi_Name ?is = map fst (filter (\<lambda>(name, _). P name) (mb_objects s))"
    by (auto simp: mb_info_def)
  have "map bi_Name (sort_key bi_Name ?is) = ?ns"
    unfolding dom
  proof (rule sorted_distinct_set_unique)
    show "distinct (map bi_Name (sort_key bi_Name ?is))" using d unfolding k[symmetric] by (simp only: distinct_map distinct_sort set_sort)
    show "set (map bi_Name (sort_key bi_Name ?is)) = set (sorted_list_of_set (set (map fst (filter (\<lambda>(name, _). P name) (mb_objects s)))))"
      unfolding k[symmetric] by (simp only: set_map set_sort set_sorted_list_of_set finite_set finite_imageI)
  qed simp_all
  moreover have "\<forall>x \<in> set (sort_key bi_Name ?is). x = ?f (bi_Name x)" unfolding infos by (auto simp: image_iff)
  ultimately show ?thesis by (metis (no_types, lifting) map_idI map_map comp_apply)
qed

lemma take_limit: "(if int (length xs) > k then take (nat k) xs else xs) = take (nat k) xs"
  by auto

lemma mb_Put_cases:
  assumes "mb_Put name r sz s = (x, s')"
  shows "(\<exists>e. x = Inl e \<and> s' = s) \<or> (\<exists>b. x = Inr () \<and> CopyExact r sz = Inr b \<and> map_of (mb_objects s) name = None \<and>
    s' = s\<lparr>mb_objects := AList.update name (b, mb_clock s (mb_ticks s)) (mb_objects s), mb_ticks := Suc (mb_ticks s)\<rparr>)"
  using assms by (auto simp: mb_Put_def rbind_Inr_iff split: sum.splits if_splits)

lemma mb_ok_draw: "mb_ok s \<Longrightarrow> mb_ok (s\<lparr>mb_draws := Suc (mb_draws s)\<rparr>)"
  by (simp add: mb_ok_def) (metis less_SucI)

lemma mb_SwapRoot_cases:
  assumes "mb_ok s" and "mb_SwapRoot v nxt s = (x, s')"
  shows "mb_ok s' \<and> mb_objects s' = mb_objects s \<and>
    (case x of
       Inl e \<Rightarrow> mb_root s' = mb_root s \<and> mb_version s' = mb_version s \<and> (e = ErrBlobRootConflict \<longrightarrow> mb_version s \<noteq> v)
     | Inr v' \<Rightarrow> CheckRootValue nxt = Inr () \<and> mb_version s = v \<and> mb_root s' = nxt \<and> mb_version s' = v' \<and> v' \<noteq> NoVersion \<and> v' \<noteq> mb_version s)"
proof (cases "CheckRootValue nxt")
  case (Inl e)
  then show ?thesis using assms by (auto simp: mb_SwapRoot_def CheckRootValue_def split: if_splits)
next
  case (Inr u)
  show ?thesis
  proof (cases "mb_rand s (mb_draws s)")
    case None
    then show ?thesis using assms Inr mb_ok_draw[OF assms(1)] by (auto simp: mb_SwapRoot_def NewVersion_def Let_def)
  next
    case (Some b)
    have len: "length b = 16" using Some assms(1) by (auto simp: mb_ok_def)
    then have ne: "hex_encode b \<noteq> []" using length_hex_encode[of b] by fastforce
    have fresh: "hex_encode b \<noteq> mb_version s"
    proof
      assume eq: "hex_encode b = mb_version s"
      then obtain n c where n: "n < mb_draws s" "mb_rand s n = Some c" "hex_encode b = hex_encode c" using assms(1) ne by (auto simp: mb_ok_def)
      have "c = b" using hex_decode_encode n(3) by (metis option.inject)
      then have same: "mb_rand s n = mb_rand s (mb_draws s)" using Some n(2) by simp
      have "inj_on (mb_rand s) {n. mb_rand s n \<noteq> None}" using assms(1) by (simp add: mb_ok_def)
      from inj_onD[OF this same] have "n = mb_draws s" using n(2) Some by simp
      then show False using n(1) by simp
    qed
    show ?thesis
    proof (cases "mb_version s = v")
      case True
      then have "x = Inr (hex_encode b)" "s' = s\<lparr>mb_draws := Suc (mb_draws s), mb_root := nxt, mb_version := hex_encode b\<rparr>"
        using assms(2) Inr Some by (simp_all add: mb_SwapRoot_def NewVersion_def Let_def)
      then show ?thesis using assms(1) Some Inr True ne fresh by (auto simp: mb_ok_def)
    next
      case False
      then show ?thesis using assms Inr Some mb_ok_draw[OF assms(1)] by (auto simp: mb_SwapRoot_def NewVersion_def Let_def)
    qed
  qed
qed

interpretation mb: blob_store memblob_ops mb_ok mb_view mb_stamp mb_rootof
proof unfold_locales
  fix s :: memblob
  assume ok: "mb_ok s"
  then have d: "distinct (map fst (mb_objects s))" by (simp add: mb_ok_def)
  have "dom (mb_view s) = dom (map_of (mb_objects s))" by (auto simp: mb_view_def)
  then show "finite (dom (mb_view s))" by (simp add: finite_dom_map_of)
  show "bs_Root memblob_ops s = (Inr (mb_rootof s), s)" by (simp add: memblob_ops_def mb_Root_def mb_rootof_def)
  fix name r sz
  show "\<exists>s'. bs_Put memblob_ops name r sz s = (Inr (), s') \<and> mb_ok s' \<and> mb_view s' = (mb_view s)(name \<mapsto> b) \<and> mb_rootof s' = mb_rootof s \<and>
      (\<forall>n. n \<noteq> name \<longrightarrow> mb_stamp s' n = mb_stamp s n)"
    if "CheckPut name sz = Inr ()" "CopyExact r sz = Inr b" "mb_view s name = None" for b
    using that ok distinct_update[OF d]
    by (auto simp: memblob_ops_def mb_Put_def mb_view_def mb_rootof_def mb_ok_def mb_stamp_def update_conv' fun_eq_iff)
  show "bs_Put memblob_ops name r sz s = (Inl ErrBlobExists, s)"
    if "CheckPut name sz = Inr ()" "CopyExact r sz = Inr b" "mb_view s name \<noteq> None" for b
    using that by (auto simp: memblob_ops_def mb_Put_def mb_view_def)
  show "\<exists>e. bs_Put memblob_ops name r sz s = (Inl e, s)" if "CheckPut name sz \<noteq> Inr () \<or> (\<forall>b. CopyExact r sz \<noteq> Inr b)"
    using that by (cases "CheckPut name sz"; cases "CopyExact r sz") (auto simp: memblob_ops_def mb_Put_def)
  show "\<exists>s'. bs_Delete memblob_ops name s = (Inr (), s') \<and> mb_ok s' \<and> mb_view s' = (mb_view s)(name := None) \<and>
      mb_rootof s' = mb_rootof s \<and> (\<forall>n. n \<noteq> name \<longrightarrow> mb_stamp s' n = mb_stamp s n)" if "bs_ValidName name = Inr ()"
    using that ok distinct_delete[OF d, of name]
    by (auto simp: memblob_ops_def mb_Delete_def mb_view_def mb_rootof_def mb_ok_def mb_stamp_def delete_conv' fun_eq_iff)
  show "bs_Get memblob_ops name off n s =
      ((case mb_view s name of None \<Rightarrow> Inl ErrBlobNotFound | Some b \<Rightarrow> rbind (object_range b off n) (\<lambda>b. Inr (bytes_rdr b))), s)"
    if "bs_ValidName name = Inr ()" for off n
    using that by (auto simp: memblob_ops_def mb_Get_def mb_view_def object_range_def rbind_def split: option.splits sum.splits)
  show "bs_Stat memblob_ops name s = ((case mb_view s name of None \<Rightarrow> Inl ErrBlobNotFound
      | Some b \<Rightarrow> Inr \<lparr>bi_Name = name, bi_Size = int (length b), bi_ModTime = mb_stamp s name\<rparr>), s)" if "bs_ValidName name = Inr ()"
    using that by (auto simp: memblob_ops_def mb_Stat_def mb_view_def mb_info_def mb_stamp_def split: option.splits)
  show "bs_List memblob_ops prefix after limit s =
      (Inr (map (\<lambda>name. \<lparr>bi_Name = name, bi_Size = int (length (the (mb_view s name))), bi_ModTime = mb_stamp s name\<rparr>)
         (take (nat limit) (sorted_list_of_set {name \<in> dom (mb_view s). has_prefix prefix name \<and> after < name}))), s)"
    if "CheckList prefix limit = Inr ()" for prefix after limit
    using that by (simp add: memblob_ops_def mb_List_def Let_def take_limit mb_listed[OF d] take_map)
next
  fix s s' :: memblob and v nxt v'
  assume "mb_ok s" "bs_SwapRoot memblob_ops v nxt s = (Inr v', s')"
  from mb_SwapRoot_cases[OF this(1), of v nxt "Inr v'" s'] this(2)
  show "CheckRootValue nxt = Inr () \<and> rt_Version (mb_rootof s) = v \<and> mb_rootof s' = \<lparr>rt_Value = nxt, rt_Version = v'\<rparr> \<and>
      mb_view s' = mb_view s \<and> mb_stamp s' = mb_stamp s \<and> mb_ok s' \<and> v' \<noteq> NoVersion"
    by (auto simp: memblob_ops_def mb_rootof_def mb_view_def mb_stamp_def fun_eq_iff)
next
  fix s s' :: memblob and v nxt e
  assume "mb_ok s" "bs_SwapRoot memblob_ops v nxt s = (Inl e, s')"
  from mb_SwapRoot_cases[OF this(1), of v nxt "Inl e" s'] this(2)
  show "mb_rootof s' = mb_rootof s \<and> mb_view s' = mb_view s \<and> mb_stamp s' = mb_stamp s \<and> mb_ok s'"
    by (auto simp: memblob_ops_def mb_rootof_def mb_view_def mb_stamp_def fun_eq_iff)
next
  fix s s' :: memblob and v nxt
  assume "mb_ok s" "bs_SwapRoot memblob_ops v nxt s = (Inl ErrBlobRootConflict, s')"
  from mb_SwapRoot_cases[OF this(1), of v nxt "Inl ErrBlobRootConflict" s'] this(2)
  show "rt_Version (mb_rootof s) \<noteq> v" by (auto simp: memblob_ops_def mb_rootof_def)
qed

section \<open>Histories\<close>

text \<open>The calls that change the store, in whatever order callers make them.\<close>

datatype bcall =
    BPut bytes rdr int | BDelete bytes | BSwapRoot version bytes | BWriteMirror bytes
  | BOpenJournal | BHoldJournal | BRelease nat
  | BAppend nat bytes | BReset nat | BClose nat | BRotate nat | BDrop nat

fun mb_call :: "bcall \<Rightarrow> memblob \<Rightarrow> memblob" where
  "mb_call (BPut name r sz) s = snd (mb_Put name r sz s)"
| "mb_call (BDelete name) s = snd (mb_Delete name s)"
| "mb_call (BSwapRoot v nxt) s = snd (mb_SwapRoot v nxt s)"
| "mb_call (BWriteMirror v) s = snd (mb_WriteMirror v s)"
| "mb_call BOpenJournal s = snd (mb_OpenJournal s)"
| "mb_call BHoldJournal s = snd (mb_HoldJournal s)"
| "mb_call (BRelease t) s = snd (mb_release t s)"
| "mb_call (BAppend j b) s = snd (mj_Append j b s)"
| "mb_call (BReset j) s = snd (mj_Reset j s)"
| "mb_call (BClose j) s = snd (mj_Close j s)"
| "mb_call (BRotate j) s = snd (mj_Rotate j s)"
| "mb_call (BDrop j) s = snd (mj_Drop j s)"

lemmas mj_defs = mj_Append_def mj_Reset_def mj_Close_def mj_Rotate_def mj_Drop_def j_open_def Let_def

lemma mb_call_quiet:
  assumes "\<And>name r sz. c \<noteq> BPut name r sz" and "\<And>name. c \<noteq> BDelete name"
  shows "mb_objects (mb_call c s) = mb_objects s"
  using assms
  by (cases c) (auto simp: mb_SwapRoot_def mb_WriteMirror_def mb_OpenJournal_def mb_HoldJournal_def mb_release_def mj_defs split: sum.splits)

lemma mb_call_version:
  assumes "\<And>v nxt. c \<noteq> BSwapRoot v nxt"
  shows "mb_version (mb_call c s) = mb_version s \<and> mb_root (mb_call c s) = mb_root s \<and> mb_draws (mb_call c s) = mb_draws s"
  using assms
  by (cases c) (auto simp: mb_Put_def mb_Delete_def mb_WriteMirror_def mb_OpenJournal_def mb_HoldJournal_def mb_release_def mj_defs split: sum.splits)

lemma mb_call_rand: "mb_rand (mb_call c s) = mb_rand s"
  by (cases c) (auto simp: mb_Put_def mb_Delete_def mb_SwapRoot_def mb_WriteMirror_def mb_OpenJournal_def mb_HoldJournal_def
      mb_release_def mj_defs split: sum.splits)

lemma mb_call_ok: "mb_ok s \<Longrightarrow> mb_ok (mb_call c s)"
proof (cases c)
  case (BPut name r sz)
  assume ok: "mb_ok s"
  have "distinct (map fst (AList.update name o' (mb_objects s)))" for o' using ok by (simp add: mb_ok_def distinct_update)
  then show ?thesis using BPut ok mb_Put_cases[of name r sz s "fst (mb_Put name r sz s)" "snd (mb_Put name r sz s)"] by (auto simp: mb_ok_def)
next
  case (BDelete name)
  assume "mb_ok s"
  then show ?thesis using BDelete by (auto simp: mb_Delete_def mb_ok_def distinct_delete split: sum.splits)
next
  case (BSwapRoot v nxt)
  assume "mb_ok s"
  then show ?thesis using BSwapRoot mb_SwapRoot_cases[of s v nxt "fst (mb_SwapRoot v nxt s)" "snd (mb_SwapRoot v nxt s)"] by simp
qed (auto simp: mb_ok_def mb_WriteMirror_def mb_OpenJournal_def mb_HoldJournal_def mb_release_def mj_defs split: sum.splits)

text \<open>A version after some calls is the one before, with its root, or one drawn since.\<close>

definition drawn_since :: "memblob \<Rightarrow> memblob \<Rightarrow> bool" where
  "drawn_since s t \<longleftrightarrow> (\<exists>n b. mb_draws s \<le> n \<and> n < mb_draws t \<and> mb_rand s n = Some b \<and> mb_version t = hex_encode b)"

lemma mb_call_drawn:
  assumes "mb_ok s"
  shows "mb_draws s \<le> mb_draws (mb_call c s) \<and>
    (mb_version (mb_call c s) = mb_version s \<and> mb_root (mb_call c s) = mb_root s \<or> drawn_since s (mb_call c s))"
proof (cases "\<exists>v nxt. c = BSwapRoot v nxt")
  case True
  have now: "drawn_since s (s\<lparr>mb_draws := Suc (mb_draws s), mb_root := nxt, mb_version := hex_encode b\<rparr>)" if "mb_rand s (mb_draws s) = Some b" for nxt b
    using that unfolding drawn_since_def by (intro exI[of _ "mb_draws s"] exI[of _ b]) simp
  from True show ?thesis by (auto simp: mb_SwapRoot_def NewVersion_def Let_def now split: sum.splits option.splits)
next
  case False
  then show ?thesis using mb_call_version[of c s] by auto
qed

lemma mb_calls_drawn:
  assumes "mb_ok s"
  shows "mb_ok (fold mb_call cs s) \<and> mb_rand (fold mb_call cs s) = mb_rand s \<and> mb_draws s \<le> mb_draws (fold mb_call cs s) \<and>
    (mb_version (fold mb_call cs s) = mb_version s \<and> mb_root (fold mb_call cs s) = mb_root s \<or> drawn_since s (fold mb_call cs s))"
  using assms
proof (induction cs arbitrary: s)
  case (Cons c cs)
  note one = mb_call_drawn[OF Cons.prems, of c] and ok = mb_call_ok[OF Cons.prems, of c]
  note IH = Cons.IH[OF ok]
  have "drawn_since s (fold mb_call cs (mb_call c s))"
    if "drawn_since (mb_call c s) (fold mb_call cs (mb_call c s))"
    using that one le_trans by (fastforce simp: drawn_since_def mb_call_rand)
  moreover have "drawn_since s (fold mb_call cs (mb_call c s))"
    if "drawn_since s (mb_call c s)" "mb_version (fold mb_call cs (mb_call c s)) = mb_version (mb_call c s)"
    using that IH unfolding drawn_since_def by (metis order_less_le_trans)
  ultimately show ?case using IH one by (auto simp: mb_call_rand)
qed simp

lemma drawn_new:
  assumes "mb_ok s" and "mb_rand t = mb_rand s" and "drawn_since s t"
  shows "mb_version t \<noteq> mb_version s"
proof
  obtain n b where n: "mb_draws s \<le> n" "mb_rand s n = Some b" "mb_version t = hex_encode b" using assms(3) by (auto simp: drawn_since_def)
  have "length b = 16" using assms(1) n(2) by (auto simp: mb_ok_def)
  then have "hex_encode b \<noteq> []" using length_hex_encode[of b] by fastforce
  moreover assume "mb_version t = mb_version s"
  ultimately obtain m c where m: "m < mb_draws s" "mb_rand s m = Some c" "hex_encode b = hex_encode c"
    using assms(1) n(3) by (auto simp: mb_ok_def)
  have "c = b" using hex_decode_encode m(3) by (metis option.inject)
  then have same: "mb_rand s n = mb_rand s m" using n(2) m(2) by simp
  have "inj_on (mb_rand s) {n. mb_rand s n \<noteq> None}" using assms(1) by (simp add: mb_ok_def)
  from inj_onD[OF this same] show False using n(1,2) m(1,2) by simp
qed

section \<open>Properties\<close>


definition witness_blob :: memblob where
  "witness_blob = mb_New (\<lambda>_. 0) (\<lambda>n. if n = 0 then Some (replicate 16 1) else if n = 1 then Some (replicate 16 2) else None)"

lemma witness_blob_ok: "mb_ok witness_blob"
  by (auto simp: mb_ok_def witness_blob_def mb_New_def inj_on_def numeral_eq_Suc split: if_splits)


text \<open>C21. An object, once visible, keeps its bytes: whatever is called, in any order, short of deleting
  its name, it reads the same, and a second \<^verbatim>\<open>Put\<close> of the name is refused with \<^verbatim>\<open>ErrExists\<close>.\<close>

theorem mem_object_immutable:
  assumes "mb_view s name = Some b" and "BDelete name \<notin> set cs"
  shows "mb_view (fold mb_call cs s) name = Some b \<and>
    (CheckPut name sz = Inr () \<longrightarrow> CopyExact r sz = Inr b' \<longrightarrow> mb_Put name r sz (fold mb_call cs s) = (Inl ErrBlobExists, fold mb_call cs s))"
proof -
  have "mb_view (mb_call c s) name = Some b" if "mb_view s name = Some b" "c \<noteq> BDelete name" for c s
  proof (cases c)
    case (BPut n r sz)
    then show ?thesis using that mb_Put_cases[of n r sz s "fst (mb_Put n r sz s)" "snd (mb_Put n r sz s)"]
      by (auto simp: mb_view_def update_conv')
  next
    case (BDelete n)
    then show ?thesis using that by (auto simp: mb_Delete_def mb_view_def delete_conv' split: sum.splits)
  qed (use that mb_call_quiet[of c s] in \<open>auto simp: mb_view_def\<close>)
  then have "mb_view (fold mb_call cs s) name = Some b" using assms by (induction cs arbitrary: s) auto
  then show ?thesis by (auto simp: mb_Put_def mb_view_def)
qed

theorem mem_object_immutable_witness:
  "mb_view (fold mb_call [BSwapRoot NoVersion [5], BPut (ascii ''a'') [] 0] (mb_call (BPut (ascii ''a'') [([7], None)] 1) witness_blob)) (ascii ''a'') = Some [7]"
proof -
  have "mb_view (mb_call (BPut (ascii ''a'') [([7], None)] 1) witness_blob) (ascii ''a'') = Some [7]"
    by (simp add: witness_blob_def mb_New_def mb_Put_def mb_view_def CheckPut_def bs_ValidName_def validSegment_def segment_byte_def CopyExact_def ascii_def Let_def)
  from mem_object_immutable[OF this, of "[BSwapRoot NoVersion [5], BPut (ascii ''a'') [] 0]"] show ?thesis by simp
qed

text \<open>The stores callers reach, each handle and ticket one that was given out.\<close>

inductive memblob_reach :: "memblob \<Rightarrow> bool" where
  mb_start: "memblob_reach (mb_New clock rnd)"
| mb_next: "memblob_reach s \<Longrightarrow> (case c of BRelease t \<Rightarrow> t < length (mb_released s) | BAppend j _ \<Rightarrow> j < length (mb_closed s)
     | BReset j \<Rightarrow> j < length (mb_closed s) | BClose j \<Rightarrow> j < length (mb_closed s) | BRotate j \<Rightarrow> j < length (mb_closed s)
     | BDrop j \<Rightarrow> j < length (mb_closed s) | _ \<Rightarrow> True) \<Longrightarrow> memblob_reach (mb_call c s)"

definition pending :: "bool list \<Rightarrow> nat" where
  "pending bs = length (filter Not bs)"

lemma pending_simps [simp]: "pending [] = 0" "pending (bs @ [False]) = Suc (pending bs)"
  by (simp_all add: pending_def)

lemma pending_update: "j < length bs \<Longrightarrow> \<not> bs ! j \<Longrightarrow> pending bs = Suc (pending (bs[j := True]))"
  by (induction bs arbitrary: j) (auto simp: pending_def less_Suc_eq_0_disj split: nat.splits)

text \<open>C22. The journal has one writer: in every reachable store at most one journal handle is open, none is
  open while anyone holds the journal, and the store's own flag and count say exactly that, so a stale
  handle closed twice or a hold released twice frees nothing of anyone else's.\<close>

theorem mem_journal_exclusive:
  assumes "memblob_reach s"
  shows "pending (mb_closed s) = (if mb_jopen s then 1 else 0) \<and> pending (mb_released s) = mb_jholds s \<and>
    (mb_jopen s \<longrightarrow> mb_jholds s = 0)"
  using assms
proof (induction rule: memblob_reach.induct)
  case (mb_start clock rnd)
  then show ?case by (simp add: mb_New_def)
next
  case (mb_next s c)
  then show ?case
    by (cases c) (auto simp: mb_Put_def mb_Delete_def mb_SwapRoot_def mb_WriteMirror_def mb_OpenJournal_def mb_HoldJournal_def
        mb_release_def mj_defs split: sum.splits if_splits dest!: pending_update)
qed

theorem mem_journal_exclusive_witness:
  "memblob_reach (fold mb_call [BOpenJournal, BClose 0, BClose 0, BOpenJournal] witness_blob) \<and>
   pending (mb_closed (fold mb_call [BOpenJournal, BClose 0, BClose 0, BOpenJournal] witness_blob)) = 1"
proof -
  have r: "memblob_reach (fold mb_call [BOpenJournal, BClose 0, BClose 0, BOpenJournal] witness_blob)"
    unfolding witness_blob_def
    by (simp del: mb_call.simps, intro mb_next mb_start) (auto simp: mb_New_def mb_OpenJournal_def mj_Close_def)
  then show ?thesis using mem_journal_exclusive[OF r] by (simp add: witness_blob_def mb_New_def mb_OpenJournal_def mj_Close_def)
qed

end
