(* ===== verification/Seal.thy ===== *)
theory Seal
  imports Hash
begin

text \<open>
  \<^verbatim>\<open>core/seal\<close> (\<^verbatim>\<open>seal.go\<close>, \<^verbatim>\<open>keyfile.go\<close>, \<^verbatim>\<open>x25519.go\<close>): domains, keyrings, object keys, key files and
  envelopes. The primitives are a parameter: HKDF, and through \<^verbatim>\<open>core/dnx\<close> the AEAD, Argon2id and the
  X25519 wrapping of the disknexus module. What the code relies on of them is \<open>crypto_ok\<close>. A 32-byte
  array is a \<open>hash\<close>. Random salts and nonces are arguments; a key carries the nonces it will draw.
\<close>

section \<open>Primitives\<close>

record argon_params =
  ar_Time :: u32
  ar_Memory :: u32
  ar_Threads :: byte

record crypto =
  cr_hkdf :: "bytes \<Rightarrow> bytes \<Rightarrow> bytes \<Rightarrow> nat \<Rightarrow> bytes"
  cr_seal :: "bytes \<Rightarrow> bytes \<Rightarrow> bytes \<Rightarrow> bytes \<Rightarrow> bytes"
  cr_open :: "bytes \<Rightarrow> bytes \<Rightarrow> bytes \<Rightarrow> bytes option"
  cr_kek :: "bytes \<Rightarrow> bytes \<Rightarrow> argon_params \<Rightarrow> bytes option"
  cr_wrap :: "bytes \<Rightarrow> bytes \<Rightarrow> bytes result"
  cr_unwrap :: "bytes \<Rightarrow> bytes \<Rightarrow> bytes result"

text \<open>
  A derived key has the length asked for; what is sealed is the nonce, the ciphertext and the tag,
  28 bytes longer than the plaintext; and a sealed value opens, under its key and associated data, to
  what was sealed.
\<close>

definition crypto_ok :: "crypto \<Rightarrow> bool" where
  "crypto_ok C \<longleftrightarrow>
     (\<forall>ikm salt info n. length (cr_hkdf C ikm salt info n) = n) \<and>
     (\<forall>k n p a. length n = 12 \<longrightarrow> length (cr_seal C k n p a) = length p + 28 \<and> cr_open C k (cr_seal C k n p a) a = Some p)"

text \<open>The AEAD of \<^verbatim>\<open>core/dnx\<close> refuses associated data without a tag.\<close>

definition aead_Seal :: "crypto \<Rightarrow> bytes \<Rightarrow> bytes option \<Rightarrow> bytes \<Rightarrow> bytes \<Rightarrow> bytes result" where
  "aead_Seal C k nonce plain aad =
     (if aad = [] then Inl ErrUntagged
      else case nonce of None \<Rightarrow> Inl (ErrOther ''crypto/rand'') | Some n \<Rightarrow> Inr (cr_seal C k n plain aad))"

definition aead_Open :: "crypto \<Rightarrow> bytes \<Rightarrow> bytes \<Rightarrow> bytes \<Rightarrow> bytes result" where
  "aead_Open C k sealed aad =
     (if aad = [] then Inl ErrUntagged
      else case cr_open C k sealed aad of None \<Rightarrow> Inl (ErrOther ''decryption failed'') | Some p \<Rightarrow> Inr p)"

section \<open>Domains\<close>

abbreviation dom_Chunk :: byte where "dom_Chunk \<equiv> 1"
abbreviation dom_PackIndex :: byte where "dom_PackIndex \<equiv> 2"
abbreviation dom_Index :: byte where "dom_Index \<equiv> 3"
abbreviation dom_Refs :: byte where "dom_Refs \<equiv> 4"
abbreviation dom_Config :: byte where "dom_Config \<equiv> 5"
abbreviation dom_Journal :: byte where "dom_Journal \<equiv> 6"

definition domain_tags :: "bytes list" where
  "domain_tags = map ascii ['''', ''vdb/chunk/v1'', ''vdb/pack-index/v1'', ''vdb/index/v1'', ''vdb/refs/v1'',
     ''vdb/config/v1'', ''vdb/journal/v1'']"

definition dom_Tag :: "byte \<Rightarrow> bytes" where
  "dom_Tag d = (if d = 0 \<or> unat d \<ge> length domain_tags then [] else domain_tags ! unat d)"

section \<open>Keyrings\<close>

record keyring =
  kr_master :: bytes
  kr_id :: hash
  kr_destroyed :: bool

definition KeyringFromBytes :: "crypto \<Rightarrow> bytes \<Rightarrow> keyring result" where
  "KeyringFromBytes C b =
     (if length b \<noteq> 32 then Inl ErrKeyCorrupt
      else Inr \<lparr>kr_master = b, kr_id = copy_hash (cr_hkdf C b [] (ascii ''snapshot-core/key-id/v1'') 32), kr_destroyed = False\<rparr>)"

definition NewKeyring :: "crypto \<Rightarrow> hash option \<Rightarrow> keyring result" where
  "NewKeyring C rnd = (case rnd of None \<Rightarrow> Inl (ErrOther ''crypto/rand'') | Some b \<Rightarrow> KeyringFromBytes C (hbytes b))"

definition kr_Destroy :: "keyring \<Rightarrow> keyring" where
  "kr_Destroy k = k\<lparr>kr_master := replicate 32 0, kr_destroyed := True\<rparr>"

definition withMaster :: "keyring \<Rightarrow> (bytes \<Rightarrow> 'a result) \<Rightarrow> 'a result" where
  "withMaster k f = (if kr_destroyed k then Inl ErrDestroyed else f (kr_master k))"

section \<open>Object keys\<close>

record skey =
  k_aead :: bytes
  k_tag :: bytes
  k_seals :: nat
  k_limit :: nat
  k_destroyed :: bool
  k_nonces :: "nat \<Rightarrow> bytes option"

abbreviation MaxSealsPerKey :: nat where "MaxSealsPerKey \<equiv> 2 ^ 20"

definition k_setLimit :: "nat \<Rightarrow> skey \<Rightarrow> skey" where
  "k_setLimit n k = k\<lparr>k_limit := n\<rparr>"

definition kr_Key :: "crypto \<Rightarrow> keyring \<Rightarrow> byte \<Rightarrow> bytes \<Rightarrow> hash \<Rightarrow> (nat \<Rightarrow> bytes option) \<Rightarrow> skey result" where
  "kr_Key C kr d repo salt nonces =
     (let tag = dom_Tag d in
      if tag = [] then Inl ErrDomain
      else withMaster kr (\<lambda>master.
        Inr \<lparr>k_aead = cr_hkdf C master (hbytes salt) (ascii ''snapshot-core/object-key/v1'' @ [0] @ tag @ [0] @ repo) 32,
             k_tag = tag, k_seals = 0, k_limit = MaxSealsPerKey, k_destroyed = False, k_nonces = nonces\<rparr>))"

definition k_aad :: "skey \<Rightarrow> bytes \<Rightarrow> bytes" where
  "k_aad k ctx = k_tag k @ [0] @ ctx"

definition k_Seal :: "crypto \<Rightarrow> bytes \<Rightarrow> bytes \<Rightarrow> (skey, bytes) comp" where
  "k_Seal C ctx plain k =
     (if k_destroyed k then (Inl ErrDestroyed, k)
      else if k_seals k \<ge> k_limit k then (Inl ErrKeyExhausted, k)
      else let n = k_nonces k (k_seals k); k = k\<lparr>k_seals := Suc (k_seals k)\<rparr> in
        (aead_Seal C (k_aead k) n plain (k_aad k ctx), k))"

definition k_Open :: "crypto \<Rightarrow> skey \<Rightarrow> bytes \<Rightarrow> bytes \<Rightarrow> bytes result" where
  "k_Open C k ctx sealed =
     (if k_destroyed k then Inl ErrDestroyed
      else case aead_Open C (k_aead k) sealed (k_aad k ctx) of Inl _ \<Rightarrow> Inl ErrAuth | Inr p \<Rightarrow> Inr p)"

definition k_Destroy :: "skey \<Rightarrow> skey" where
  "k_Destroy k = (if k_destroyed k then k else k\<lparr>k_aead := replicate 32 0, k_destroyed := True\<rparr>)"

section \<open>Key files\<close>

definition ar_validate :: "argon_params \<Rightarrow> unit result" where
  "ar_validate p =
     (if ar_Time p < 2 \<or> ar_Time p > 10 then Inl ErrParams
      else if ar_Memory p < 19 * 1024 \<or> ar_Memory p > 1024 * 1024 then Inl ErrParams
      else if ar_Threads p < 1 \<or> ar_Threads p > 64 then Inl ErrParams
      else Inr ())"

definition validPassphrase :: "bytes \<Rightarrow> unit result" where
  "validPassphrase p = (if length p = 0 \<or> length p > 1024 then Inl ErrPassphrase else Inr ())"

abbreviation keyFileMagic :: bytes where "keyFileMagic \<equiv> ascii ''SCKF''"
abbreviation keyFileHeaderLen :: nat where "keyFileHeaderLen \<equiv> 79"

definition keyFileAAD :: "bytes \<Rightarrow> bytes" where
  "keyFileAAD header = ascii ''vdb/keyfile/v1'' @ [0] @ header"

definition kekAEAD :: "crypto \<Rightarrow> bytes \<Rightarrow> bytes \<Rightarrow> argon_params \<Rightarrow> bytes result" where
  "kekAEAD C passphrase salt p = (case cr_kek C passphrase salt p of None \<Rightarrow> Inl ErrParams | Some k \<Rightarrow> Inr k)"

text \<open>\<^verbatim>\<open>NewKeyFile\<close>, with the salt and the nonce it draws.\<close>

definition NewKeyFile :: "crypto \<Rightarrow> keyring \<Rightarrow> bytes \<Rightarrow> argon_params \<Rightarrow> hash option \<Rightarrow> bytes option \<Rightarrow> bytes result" where
  "NewKeyFile C kr passphrase p rnd nonce =
     rbind (validPassphrase passphrase) (\<lambda>_.
     rbind (ar_validate p) (\<lambda>_.
     case rnd of
       None \<Rightarrow> Inl (ErrOther ''crypto/rand'')
     | Some salt \<Rightarrow>
         let header = keyFileMagic @ put_U16 1 @ put_U32 (ar_Time p) @ put_U32 (ar_Memory p) @ put_U8 (ar_Threads p) @
                      hbytes salt @ hbytes (kr_id kr) in
         rbind (kekAEAD C passphrase (hbytes salt) p) (\<lambda>aead.
         rbind (withMaster kr (\<lambda>master. aead_Seal C aead nonce master (keyFileAAD header))) (\<lambda>sealed.
           Inr (header @ sealed)))))"

definition openKeyFile :: "crypto \<Rightarrow> bytes \<Rightarrow> bytes \<Rightarrow> (bytes \<Rightarrow> bytes \<Rightarrow> argon_params \<Rightarrow> bytes result) \<Rightarrow> keyring result" where
  "openKeyFile C file passphrase derive =
     rbind (validPassphrase passphrase) (\<lambda>_.
       let r = NewReader file; (magic, r) = rd_Fixed 4 r; (ver, r) = rd_U16 r;
           (t, r) = rd_U32 r; (m, r) = rd_U32 r; (th, r) = rd_U8 r;
           p = \<lparr>ar_Time = t, ar_Memory = m, ar_Threads = th\<rparr>;
           (salt, r) = rd_Fixed 32 r; (kid, r) = rd_Fixed 32 r; (sealed, r) = rd_Fixed (32 + 28) r in
       if rd_Done r \<noteq> None then Inl ErrKeyCorrupt
       else if magic \<noteq> keyFileMagic \<or> ver \<noteq> 1 then Inl ErrKeyCorrupt
       else rbind (ar_validate p) (\<lambda>_.
            rbind (derive passphrase salt p) (\<lambda>aead.
            case aead_Open C aead sealed (keyFileAAD (take keyFileHeaderLen file)) of
              Inl _ \<Rightarrow> Inl ErrWrongPassphrase
            | Inr master \<Rightarrow>
                rbind (KeyringFromBytes C master) (\<lambda>kr.
                  if hbytes (kr_id kr) \<noteq> kid then Inl ErrKeyCorrupt else Inr kr))))"

definition OpenKeyFile :: "crypto \<Rightarrow> bytes \<Rightarrow> bytes \<Rightarrow> keyring result" where
  "OpenKeyFile C file passphrase = openKeyFile C file passphrase (kekAEAD C)"

section \<open>Envelopes\<close>

text \<open>A \<^verbatim>\<open>Wrapper\<close>: a key management service, which wraps and unwraps a secret.\<close>

record wrapper =
  wr_Wrap :: "bytes \<Rightarrow> bytes result"
  wr_Unwrap :: "bytes \<Rightarrow> bytes result"

abbreviation envelopeMagic :: bytes where "envelopeMagic \<equiv> ascii ''SCKW''"
abbreviation maxWrapped :: nat where "maxWrapped \<equiv> 8192"

definition WrapKeyring :: "wrapper \<Rightarrow> keyring \<Rightarrow> bytes result" where
  "WrapKeyring w kr =
     rbind (withMaster kr (wr_Wrap w)) (\<lambda>wrapped.
       if length wrapped = 0 \<or> length wrapped > maxWrapped then Inl (ErrOther ''seal: KMS returned'')
       else Inr (envelopeMagic @ put_U16 1 @ hbytes (kr_id kr) @ put_LenBytes wrapped))"

definition UnwrapKeyring :: "crypto \<Rightarrow> wrapper \<Rightarrow> bytes \<Rightarrow> keyring result" where
  "UnwrapKeyring C w envelope =
     (let r = NewReader envelope; (magic, r) = rd_Fixed 4 r; (ver, r) = rd_U16 r; (kid, r) = rd_Fixed 32 r;
          (wrapped, r) = rd_LenBytes (int maxWrapped) r in
      if rd_Done r \<noteq> None then Inl ErrKeyCorrupt
      else if magic \<noteq> envelopeMagic \<or> ver \<noteq> 1 \<or> length wrapped = 0 then Inl ErrKeyCorrupt
      else rbind (wr_Unwrap w wrapped) (\<lambda>secret.
        if length secret \<noteq> 32 then Inl ErrWrongKey
        else rbind (KeyringFromBytes C secret) (\<lambda>kr.
          if hbytes (kr_id kr) \<noteq> kid then Inl ErrWrongKey else Inr kr)))"

record x25519 =
  x_pub :: bytes
  x_priv :: "bytes option"

definition NewX25519Wrapper :: "bytes \<Rightarrow> bytes option \<Rightarrow> x25519 result" where
  "NewX25519Wrapper pub priv =
     (if length pub \<noteq> 32 \<or> (case priv of None \<Rightarrow> False | Some k \<Rightarrow> length k \<noteq> 32)
      then Inl (ErrOther ''seal: X25519 keys are 32 bytes'') else Inr \<lparr>x_pub = pub, x_priv = priv\<rparr>)"

definition x25519_wrapper :: "crypto \<Rightarrow> x25519 \<Rightarrow> wrapper" where
  "x25519_wrapper C x =
     \<lparr>wr_Wrap = \<lambda>secret. if secret = [] then Inl (ErrOther ''seal: refusing to wrap an empty secret'') else cr_wrap C (x_pub x) secret,
      wr_Unwrap = \<lambda>wrapped. case x_priv x of None \<Rightarrow> Inl ErrWrapOnly | Some k \<Rightarrow> cr_unwrap C k wrapped\<rparr>"

section \<open>Lemmas\<close>

lemma aead_Open_Seal:
  assumes "crypto_ok C" and "length n = 12" and "aead_Seal C k (Some n) p a = Inr c"
  shows "aead_Open C k c a = Inr p" and "length c = length p + 28"
  using assms by (auto simp: aead_Seal_def aead_Open_def crypto_ok_def split: if_splits)

text \<open>The nonces a key draws are 12 bytes, when drawing does not fail.\<close>

definition nonces_ok :: "(nat \<Rightarrow> bytes option) \<Rightarrow> bool" where
  "nonces_ok f \<longleftrightarrow> (\<forall>i n. f i = Some n \<longrightarrow> length n = 12)"

lemma k_Open_Seal:
  assumes "crypto_ok C" and "nonces_ok (k_nonces k)" and "k_Seal C ctx p k = (Inr c, k')"
    and "k_aead k2 = k_aead k" and "k_tag k2 = k_tag k" and "\<not> k_destroyed k2"
  shows "k_Open C k2 ctx c = Inr p" and "length c = length p + 28"
proof -
  obtain n where n: "k_nonces k (k_seals k) = Some n" "aead_Seal C (k_aead k) (Some n) p (k_aad k ctx) = Inr c"
    using assms(3) by (auto simp: k_Seal_def aead_Seal_def k_aad_def Let_def split: if_splits option.splits)
  have l: "length n = 12" using assms(2) n(1) by (simp add: nonces_ok_def)
  show "k_Open C k2 ctx c = Inr p" using aead_Open_Seal(1)[OF assms(1) l n(2)] assms(4-6) by (simp add: k_Open_def k_aad_def)
  show "length c = length p + 28" using aead_Open_Seal(2)[OF assms(1) l n(2)] .
qed

lemma k_Seal_fields:
  "k_Seal C ctx p k = (r, k') \<Longrightarrow> k_aead k' = k_aead k \<and> k_tag k' = k_tag k \<and> k_destroyed k' = k_destroyed k \<and>
     k_nonces k' = k_nonces k \<and> k_limit k' = k_limit k"
  by (auto simp: k_Seal_def Let_def split: if_splits)

lemma KeyringFromBytes_id:
  assumes "KeyringFromBytes C b = Inr kr"
  shows "kr_master kr = b" and "\<not> kr_destroyed kr" and "length b = 32"
  using assms by (auto simp: KeyringFromBytes_def split: if_splits)

lemma no_zero_tag: "0 \<notin> set (dom_Tag d)"
proof -
  have "\<forall>t\<in>set domain_tags. 0 \<notin> set t" by (simp add: domain_tags_def ascii_def)
  then show ?thesis by (auto simp: dom_Tag_def)
qed

lemma split_zero:
  assumes "a @ (0 :: byte) # b = c @ 0 # d" and "0 \<notin> set a" and "0 \<notin> set c"
  shows "a = c \<and> b = d"
  using assms by (induction a arbitrary: c) (auto simp: Cons_eq_append_conv)

lemma dom_Tag_inj:
  assumes "dom_Tag d = dom_Tag d'" and "dom_Tag d \<noteq> []"
  shows "d = d'"
proof -
  have i: "unat d < length domain_tags" "unat d' < length domain_tags" "domain_tags ! unat d = domain_tags ! unat d'"
    using assms by (auto simp: dom_Tag_def split: if_splits)
  have "distinct domain_tags" by (simp add: domain_tags_def ascii_def)
  then have "unat d = unat d'" using i by (simp add: nth_eq_iff_index_eq)
  then show ?thesis by (simp add: word_unat_eq_iff)
qed

section \<open>A small instance\<close>

text \<open>Primitives with the laws and no secrecy, to run the definitions on.\<close>

definition plain_crypto :: crypto where
  "plain_crypto = \<lparr>cr_hkdf = \<lambda>ikm salt info n. take n (ikm @ salt @ info @ replicate n 0),
     cr_seal = \<lambda>k n p a. n @ p @ replicate 16 0,
     cr_open = \<lambda>k c a. if length c \<ge> 28 then Some (take (length c - 28) (drop 12 c)) else None,
     cr_kek = \<lambda>pass salt p. Some (replicate 32 0), cr_wrap = \<lambda>pub secret. Inr secret, cr_unwrap = \<lambda>priv c. Inr c\<rparr>"

lemma plain_crypto_ok: "crypto_ok plain_crypto"
  by (auto simp: crypto_ok_def plain_crypto_def min_def)

definition plain_nonces :: "nat \<Rightarrow> bytes option" where
  "plain_nonces i = Some (replicate 12 0)"

lemma plain_nonces_ok: "nonces_ok plain_nonces"
  by (simp add: nonces_ok_def plain_nonces_def)

definition plain_keyring :: keyring where
  "plain_keyring = projr (KeyringFromBytes plain_crypto (replicate 32 7))"

lemma plain_keyring_new: "KeyringFromBytes plain_crypto (replicate 32 7) = Inr plain_keyring"
  by (simp add: plain_keyring_def KeyringFromBytes_def)

lemma plain_keyring_live: "\<not> kr_destroyed plain_keyring"
  using KeyringFromBytes_id(2)[OF plain_keyring_new] .

section \<open>Properties\<close>



text \<open>C24. A key file opens: whatever the passphrase and costs accepted, the file written for a keyring
  gives that keyring back under the same passphrase, same key and same identity.\<close>

theorem key_file_roundtrip:
  assumes "crypto_ok C" and "KeyringFromBytes C b = Inr kr" and "length n = 12"
    and "NewKeyFile C kr pass p (Some salt) (Some n) = Inr file"
  shows "OpenKeyFile C file pass = Inr kr \<and> length file = 139"
proof -
  let ?h = "keyFileMagic @ put_U16 1 @ put_U32 (ar_Time p) @ put_U32 (ar_Memory p) @ put_U8 (ar_Threads p) @ hbytes salt @ hbytes (kr_id kr)"
  obtain k c where k: "validPassphrase pass = Inr ()" "ar_validate p = Inr ()" "kekAEAD C pass (hbytes salt) p = Inr k"
    "aead_Seal C k (Some n) b (keyFileAAD ?h) = Inr c" "file = ?h @ c"
    using assms(2,4) KeyringFromBytes_id[OF assms(2)] by (auto simp: NewKeyFile_def Let_def result_simps withMaster_def)
  note c = aead_Open_Seal[OF assms(1,3) k(4)]
  have lh: "length ?h = 79" by (simp add: put_U16_def put_U32_def put_U8_def)
  have lc: "length c = 60" using c(2) KeyringFromBytes_id(3)[OF assms(2)] by simp
  have "take keyFileHeaderLen file = ?h" using k(5) lh by simp
  then have "OpenKeyFile C file pass = Inr kr"
    using k(1,2,3) c(1) assms(2) lc unfolding OpenKeyFile_def openKeyFile_def
    by (cases p) (simp add: k(5) NewReader_at wire_simps at_done Let_def)
  then show ?thesis using lh lc k(5) by simp
qed

definition plain_params :: argon_params where
  "plain_params = \<lparr>ar_Time = 3, ar_Memory = 65536, ar_Threads = 4\<rparr>"

theorem key_file_roundtrip_witness:
  "\<exists>file. NewKeyFile plain_crypto plain_keyring [1, 2, 3] plain_params (Some zero_hash) (Some (replicate 12 0)) = Inr file \<and>
     OpenKeyFile plain_crypto file [1, 2, 3] = Inr plain_keyring"
proof -
  obtain kf where f: "NewKeyFile plain_crypto plain_keyring [1, 2, 3] plain_params (Some zero_hash) (Some (replicate 12 0)) = Inr kf"
    using plain_keyring_live
    by (simp add: NewKeyFile_def validPassphrase_def ar_validate_def plain_params_def kekAEAD_def plain_crypto_def aead_Seal_def withMaster_def keyFileAAD_def Let_def)
  then show ?thesis using key_file_roundtrip[OF plain_crypto_ok plain_keyring_new _ f] by simp
qed

text \<open>C25. A key file cannot choose the cost of opening it: \<^verbatim>\<open>openKeyFile\<close> runs the derivation only on
  parameters within the bounds, so derivations that agree there give the same result on any file.\<close>

theorem key_file_costs_bounded:
  assumes "\<And>pass salt p. ar_Time p \<le> 10 \<Longrightarrow> ar_Memory p \<le> 2 ^ 20 \<Longrightarrow> ar_Threads p \<le> 64 \<Longrightarrow> derive pass salt p = derive' pass salt p"
  shows "openKeyFile C file pass derive = openKeyFile C file pass derive'"
proof -
  have "rbind (ar_validate p) (\<lambda>_. rbind (derive pass salt p) f) = rbind (ar_validate p) (\<lambda>_. rbind (derive' pass salt p) f)"
    for p salt and f :: "bytes \<Rightarrow> keyring result"
    using assms[of p pass salt] by (auto simp: ar_validate_def not_less)
  then show ?thesis unfolding openKeyFile_def by presburger
qed

theorem key_file_costs_bounded_witness:
  "openKeyFile plain_crypto [1, 2, 3] [4] (\<lambda>pass salt p. if ar_Time p \<le> 10 then Inr [] else Inl ErrParams) =
   openKeyFile plain_crypto [1, 2, 3] [4] (\<lambda>pass salt p. Inr [])"
  by (rule key_file_costs_bounded) simp



text \<open>C27. An envelope names its key: \<^verbatim>\<open>UnwrapKeyring\<close> gives back the keyring when the service returns the
  secret it was handed, and refuses with \<^verbatim>\<open>ErrWrongKey\<close> any other secret whose key has another identity.\<close>

theorem envelope_names_key:
  assumes "KeyringFromBytes C b = Inr kr" and "WrapKeyring w kr = Inr env"
  shows "\<exists>wrapped. wr_Wrap w b = Inr wrapped \<and>
    (\<forall>w'. (wr_Unwrap w' wrapped = Inr b \<longrightarrow> UnwrapKeyring C w' env = Inr kr) \<and>
      (\<forall>secret kr'. wr_Unwrap w' wrapped = Inr secret \<longrightarrow> KeyringFromBytes C secret = Inr kr' \<longrightarrow> kr_id kr' \<noteq> kr_id kr \<longrightarrow>
        UnwrapKeyring C w' env = Inl ErrWrongKey))"
proof -
  obtain wrapped where w: "wr_Wrap w b = Inr wrapped" "wrapped \<noteq> []" "length wrapped \<le> maxWrapped"
    "env = envelopeMagic @ put_U16 1 @ hbytes (kr_id kr) @ put_LenBytes wrapped"
    using assms KeyringFromBytes_id[OF assms(1)] by (auto simp: WrapKeyring_def withMaster_def result_simps split: if_splits)
  have u: "UnwrapKeyring C w' env = rbind (wr_Unwrap w' wrapped) (\<lambda>secret.
      if length secret \<noteq> 32 then Inl ErrWrongKey
      else rbind (KeyringFromBytes C secret) (\<lambda>kr'. if kr_id kr' \<noteq> kr_id kr then Inl ErrWrongKey else Inr kr'))" for w'
    using w(2,3) by (simp add: UnwrapKeyring_def w(4) NewReader_at wire_simps at_done Let_def hbytes_inject cong: if_cong)
  show ?thesis using w(1) assms(1) KeyringFromBytes_id(3) by (auto simp: u)
qed

theorem envelope_names_key_witness:
  "\<exists>env. WrapKeyring (x25519_wrapper plain_crypto \<lparr>x_pub = [], x_priv = Some []\<rparr>) plain_keyring = Inr env \<and>
     UnwrapKeyring plain_crypto (x25519_wrapper plain_crypto \<lparr>x_pub = [], x_priv = Some []\<rparr>) env = Inr plain_keyring"
proof -
  let ?w = "x25519_wrapper plain_crypto \<lparr>x_pub = [], x_priv = Some []\<rparr>"
  have w: "wr_Wrap ?w (replicate 32 7) = Inr (replicate 32 7)" "wr_Unwrap ?w (replicate 32 7) = Inr (replicate 32 7)"
    by (simp_all add: x25519_wrapper_def plain_crypto_def)
  obtain env where e: "WrapKeyring ?w plain_keyring = Inr env"
    using plain_keyring_live KeyringFromBytes_id(1)[OF plain_keyring_new] w(1) by (simp add: WrapKeyring_def withMaster_def)
  show ?thesis using envelope_names_key[OF plain_keyring_new e] w e by auto
qed

end
