(* ===== verification/Pack.thy ===== *)
theory Pack
  imports Seal
begin

text \<open>
  \<^verbatim>\<open>core/pack\<close>: the pack format. A writer keeps its frames as the bytes of the pack and its entries in
  the order added, which is the Go struct's map and order list in one; the capacity of its buffer is
  not modelled. The zstd encoder and its bounded decoder are a parameter, as is SHA-256 (\<open>H\<close>).
\<close>

section \<open>Format\<close>

abbreviation pk_MaxChunkSize :: nat where "pk_MaxChunkSize \<equiv> 2 ^ 20"
abbreviation MaxChunksPerPack :: nat where "MaxChunksPerPack \<equiv> 2 ^ 16"
abbreviation MaxPackSize :: int where "MaxPackSize \<equiv> 2 ^ 30"
abbreviation HeaderSize :: nat where "HeaderSize \<equiv> 40"
abbreviation TrailerSize :: nat where "TrailerSize \<equiv> 16"
abbreviation sealOverhead :: nat where "sealOverhead \<equiv> 28"
abbreviation CodecRaw :: byte where "CodecRaw \<equiv> 0"
abbreviation CodecZstd :: byte where "CodecZstd \<equiv> 1"
abbreviation RawBelow :: nat where "RawBelow \<equiv> 256"

record fentry =
  fe_Hash :: hash
  fe_Offset :: u32
  fe_StoredLen :: u32
  fe_RawLen :: u32
  fe_Codec :: byte

record packinfo =
  pi_Name :: bytes
  pi_Salt :: hash
  pi_Size :: int
  pi_Entries :: "fentry list"

record built =
  bt_Name :: bytes
  bt_Bytes :: bytes
  bt_Info :: packinfo

definition PackName :: "hash \<Rightarrow> bytes" where
  "PackName s = (let h = hex_encode (hbytes s) in ascii ''packs/'' @ take 2 h @ ascii ''/'' @ h)"

definition pack_Name :: "(bytes \<Rightarrow> hash) \<Rightarrow> bytes \<Rightarrow> bytes" where
  "pack_Name H b = PackName (H b)"

section \<open>Compression\<close>

record zcodec =
  z_enc :: "bytes \<Rightarrow> bytes"
  z_dec :: "bytes \<Rightarrow> bytes option"

text \<open>What the encoder writes for a chunk the decoder, bounded at a chunk's size, reads back.\<close>

definition zcodec_ok :: "zcodec \<Rightarrow> bool" where
  "zcodec_ok Z \<longleftrightarrow> (\<forall>d. length d \<le> pk_MaxChunkSize \<longrightarrow> z_dec Z (z_enc Z d) = Some d)"

definition Compress :: "zcodec \<Rightarrow> bytes \<Rightarrow> bytes \<times> byte" where
  "Compress Z d =
     (if length d < RawBelow then (d, CodecRaw)
      else let z = z_enc Z d in if length z < length d then (z, CodecZstd) else (d, CodecRaw))"

section \<open>The writer\<close>

record pkeys =
  ks_chunk :: skey
  ks_index :: skey

text \<open>\<^verbatim>\<open>DeriveKeys\<close>; \<open>cn\<close> and \<open>xn\<close> are the nonces the two keys will draw.\<close>

definition DeriveKeys :: "crypto \<Rightarrow> keyring \<Rightarrow> bytes \<Rightarrow> hash \<Rightarrow> (nat \<Rightarrow> bytes option) \<Rightarrow> (nat \<Rightarrow> bytes option) \<Rightarrow> pkeys result" where
  "DeriveKeys C kr repo salt cn xn =
     rbind (kr_Key C kr dom_Chunk repo salt cn) (\<lambda>chunk.
     rbind (kr_Key C kr dom_PackIndex repo salt xn) (\<lambda>index.
       Inr \<lparr>ks_chunk = chunk, ks_index = index\<rparr>))"

record pwriter =
  pw_keys :: pkeys
  pw_salt :: hash
  pw_maxSize :: int
  pw_buf :: bytes
  pw_entries :: "fentry list"
  pw_finished :: bool

definition pack_header :: "hash \<Rightarrow> bytes" where
  "pack_header salt = ascii ''SCPK'' @ put_U16 1 @ put_U16 0 @ hbytes salt"

definition NewWriter :: "crypto \<Rightarrow> keyring \<Rightarrow> bytes \<Rightarrow> int \<Rightarrow> hash option \<Rightarrow> (nat \<Rightarrow> bytes option) \<Rightarrow> (nat \<Rightarrow> bytes option) \<Rightarrow> pwriter result" where
  "NewWriter C kr repo maxSize rnd cn xn =
     (if maxSize < int (HeaderSize + TrailerSize) \<or> maxSize > MaxPackSize then Inl (ErrOther ''pack: size limit'')
      else case rnd of
        None \<Rightarrow> Inl (ErrOther ''crypto/rand'')
      | Some salt \<Rightarrow> rbind (DeriveKeys C kr repo salt cn xn) (\<lambda>keys.
          Inr \<lparr>pw_keys = keys, pw_salt = salt, pw_maxSize = maxSize, pw_buf = pack_header salt, pw_entries = [], pw_finished = False\<rparr>))"

text \<open>The loop of \<^verbatim>\<open>uvarintLen\<close>.\<close>

function pk_uvarintLen :: "nat \<Rightarrow> u64 \<Rightarrow> nat" where
  "pk_uvarintLen n v = (if v \<ge> 0x80 then pk_uvarintLen (Suc n) (drop_bit 7 v) else n)"
  by pat_completeness auto
termination pk_uvarintLen
proof (relation "measure (\<lambda>(n, v). unat v)", goal_cases)
  case (2 n v)
  then have "128 \<le> unat v" by (simp add: word_le_nat_alt)
  moreover have "unat (drop_bit 7 v) = drop_bit 7 (unat v)" by (rule unat_drop_bit_eq)
  ultimately show ?case by (simp add: drop_bit_eq_div [of 7 "unat v"] del: drop_bit_numeral_minus_bit1)
qed simp

declare pk_uvarintLen.simps [simp del]

definition SealedIndexLen :: "fentry list \<Rightarrow> u64" where
  "SealedIndexLen es =
     foldl (\<lambda>n e. n + of_nat (32 + pk_uvarintLen 1 (ucast (fe_Offset e)) + pk_uvarintLen 1 (ucast (fe_StoredLen e)) +
                              pk_uvarintLen 1 (ucast (fe_RawLen e)) + 1))
       (of_nat (4 + 2 + pk_uvarintLen 1 (of_nat (length es))) + 28) es"

definition indexBound :: "int \<Rightarrow> int" where
  "indexBound n = 4 + 2 + 5 + n * (32 + 3 * 5 + 1) + 28"

definition pw_Has :: "pwriter \<Rightarrow> hash \<Rightarrow> bool" where
  "pw_Has w h \<longleftrightarrow> h \<in> fe_Hash ` set (pw_entries w)"

definition AddSealed :: "hash \<Rightarrow> nat \<Rightarrow> bytes \<Rightarrow> byte \<Rightarrow> (pwriter, unit) comp" where
  "AddSealed h rawLen sealed codec w =
     (if pw_finished w then (Inl (ErrOther ''pack: writer is finished''), w)
      else if rawLen > pk_MaxChunkSize then (Inl ErrPackTooLarge, w)
      else if length (pw_entries w) \<ge> MaxChunksPerPack then (Inl ErrPackFull, w)
      else if pw_Has w h then (Inl ErrPackDup, w)
      else if length (pw_entries w) > 0 \<and>
           int (length (pw_buf w)) + int (length sealed) + indexBound (int (length (pw_entries w)) + 1) + int TrailerSize > pw_maxSize w
      then (Inl ErrPackFull, w)
      else (Inr (), w\<lparr>pw_entries := pw_entries w @ [\<lparr>fe_Hash = h, fe_Offset = of_nat (length (pw_buf w)),
             fe_StoredLen = of_nat (length sealed), fe_RawLen = of_nat rawLen, fe_Codec = codec\<rparr>], pw_buf := pw_buf w @ sealed\<rparr>))"

definition pw_Seal :: "crypto \<Rightarrow> hash \<Rightarrow> bytes \<Rightarrow> (pwriter, bytes) comp" where
  "pw_Seal C h payload w =
     (let (r, k) = k_Seal C (hbytes h) payload (ks_chunk (pw_keys w)) in
      (r, w\<lparr>pw_keys := (pw_keys w)\<lparr>ks_chunk := k\<rparr>\<rparr>))"

definition AddCompressed :: "crypto \<Rightarrow> hash \<Rightarrow> nat \<Rightarrow> bytes \<Rightarrow> byte \<Rightarrow> (pwriter, unit) comp" where
  "AddCompressed C h rawLen payload codec w =
     (if pw_finished w \<or> rawLen > pk_MaxChunkSize \<or> length (pw_entries w) \<ge> MaxChunksPerPack
      then AddSealed h rawLen [] codec w
      else sbind (pw_Seal C h payload) (\<lambda>sealed. AddSealed h rawLen sealed codec) w)"

definition pw_Add :: "crypto \<Rightarrow> zcodec \<Rightarrow> hash \<Rightarrow> bytes \<Rightarrow> (pwriter, unit) comp" where
  "pw_Add C Z h d w =
     (if pw_finished w \<or> length d > pk_MaxChunkSize \<or> length (pw_entries w) \<ge> MaxChunksPerPack
      then AddCompressed C h (length d) [] CodecRaw w
      else let (payload, codec) = Compress Z d in AddCompressed C h (length d) payload codec w)"

definition pw_Size :: "pwriter \<Rightarrow> int" where
  "pw_Size w = int (length (pw_buf w)) + indexBound (int (length (pw_entries w))) + int TrailerSize"

definition OpenFrame :: "crypto \<Rightarrow> zcodec \<Rightarrow> (bytes \<Rightarrow> hash) \<Rightarrow> pkeys \<Rightarrow> fentry \<Rightarrow> bytes \<Rightarrow> bytes result" where
  "OpenFrame C Z H keys e sealed =
     (if length sealed \<noteq> unat (fe_StoredLen e) then Inl ErrPackCorrupt
      else case k_Open C (ks_chunk keys) (hbytes (fe_Hash e)) sealed of
        Inl _ \<Rightarrow> Inl ErrPackCorrupt
      | Inr payload \<Rightarrow>
          rbind (if fe_Codec e = CodecRaw then Inr payload
                 else if fe_Codec e = CodecZstd then
                   (if unat (fe_RawLen e) > pk_MaxChunkSize then Inl ErrPackCorrupt
                    else case z_dec Z payload of None \<Rightarrow> Inl ErrPackCorrupt | Some d \<Rightarrow> Inr d)
                 else Inl ErrPackCorrupt) (\<lambda>d.
            if length d \<noteq> unat (fe_RawLen e) then Inl ErrPackCorrupt
            else if H d \<noteq> fe_Hash e then Inl ErrPackCorrupt
            else Inr d))"

text \<open>\<^verbatim>\<open>b[e.Offset:e.Offset+e.StoredLen]\<close>, the frame of an entry.\<close>

definition frame_of :: "bytes \<Rightarrow> fentry \<Rightarrow> bytes" where
  "frame_of b e = take (unat (fe_StoredLen e)) (drop (unat (fe_Offset e)) b)"

definition pw_Get :: "crypto \<Rightarrow> zcodec \<Rightarrow> (bytes \<Rightarrow> hash) \<Rightarrow> pwriter \<Rightarrow> hash \<Rightarrow> bytes result option" where
  "pw_Get C Z H w h =
     (case filter (\<lambda>e. fe_Hash e = h) (pw_entries w) of
        [] \<Rightarrow> None
      | e # _ \<Rightarrow> Some (OpenFrame C Z H (pw_keys w) e (frame_of (pw_buf w) e)))"

definition FramesSince :: "pwriter \<Rightarrow> nat \<Rightarrow> (fentry \<times> bytes) list" where
  "FramesSince w n = map (\<lambda>e. (e, frame_of (pw_buf w) e)) (drop n (pw_entries w))"

section \<open>The index\<close>

definition put_fentry :: "fentry \<Rightarrow> bytes" where
  "put_fentry e = hbytes (fe_Hash e) @ put_Uvarint (ucast (fe_Offset e)) @ put_Uvarint (ucast (fe_StoredLen e)) @
     put_Uvarint (ucast (fe_RawLen e)) @ put_U8 (fe_Codec e)"

definition pk_encodeIndex :: "fentry list \<Rightarrow> bytes" where
  "pk_encodeIndex es = ascii ''SCPI'' @ put_U16 1 @ put_Uvarint (of_nat (length es)) @ concat (map put_fentry es)"

definition Finish :: "crypto \<Rightarrow> (bytes \<Rightarrow> hash) \<Rightarrow> (pwriter, built) comp" where
  "Finish C H w =
     (if pw_finished w then (Inl (ErrOther ''pack: writer is finished''), w)
      else let w = w\<lparr>pw_finished := True\<rparr>;
               entries = sort_key fe_Hash (pw_entries w);
               (r, k) = k_Seal C (take HeaderSize (pw_buf w)) (pk_encodeIndex entries) (ks_index (pw_keys w));
               w = w\<lparr>pw_keys := (pw_keys w)\<lparr>ks_index := k\<rparr>\<rparr> in
        (rbind r (\<lambda>sealed.
           let b = pw_buf w @ sealed @ put_U64 (of_nat (length (pw_buf w))) @ put_U32 (of_nat (length sealed)) @ ascii ''SCPE'';
               name = pack_Name H b in
           Inr \<lparr>bt_Name = name, bt_Bytes = b,
                bt_Info = \<lparr>pi_Name = name, pi_Salt = pw_salt w, pi_Size = int (length b), pi_Entries = entries\<rparr>\<rparr>), w))"

definition rd_fentry :: "u64 \<Rightarrow> fentry option \<Rightarrow> reader \<Rightarrow> err + (fentry \<times> fentry option \<times> reader)" where
  "rd_fentry indexOffset prev r =
     (let (h, r) = rd_hash r; (off, r) = rd_Uvarint r; (stored, r) = rd_Uvarint r; (raw, r) = rd_Uvarint r; (codec, r) = rd_U8 r;
          e = \<lparr>fe_Hash = h, fe_Offset = ucast off, fe_StoredLen = ucast stored, fe_RawLen = ucast raw, fe_Codec = codec\<rparr> in
      if rd_err r \<noteq> None then Inl ErrPackCorrupt
      else if stored < 28 \<or> off > indexOffset then Inl ErrPackCorrupt
      else if raw > 2 ^ 20 then Inl ErrPackCorrupt
      else if codec = CodecRaw \<and> stored \<noteq> raw + 28 then Inl ErrPackCorrupt
      else if codec = CodecZstd \<and> stored - 28 \<ge> raw then Inl ErrPackCorrupt
      else if codec \<noteq> CodecRaw \<and> codec \<noteq> CodecZstd then Inl ErrPackCorrupt
      else if (case prev of None \<Rightarrow> False | Some p \<Rightarrow> fe_Hash p \<ge> h) then Inl ErrPackCorrupt
      else Inr (e, Some e, r))"

text \<open>The walk of the frames in offset order: where the last ends, unless two overlap.\<close>

fun frames_end :: "u64 \<Rightarrow> fentry list \<Rightarrow> u64 option" where
  "frames_end at [] = Some at"
| "frames_end at (e # es) =
     (if ucast (fe_Offset e) < at then None else frames_end (ucast (fe_Offset e) + ucast (fe_StoredLen e)) es)"

definition pk_decodeIndex :: "bytes \<Rightarrow> u64 \<Rightarrow> fentry list result" where
  "pk_decodeIndex b indexOffset =
     (let r = NewReader b; (magic, r) = rd_Fixed 4 r; (v, r) = rd_U16 r; (n, r) = rd_Uvarint r in
      if rd_err r \<noteq> None \<or> magic \<noteq> ascii ''SCPI'' \<or> v \<noteq> 1 \<or> n > 2 ^ 16 then Inl ErrPackCorrupt
      else rbind (rd_loop (rd_fentry indexOffset) (unat n) None r) (\<lambda>(entries, _, r).
        if rd_Done r \<noteq> None then Inl ErrPackCorrupt
        else case frames_end 40 (sort_key fe_Offset entries) of
          None \<Rightarrow> Inl ErrPackCorrupt
        | Some at \<Rightarrow> if at > indexOffset then Inl ErrPackCorrupt else Inr entries))"

text \<open>\<^verbatim>\<open>b[lo:hi]\<close> with 64-bit bounds: out of range, the run-time panics.\<close>

definition go_slice :: "bytes \<Rightarrow> u64 \<Rightarrow> u64 \<Rightarrow> bytes result" where
  "go_slice b lo hi = (if lo \<le> hi \<and> unat hi \<le> length b then Inr (drop (unat lo) (take (unat hi) b)) else Inl (Panic ''slice bounds out of range''))"

definition ReadInfo :: "crypto \<Rightarrow> (bytes \<Rightarrow> hash) \<Rightarrow> bytes \<Rightarrow> bytes \<Rightarrow> keyring \<Rightarrow> bytes \<Rightarrow> packinfo result" where
  "ReadInfo C H name b kr repo =
     (if length b < HeaderSize + TrailerSize then Inl ErrPackCorrupt
      else if pack_Name H b \<noteq> name then Inl ErrPackCorrupt
      else let h = NewReader (take HeaderSize b); (magic, h) = rd_Fixed 4 h; (v, h) = rd_U16 h; (flags, h) = rd_U16 h; (salt, h) = rd_hash h in
        if rd_Done h \<noteq> None \<or> magic \<noteq> ascii ''SCPK'' \<or> v \<noteq> 1 \<or> flags \<noteq> 0 then Inl ErrPackCorrupt
        else let t = NewReader (drop (length b - TrailerSize) b); (indexOffset, t) = rd_U64 t; (il, t) = rd_U32 t; (tmagic, t) = rd_Fixed 4 t;
                 indexLen = ucast il :: u64 in
          if rd_Done t \<noteq> None \<or> tmagic \<noteq> ascii ''SCPE'' \<or> indexOffset < 40 \<or> indexOffset + indexLen + 16 \<noteq> of_nat (length b)
          then Inl ErrPackCorrupt
          else rbind (DeriveKeys C kr repo salt (\<lambda>_. None) (\<lambda>_. None)) (\<lambda>keys.
               rbind (go_slice b indexOffset (indexOffset + indexLen)) (\<lambda>sealed.
               case k_Open C (ks_index keys) (take HeaderSize b) sealed of
                 Inl _ \<Rightarrow> Inl ErrPackCorrupt
               | Inr plain \<Rightarrow>
                   rbind (pk_decodeIndex plain indexOffset) (\<lambda>entries.
                     Inr \<lparr>pi_Name = name, pi_Salt = salt, pi_Size = int (length b), pi_Entries = entries\<rparr>))))"


section \<open>Lemmas: the index\<close>

lemma unat_up [simp]: "unat (ucast (w :: u32) :: u64) = unat w"
  using unat_lt2p[of w] by (intro unat_ucast_small) simp

lemma ucast_up_down [simp]: "(ucast (ucast (w :: u32) :: u64) :: u32) = w"
  using unat_ucast_small[of "ucast w :: u64", where ?'b = 32] unat_lt2p[of w] by (simp add: word_unat_eq_iff)

lemma ucast_down_up: "unat (v :: u64) < 2 ^ 32 \<Longrightarrow> ucast (ucast v :: u32) = v"
  using unat_ucast_small[of v, where ?'b = 32] by (simp add: word_unat_eq_iff)

text \<open>The entries a decoder keeps, of a pack whose index starts at \<open>io\<close>.\<close>

definition fe_ok :: "nat \<Rightarrow> fentry \<Rightarrow> bool" where
  "fe_ok io e \<longleftrightarrow> 28 \<le> unat (fe_StoredLen e) \<and> unat (fe_Offset e) \<le> io \<and> unat (fe_RawLen e) \<le> pk_MaxChunkSize \<and>
     (fe_Codec e = CodecRaw \<and> unat (fe_StoredLen e) = unat (fe_RawLen e) + 28 \<or>
      fe_Codec e = CodecZstd \<and> unat (fe_StoredLen e) < unat (fe_RawLen e) + 28)"

definition fe_fits :: "nat \<Rightarrow> fentry option \<Rightarrow> fentry \<Rightarrow> bool" where
  "fe_fits io prev e \<longleftrightarrow> fe_ok io e \<and> (\<forall>p. prev = Some p \<longrightarrow> fe_Hash p < fe_Hash e)"

lemma unat_sub28: "28 \<le> unat (v :: u64) \<Longrightarrow> unat (v - 28) = unat v - 28"
  by (simp add: unat_sub word_le_nat_alt)

lemma unat_add28: "unat (v :: u64) \<le> 2 ^ 20 \<Longrightarrow> unat (v + 28) = unat v + 28"
  by (subst unat_add_small) (simp_all add: word_le_nat_alt)

lemma rd_fentry_at:
  assumes "fe_fits (unat io) prev e"
  shows "rd_fentry io prev (rd_at pre (put_fentry e @ rest)) = Inr (e, Some e, rd_at (pre @ put_fentry e) rest)"
proof -
  have "(ucast (fe_StoredLen e) = (ucast (fe_RawLen e) + 28 :: u64)) = (fe_Codec e = CodecRaw)"
    using assms unat_add28[of "ucast (fe_RawLen e)"] by (auto simp: fe_fits_def fe_ok_def word_unat_eq_iff)
  moreover have "\<not> (ucast (fe_RawLen e) :: u64) \<le> ucast (fe_StoredLen e) - 28" if "fe_Codec e = CodecZstd"
    using assms that unat_sub28[of "ucast (fe_StoredLen e)"] by (auto simp: fe_fits_def fe_ok_def word_le_nat_alt)
  ultimately show ?thesis using assms
    by (cases e) (auto simp: rd_fentry_def put_fentry_def wire_simps Let_def fe_fits_def fe_ok_def word_le_nat_alt word_less_nat_alt
        not_le not_less split: option.splits)
qed

lemma rd_fentry_took:
  assumes rd: "rd_fentry io prev r = Inr (e, st, r')" and io: "unat io < 2 ^ 32"
  shows "rd_took r (put_fentry e) r' \<and> fe_fits (unat io) prev e \<and> st = Some e"
proof -
  obtain h r1 off r2 stored r3 raw r4 codec where h: "rd_hash r = (h, r1)" and o: "rd_Uvarint r1 = (off, r2)"
    and s: "rd_Uvarint r2 = (stored, r3)" and w: "rd_Uvarint r3 = (raw, r4)" and c: "rd_U8 r4 = (codec, r')"
    and e: "e = \<lparr>fe_Hash = h, fe_Offset = ucast off, fe_StoredLen = ucast stored, fe_RawLen = ucast raw, fe_Codec = codec\<rparr>"
    and st: "st = Some e" and err: "rd_err r' = None"
    and g: "\<not> stored < 28" "off \<le> io" "raw \<le> 2 ^ 20" "codec = CodecRaw \<Longrightarrow> stored = raw + 28" "codec = CodecZstd \<Longrightarrow> \<not> stored - 28 \<ge> raw"
      "codec = CodecRaw \<or> codec = CodecZstd" "\<forall>p. prev = Some p \<longrightarrow> fe_Hash p < h"
    using rd by (auto simp: rd_fentry_def Let_def not_le not_less split: prod.splits if_splits option.splits)
  have l: "unat off \<le> unat io" "28 \<le> unat stored" "unat raw \<le> 2 ^ 20"
    using g(1-3) by (simp_all add: word_le_nat_alt word_less_nat_alt)
  have cd: "codec = CodecRaw \<and> unat stored = unat raw + 28 \<or> codec = CodecZstd \<and> unat stored < unat raw + 28"
    using g(4-6) l unat_add28[OF l(3)] unat_sub28[OF l(2)] by (auto simp: not_le word_less_nat_alt)
  have u: "ucast (ucast off :: u32) = off" "ucast (ucast stored :: u32) = stored" "ucast (ucast raw :: u32) = raw"
    using l cd io by (auto intro!: ucast_down_up)
  have v: "unat (ucast off :: u32) = unat off" "unat (ucast stored :: u32) = unat stored" "unat (ucast raw :: u32) = unat raw"
    using l cd io by (auto intro!: unat_ucast_small)
  note t5 = rd_U8_took[OF c err]
  note t4 = rd_Uvarint_took[OF w conjunct1[OF rd_tookD[OF t5]]]
  note t3 = rd_Uvarint_took[OF s conjunct1[OF rd_tookD[OF t4]]]
  note t2 = rd_Uvarint_took[OF o conjunct1[OF rd_tookD[OF t3]]]
  note t1 = rd_hash_took[OF h conjunct1[OF rd_tookD[OF t2]]]
  show ?thesis
    using rd_took_trans[OF t1 rd_took_trans[OF t2 rd_took_trans[OF t3 rd_took_trans[OF t4 t5]]]] l cd g(7) st e u v
    by (simp add: put_fentry_def fe_fits_def fe_ok_def)
qed

lemma chain_fentries:
  "chain_ok (fe_fits io) (\<lambda>_ e. Some e) prev es \<longleftrightarrow>
     list_all (fe_ok io) es \<and> sorted_wrt (\<lambda>a b. fe_Hash a < fe_Hash b) es \<and>
     (\<forall>p e. prev = Some p \<longrightarrow> e \<in> set es \<longrightarrow> fe_Hash p < fe_Hash e)"
  by (induction es arbitrary: prev) (auto simp: fe_fits_def intro: less_trans)

text \<open>Frames in order of their offsets, each past the end of the one before.\<close>

lemma frames_end_ok:
  "frames_end a es = Some z \<Longrightarrow> sorted_wrt (\<lambda>x y. unat (fe_Offset x) + unat (fe_StoredLen x) \<le> unat (fe_Offset y)) es \<and>
     (\<forall>e \<in> set es. unat a \<le> unat (fe_Offset e) \<and> unat (fe_Offset e) + unat (fe_StoredLen e) \<le> unat z) \<and> unat a \<le> unat z"
proof (induction es arbitrary: a)
  case (Cons e es)
  have u: "unat (ucast (fe_Offset e) + ucast (fe_StoredLen e) :: u64) = unat (fe_Offset e) + unat (fe_StoredLen e)"
    using unat_lt2p[of "fe_Offset e"] unat_lt2p[of "fe_StoredLen e"] by (subst unat_add_small) simp_all
  have "\<not> ucast (fe_Offset e) < a" using Cons.prems by (auto split: if_splits)
  then have "unat a \<le> unat (fe_Offset e)" by (simp add: word_less_nat_alt)
  with Cons.IH[of "ucast (fe_Offset e) + ucast (fe_StoredLen e)"] Cons.prems u show ?case
    by (auto split: if_splits)
qed simp

section \<open>Lemmas: the index as a whole\<close>

definition frames_apart :: "nat \<Rightarrow> fentry list \<Rightarrow> bool" where
  "frames_apart io es \<longleftrightarrow>
     (\<forall>e \<in> set es. HeaderSize \<le> unat (fe_Offset e) \<and> unat (fe_Offset e) + unat (fe_StoredLen e) \<le> io) \<and>
     (\<forall>x \<in> set es. \<forall>y \<in> set es. x \<noteq> y \<longrightarrow>
        unat (fe_Offset x) + unat (fe_StoredLen x) \<le> unat (fe_Offset y) \<or> unat (fe_Offset y) + unat (fe_StoredLen y) \<le> unat (fe_Offset x))"

definition index_ok :: "nat \<Rightarrow> fentry list \<Rightarrow> bool" where
  "index_ok io es \<longleftrightarrow> length es \<le> MaxChunksPerPack \<and> HeaderSize \<le> io \<and> list_all (fe_ok io) es \<and>
     sorted_wrt (\<lambda>a b. fe_Hash a < fe_Hash b) es \<and> frames_apart io es"

lemma frames_end_walks:
  assumes "sorted (map fe_Offset es)" and "distinct es" and "\<forall>e \<in> set es. 28 \<le> unat (fe_StoredLen e)"
    and "frames_apart io es" and "\<forall>e \<in> set es. unat a \<le> unat (fe_Offset e)" and "unat a \<le> io"
  shows "\<exists>z. frames_end a es = Some z \<and> unat z \<le> io"
  using assms
proof (induction es arbitrary: a)
  case (Cons e es)
  have u: "unat (ucast (fe_Offset e) + ucast (fe_StoredLen e) :: u64) = unat (fe_Offset e) + unat (fe_StoredLen e)"
    using unat_lt2p[of "fe_Offset e"] unat_lt2p[of "fe_StoredLen e"] by (subst unat_add_small) simp_all
  have "unat (fe_Offset e) + unat (fe_StoredLen e) \<le> unat (fe_Offset y)" if y: "y \<in> set es" for y
  proof -
    have "unat (fe_Offset e) \<le> unat (fe_Offset y)" using Cons.prems(1) y by (auto simp: word_le_nat_alt)
    moreover have "e \<noteq> y" "28 \<le> unat (fe_StoredLen y)" using Cons.prems(2,3) y by auto
    ultimately show ?thesis using Cons.prems(4) y by (auto simp: frames_apart_def)
  qed
  moreover have "frames_apart io es" using Cons.prems(4) by (auto simp: frames_apart_def)
  moreover have "unat (fe_Offset e) + unat (fe_StoredLen e) \<le> io" using Cons.prems(4) by (auto simp: frames_apart_def)
  ultimately have "\<exists>z. frames_end (ucast (fe_Offset e) + ucast (fe_StoredLen e)) es = Some z \<and> unat z \<le> io"
    using Cons.prems(1-3) u by (intro Cons.IH) auto
  then show ?case using Cons.prems(5) by (simp add: word_less_nat_alt)
qed simp

lemma frames_end_apart:
  assumes "frames_end 40 (sort_key fe_Offset es) = Some z" and "unat z \<le> io"
  shows "frames_apart io es" and "HeaderSize \<le> io"
proof -
  let ?xs = "sort_key fe_Offset es"
  have w: "sorted_wrt (\<lambda>x y. unat (fe_Offset x) + unat (fe_StoredLen x) \<le> unat (fe_Offset y)) ?xs"
    and b: "\<forall>e \<in> set es. 40 \<le> unat (fe_Offset e) \<and> unat (fe_Offset e) + unat (fe_StoredLen e) \<le> io" "HeaderSize \<le> io"
    using frames_end_ok[OF assms(1)] assms(2) by auto
  show "HeaderSize \<le> io" by (rule b(2))
  have "unat (fe_Offset x) + unat (fe_StoredLen x) \<le> unat (fe_Offset y) \<or> unat (fe_Offset y) + unat (fe_StoredLen y) \<le> unat (fe_Offset x)"
    if xy: "x \<in> set es" "y \<in> set es" "x \<noteq> y" for x y
  proof -
    obtain i j where ij: "i < length ?xs" "j < length ?xs" "?xs ! i = x" "?xs ! j = y"
      using xy(1,2) by (metis in_set_conv_nth set_sort)
    with xy(3) have "i < j \<or> j < i" by (metis linorder_neqE_nat)
    then show ?thesis using sorted_wrt_nth_less[OF w] ij by blast
  qed
  then show "frames_apart io es" using b by (simp add: frames_apart_def)
qed

lemma sorted_hash_distinct: "sorted_wrt (\<lambda>a b. fe_Hash a < fe_Hash b) es \<Longrightarrow> distinct es"
  by (induction es) auto

lemma pk_decodeIndex_encode:
  assumes "index_ok (unat io) es"
  shows "pk_decodeIndex (pk_encodeIndex es) io = Inr es"
proof -
  have n: "unat (of_nat (length es) :: u64) = length es" using assms by (intro unat_of_nat_small) (simp add: index_ok_def)
  then have "\<not> (of_nat (length es) :: u64) > 2 ^ 16" using assms by (simp add: index_ok_def word_less_nat_alt)
  moreover have "chain_ok (fe_fits (unat io)) (\<lambda>_ e. Some e) None es"
    using assms by (simp add: chain_fentries index_ok_def)
  note rd_loop_at[where step = "rd_fentry io", OF rd_fentry_at this, of _ "[]"]
  moreover have "\<exists>z. frames_end 40 (sort_key fe_Offset es) = Some z \<and> unat z \<le> unat io"
    using assms sorted_hash_distinct[of es]
    by (intro frames_end_walks) (auto simp: index_ok_def list_all_iff fe_ok_def frames_apart_def)
  then obtain z where "frames_end 40 (sort_key fe_Offset es) = Some z" "\<not> z > io" by (auto simp: word_less_nat_alt not_less)
  ultimately show ?thesis
    by (simp add: pk_decodeIndex_def pk_encodeIndex_def NewReader_at wire_simps at_done n Let_def)
qed

lemma pk_decodeIndex_inv:
  assumes "pk_decodeIndex b io = Inr es" and "unat io < 2 ^ 32"
  shows "b = pk_encodeIndex es" and "index_ok (unat io) es"
proof -
  obtain magic r1 v r2 n r3 st r4 z where m: "rd_Fixed 4 (NewReader b) = (magic, r1)" and v: "rd_U16 r1 = (v, r2)"
    and n: "rd_Uvarint r2 = (n, r3)" and ok: "rd_err r3 = None" "magic = ascii ''SCPI''" "v = 1" "\<not> n > 2 ^ 16"
    and es: "rd_loop (rd_fentry io) (unat n) None r3 = Inr (es, st, r4)" and dn: "rd_Done r4 = None"
    and z: "frames_end 40 (sort_key fe_Offset es) = Some z" "\<not> z > io"
    using assms(1) by (auto simp: pk_decodeIndex_def result_simps Let_def split: prod.splits if_splits option.splits sum.splits)
  note t3 = rd_Uvarint_took[OF n ok(1)]
  note t2 = rd_U16_took[OF v conjunct1[OF rd_tookD[OF t3]]]
  note t1 = rd_Fixed_took[OF m conjunct1[OF rd_tookD[OF t2]]]
  note t4 = rd_loop_took[where enc = put_fentry and P = "fe_fits (unat io)" and nxt = "\<lambda>_ e. Some e", OF rd_fentry_took[OF _ assms(2)] es rd_took_ok[OF t3]]
  have l: "of_nat (length es) = n" "length es = unat n" using t4 by auto
  then show "b = pk_encodeIndex es"
    using rd_took_all[OF rd_took_trans[OF conjunct1[OF t1] rd_took_trans[OF t2 rd_took_trans[OF t3 conjunct1[OF t4]]]] dn] ok
    by (simp add: pk_encodeIndex_def)
  have "unat z \<le> unat io" using z(2) by (simp add: word_less_nat_alt)
  from frames_end_apart[OF z(1) this] t4 l ok(4) show "index_ok (unat io) es"
    by (auto simp: index_ok_def chain_fentries word_less_nat_alt)
qed

section \<open>Lemmas: keys and frames\<close>

text \<open>Two keys that open the same messages.\<close>

definition same_key :: "skey \<Rightarrow> skey \<Rightarrow> bool" where
  "same_key a b \<longleftrightarrow> k_aead a = k_aead b \<and> k_tag a = k_tag b \<and> k_destroyed a = k_destroyed b"

lemma same_key_open: "same_key a b \<Longrightarrow> k_Open C a = k_Open C b"
  by (intro ext) (simp add: same_key_def k_Open_def k_aad_def)

lemma same_key_seal:
  assumes "k_Seal C ctx p k = (r, k')"
  shows "same_key k' k" and "k_nonces k' = k_nonces k"
  using k_Seal_fields[OF assms] by (simp_all add: same_key_def)

lemma same_key_trans: "same_key a b \<Longrightarrow> same_key b c \<Longrightarrow> same_key a c"
  by (simp add: same_key_def)

lemma OpenFrame_same: "same_key (ks_chunk a) (ks_chunk b) \<Longrightarrow> OpenFrame C Z H a = OpenFrame C Z H b"
  using same_key_open by (intro ext) (auto simp: OpenFrame_def)

lemma DeriveKeys_any:
  assumes "DeriveKeys C kr repo salt cn xn = Inr keys"
  shows "\<exists>ks. DeriveKeys C kr repo salt cn' xn' = Inr ks \<and> same_key (ks_chunk ks) (ks_chunk keys) \<and> same_key (ks_index ks) (ks_index keys)"
    and "\<not> k_destroyed (ks_chunk keys)" "\<not> k_destroyed (ks_index keys)"
    and "k_nonces (ks_chunk keys) = cn" "k_nonces (ks_index keys) = xn"
  using assms by (auto simp: DeriveKeys_def kr_Key_def withMaster_def same_key_def Let_def result_simps split: if_splits)

lemma Compress_cases:
  obtains (raw) "Compress Z d = (d, CodecRaw)"
  | (zstd) "Compress Z d = (z_enc Z d, CodecZstd)" "length (z_enc Z d) < length d"
  unfolding Compress_def Let_def by (cases "length d < RawBelow"; cases "length (z_enc Z d) < length d") simp_all

text \<open>A frame of a chunk: what sealing the chunk's payload under the pack's key gave.\<close>

definition frame_for :: "crypto \<Rightarrow> zcodec \<Rightarrow> (bytes \<Rightarrow> hash) \<Rightarrow> pkeys \<Rightarrow> bytes \<Rightarrow> bytes \<Rightarrow> bool" where
  "frame_for C Z H keys d s \<longleftrightarrow> length d \<le> pk_MaxChunkSize \<and>
     k_Open C (ks_chunk keys) (hbytes (H d)) s = Inr (fst (Compress Z d)) \<and> length s = length (fst (Compress Z d)) + 28"

lemma frame_for_same: "same_key (ks_chunk a) (ks_chunk b) \<Longrightarrow> frame_for C Z H a = frame_for C Z H b"
  using same_key_open by (intro ext) (auto simp: frame_for_def)

lemma frame_for_len: "frame_for C Z H keys d s \<Longrightarrow> length s \<le> pk_MaxChunkSize + 28"
  by (cases rule: Compress_cases[of Z d]) (auto simp: frame_for_def)

lemma OpenFrame_frame_for:
  assumes "frame_for C Z H keys d s" and "zcodec_ok Z"
    and e: "e = \<lparr>fe_Hash = H d, fe_Offset = off, fe_StoredLen = of_nat (length s), fe_RawLen = of_nat (length d), fe_Codec = snd (Compress Z d)\<rparr>"
  shows "OpenFrame C Z H keys e s = Inr d" and "unat off \<le> io \<Longrightarrow> fe_ok io e"
proof -
  have l: "length d \<le> 2 ^ 20" "length s \<le> 2 ^ 20 + 28" using assms(1) frame_for_len[OF assms(1)] by (auto simp: frame_for_def)
  have u: "unat (of_nat (length d) :: u32) = length d" "unat (of_nat (length s) :: u32) = length s"
    using l by (simp_all add: unat_of_nat_small)
  have z: "z_dec Z (z_enc Z d) = Some d" using assms(2) l(1) by (simp add: zcodec_ok_def)
  show "OpenFrame C Z H keys e s = Inr d"
    using assms(1) u z l(1) by (cases rule: Compress_cases[of Z d]) (auto simp: OpenFrame_def frame_for_def e)
  show "fe_ok io e" if "unat off \<le> io"
    using assms(1) u l(1) that by (cases rule: Compress_cases[of Z d]) (auto simp: fe_ok_def frame_for_def e)
qed

lemma OpenFrame_verified:
  "OpenFrame C Z H keys e s = Inr d \<Longrightarrow> H d = fe_Hash e \<and> length d = unat (fe_RawLen e) \<and> length s = unat (fe_StoredLen e)"
  by (auto simp: OpenFrame_def result_simps split: if_splits sum.splits)

lemma frame_of_append: "unat (fe_Offset e) + unat (fe_StoredLen e) \<le> length b \<Longrightarrow> frame_of (b @ c) e = frame_of b e"
  by (simp add: frame_of_def)

section \<open>Lemmas: the writer\<close>

text \<open>
  A writer that has accepted the chunks \<open>cs\<close>: its frames lie one after the other behind the header,
  each opens to its chunk, and the pack is far from the 32 bits of an offset.
\<close>

definition pw_room :: "pwriter \<Rightarrow> bool" where
  "pw_room w \<longleftrightarrow> (if length (pw_entries w) \<le> 1 then length (pw_buf w) \<le> HeaderSize + pk_MaxChunkSize + 28
     else int (length (pw_buf w)) + indexBound (int (length (pw_entries w))) + int TrailerSize \<le> pw_maxSize w)"

definition pw_holds :: "crypto \<Rightarrow> zcodec \<Rightarrow> (bytes \<Rightarrow> hash) \<Rightarrow> pwriter \<Rightarrow> bytes list \<Rightarrow> bool" where
  "pw_holds C Z H w cs \<longleftrightarrow>
     take HeaderSize (pw_buf w) = pack_header (pw_salt w) \<and> HeaderSize \<le> length (pw_buf w) \<and> length (pw_buf w) < 2 ^ 31 \<and>
     (pw_entries w = [] \<longrightarrow> length (pw_buf w) = HeaderSize) \<and> pw_maxSize w \<le> MaxPackSize \<and> pw_room w \<and>
     length (pw_entries w) \<le> MaxChunksPerPack \<and> distinct (map fe_Hash (pw_entries w)) \<and> frames_apart (length (pw_buf w)) (pw_entries w) \<and>
     list_all2 (\<lambda>e d. fe_Hash e = H d \<and> fe_ok (length (pw_buf w)) e \<and> OpenFrame C Z H (pw_keys w) e (frame_of (pw_buf w) e) = Inr d)
       (pw_entries w) cs"

lemma length_pack_header [simp]: "length (pack_header salt) = 40"
  by (simp add: pack_header_def put_U16_def)

lemma NewWriter_holds:
  assumes "NewWriter C kr repo m rnd cn xn = Inr w"
  shows "pw_holds C Z H w []" and "DeriveKeys C kr repo (pw_salt w) cn xn = Inr (pw_keys w)" and "\<not> pw_finished w"
  using assms by (auto simp: NewWriter_def pw_holds_def pw_room_def frames_apart_def result_simps split: if_splits option.splits sum.splits)

lemma fe_ok_mono: "fe_ok io e \<Longrightarrow> io \<le> io' \<Longrightarrow> fe_ok io' e"
  by (auto simp: fe_ok_def)

lemma pw_holds_keys:
  "pw_holds C Z H w cs \<Longrightarrow> same_key (ks_chunk k) (ks_chunk (pw_keys w)) \<Longrightarrow> pw_holds C Z H (w\<lparr>pw_keys := k\<rparr>) cs"
  using OpenFrame_same[of k "pw_keys w" C Z H] by (simp add: pw_holds_def pw_room_def split: if_splits)

lemma AddSealed_cases:
  assumes "AddSealed h n s c w = (r, w')"
  shows "(\<exists>e. r = Inl e) \<and> w' = w \<or>
    r = Inr () \<and> \<not> pw_finished w \<and> length (pw_entries w) < MaxChunksPerPack \<and> h \<notin> fe_Hash ` set (pw_entries w) \<and>
    (pw_entries w \<noteq> [] \<longrightarrow> int (length (pw_buf w)) + int (length s) + indexBound (int (length (pw_entries w)) + 1) + 16 \<le> pw_maxSize w) \<and>
    w' = w\<lparr>pw_entries := pw_entries w @ [\<lparr>fe_Hash = h, fe_Offset = of_nat (length (pw_buf w)),
      fe_StoredLen = of_nat (length s), fe_RawLen = of_nat n, fe_Codec = c\<rparr>], pw_buf := pw_buf w @ s\<rparr>"
  using assms by (auto simp: AddSealed_def pw_Has_def split: if_splits)

lemma AddSealed_holds:
  assumes h: "pw_holds C Z H w cs" and f: "frame_for C Z H (pw_keys w) d s" and z: "zcodec_ok Z"
    and add: "AddSealed (H d) (length d) s (snd (Compress Z d)) w = (Inr (), w')"
  shows "pw_holds C Z H w' (cs @ [d])"
proof -
  define e where "e = \<lparr>fe_Hash = H d, fe_Offset = of_nat (length (pw_buf w)), fe_StoredLen = of_nat (length s),
      fe_RawLen = of_nat (length d), fe_Codec = snd (Compress Z d)\<rparr>"
  let ?b = "pw_buf w @ s"
  have c: "\<not> pw_finished w" "length (pw_entries w) < MaxChunksPerPack" "H d \<notin> fe_Hash ` set (pw_entries w)"
    and room: "pw_entries w \<noteq> [] \<longrightarrow> int (length (pw_buf w)) + int (length s) + indexBound (int (length (pw_entries w)) + 1) + 16 \<le> pw_maxSize w"
    and w': "w' = w\<lparr>pw_entries := pw_entries w @ [e], pw_buf := ?b\<rparr>"
    using AddSealed_cases[OF add] by (auto simp: e_def)
  have ls: "length s \<le> 2 ^ 20 + 28" "28 \<le> length s" using frame_for_len[OF f] f by (auto simp: frame_for_def)
  have lb: "length ?b < 2 ^ 31" using h room ls(1) by (auto simp: pw_holds_def indexBound_def)
  have rm: "pw_room (w\<lparr>pw_entries := pw_entries w @ [e], pw_buf := ?b\<rparr>)"
    using h room ls(1) by (cases "pw_entries w") (auto simp: pw_holds_def pw_room_def add.commute)
  have u: "unat (fe_Offset e) = length (pw_buf w)" "unat (fe_StoredLen e) = length s"
    using lb ls by (simp_all add: e_def unat_of_nat_small)
  have fe: "frame_of ?b e = s" using u by (simp add: frame_of_def)
  note o = OpenFrame_frame_for[OF f z e_def]
  have old: "unat (fe_Offset x) + unat (fe_StoredLen x) \<le> length (pw_buf w)" if "x \<in> set (pw_entries w)" for x
    using h that by (auto simp: pw_holds_def frames_apart_def)
  have eh: "fe_Hash e = H d" by (simp add: e_def)
  have fo: "fe_ok (length ?b) e" using u(1) by (intro o(2)) (simp add: e_def)
  have "list_all2 (\<lambda>x d. fe_Hash x = H d \<and> fe_ok (length ?b) x \<and> OpenFrame C Z H (pw_keys w) x (frame_of ?b x) = Inr d) (pw_entries w) cs"
    using h unfolding pw_holds_def
    by (elim conjE) (erule list.rel_mono_strong, auto simp: old frame_of_append elim: fe_ok_mono)
  then have "list_all2 (\<lambda>x d. fe_Hash x = H d \<and> fe_ok (length ?b) x \<and> OpenFrame C Z H (pw_keys w) x (frame_of ?b x) = Inr d)
      (pw_entries w @ [e]) (cs @ [d])"
    using o(1) fo fe eh by (intro list_all2_appendI) simp_all
  moreover have "frames_apart (length ?b) (pw_entries w @ [e])"
    using h u by (auto simp: pw_holds_def frames_apart_def)
  ultimately show ?thesis using h lb c eh rm unfolding w' pw_holds_def by simp
qed

definition pw_keyed :: "crypto \<Rightarrow> keyring \<Rightarrow> bytes \<Rightarrow> pwriter \<Rightarrow> bool" where
  "pw_keyed C kr repo w \<longleftrightarrow>
     (\<exists>keys. DeriveKeys C kr repo (pw_salt w) (\<lambda>_. None) (\<lambda>_. None) = Inr keys \<and>
        same_key (ks_chunk keys) (ks_chunk (pw_keys w)) \<and> same_key (ks_index keys) (ks_index (pw_keys w))) \<and>
     \<not> k_destroyed (ks_chunk (pw_keys w)) \<and> \<not> k_destroyed (ks_index (pw_keys w)) \<and>
     nonces_ok (k_nonces (ks_chunk (pw_keys w))) \<and> nonces_ok (k_nonces (ks_index (pw_keys w)))"

text \<open>
  The life of a writer up to \<^verbatim>\<open>Finish\<close>: chunks added, payloads sealed ahead on other goroutines, and the
  frames so made added later, in any order; \<open>pool\<close> holds the frames made and \<open>cs\<close> the chunks accepted.
\<close>

inductive pack_run :: "crypto \<Rightarrow> zcodec \<Rightarrow> (bytes \<Rightarrow> hash) \<Rightarrow> keyring \<Rightarrow> bytes \<Rightarrow> pwriter \<Rightarrow> (bytes \<times> bytes) list \<Rightarrow> bytes list \<Rightarrow> bool"
  for C Z H kr repo where
  run_new: "\<lbrakk>NewWriter C kr repo m rnd cn xn = Inr w; nonces_ok cn; nonces_ok xn\<rbrakk> \<Longrightarrow> pack_run C Z H kr repo w [] []"
| run_add: "\<lbrakk>pack_run C Z H kr repo w pool cs; pw_Add C Z (H d) d w = (r, w')\<rbrakk> \<Longrightarrow>
    pack_run C Z H kr repo w' pool (if r = Inr () then cs @ [d] else cs)"
| run_seal: "\<lbrakk>pack_run C Z H kr repo w pool cs; length d \<le> pk_MaxChunkSize; pw_Seal C (H d) (fst (Compress Z d)) w = (Inr s, w')\<rbrakk> \<Longrightarrow>
    pack_run C Z H kr repo w' ((d, s) # pool) cs"
| run_frame: "\<lbrakk>pack_run C Z H kr repo w pool cs; (d, s) \<in> set pool; AddSealed (H d) (length d) s (snd (Compress Z d)) w = (r, w')\<rbrakk> \<Longrightarrow>
    pack_run C Z H kr repo w' pool (if r = Inr () then cs @ [d] else cs)"

definition pack_inv :: "crypto \<Rightarrow> zcodec \<Rightarrow> (bytes \<Rightarrow> hash) \<Rightarrow> keyring \<Rightarrow> bytes \<Rightarrow> pwriter \<Rightarrow> (bytes \<times> bytes) list \<Rightarrow> bytes list \<Rightarrow> bool" where
  "pack_inv C Z H kr repo w pool cs \<longleftrightarrow> pw_holds C Z H w cs \<and> pw_keyed C kr repo w \<and> \<not> pw_finished w \<and>
     (\<forall>(d, s) \<in> set pool. frame_for C Z H (pw_keys w) d s)"

lemma pw_Seal_inv:
  assumes inv: "pack_inv C Z H kr repo w pool cs" and C: "crypto_ok C" and d: "length d \<le> pk_MaxChunkSize"
    and s: "pw_Seal C (H d) (fst (Compress Z d)) w = (r, w')"
  shows "pack_inv C Z H kr repo w' pool cs" and "r = Inr s \<Longrightarrow> frame_for C Z H (pw_keys w') d s"
    and "pw_entries w' = pw_entries w" and "pw_finished w' = pw_finished w"
proof -
  obtain k where k: "k_Seal C (hbytes (H d)) (fst (Compress Z d)) (ks_chunk (pw_keys w)) = (r, k)"
    and w': "w' = w\<lparr>pw_keys := (pw_keys w)\<lparr>ks_chunk := k\<rparr>\<rparr>"
    using s by (auto simp: pw_Seal_def split: prod.splits)
  note same = same_key_seal[OF k]
  show "pw_entries w' = pw_entries w" "pw_finished w' = pw_finished w" by (simp_all add: w')
  have ff: "frame_for C Z H (pw_keys w') = frame_for C Z H (pw_keys w)" using same by (intro frame_for_same) (simp add: w')
  have "pw_holds C Z H w' cs" using inv pw_holds_keys[of C Z H w cs "pw_keys w'"] same by (simp add: pack_inv_def w')
  moreover have "pw_keyed C kr repo w'" using inv same by (auto simp: pack_inv_def pw_keyed_def w' same_key_def)
  ultimately show "pack_inv C Z H kr repo w' pool cs" using inv ff by (simp add: pack_inv_def w')
  show "frame_for C Z H (pw_keys w') d s" if "r = Inr s"
    using k_Open_Seal[OF C _ k[unfolded that], of "ks_chunk (pw_keys w)"] inv d
    unfolding ff by (auto simp: frame_for_def pack_inv_def pw_keyed_def)
qed

lemma AddSealed_inv:
  assumes inv: "pack_inv C Z H kr repo w pool cs" and f: "frame_for C Z H (pw_keys w) d s" and z: "zcodec_ok Z"
    and a: "AddSealed (H d) (length d) s (snd (Compress Z d)) w = (r, w')"
  shows "pack_inv C Z H kr repo w' pool (if r = Inr () then cs @ [d] else cs)"
proof (cases "r = Inr ()")
  case True
  have "pw_holds C Z H w' (cs @ [d])" using inv f z a[unfolded True] by (auto simp: pack_inv_def intro: AddSealed_holds)
  moreover have "pw_keys w' = pw_keys w" "pw_salt w' = pw_salt w" "pw_finished w' = pw_finished w" using AddSealed_cases[OF a] by auto
  ultimately show ?thesis using inv True by (simp add: pack_inv_def pw_keyed_def)
next
  case False
  then have "w' = w" using AddSealed_cases[OF a] by auto
  then show ?thesis using inv False by simp
qed

lemma pw_Add_inv:
  assumes inv: "pack_inv C Z H kr repo w pool cs" and C: "crypto_ok C" and z: "zcodec_ok Z"
    and a: "pw_Add C Z (H d) d w = (r, w')"
  shows "pack_inv C Z H kr repo w' pool (if r = Inr () then cs @ [d] else cs)"
proof (cases "pw_finished w \<or> length d > pk_MaxChunkSize \<or> length (pw_entries w) \<ge> MaxChunksPerPack")
  case True
  then have "w' = w \<and> r \<noteq> Inr ()" using a by (auto simp: pw_Add_def AddCompressed_def AddSealed_def split: if_splits)
  then show ?thesis using inv by simp
next
  case False
  then have go: "sbind (pw_Seal C (H d) (fst (Compress Z d))) (\<lambda>s. AddSealed (H d) (length d) s (snd (Compress Z d))) w = (r, w')"
    using a by (simp add: pw_Add_def AddCompressed_def Let_def split_beta)
  have d: "length d \<le> pk_MaxChunkSize" using False by simp
  obtain q w1 where q: "pw_Seal C (H d) (fst (Compress Z d)) w = (q, w1)" by fastforce
  note s = pw_Seal_inv[OF inv C d q]
  show ?thesis
  proof (cases q)
    case (Inl e)
    then have "r = Inl e" "w' = w1" using go q by (auto simp: sbind_def)
    then show ?thesis using s(1) by simp
  next
    case (Inr x)
    then have "AddSealed (H d) (length d) x (snd (Compress Z d)) w1 = (r, w')" using go q by (simp add: sbind_def)
    then show ?thesis using AddSealed_inv[OF s(1) s(2)[OF Inr] z] by simp
  qed
qed

lemma pack_run_inv:
  assumes "pack_run C Z H kr repo w pool cs" and C: "crypto_ok C" and Z: "zcodec_ok Z"
  shows "pack_inv C Z H kr repo w pool cs"
  using assms(1)
proof induction
  case (run_new m rnd cn xn w)
  note n = NewWriter_holds[OF run_new(1)]
  note k = DeriveKeys_any[OF n(2)]
  have "pw_keyed C kr repo w" using k run_new(2,3) by (auto simp: pw_keyed_def)
  then show ?case using n by (simp add: pack_inv_def)
next
  case (run_add w pool cs d r w')
  show ?case by (rule pw_Add_inv[OF run_add.IH C Z run_add.hyps(2)])
next
  case (run_seal w pool cs d s w')
  note i = pw_Seal_inv[OF run_seal.IH C run_seal.hyps(2,3)]
  show ?case using i(1) i(2)[OF refl] by (simp add: pack_inv_def)
next
  case (run_frame w pool cs d s r w')
  have "frame_for C Z H (pw_keys w) d s" using run_frame.IH run_frame.hyps(2) by (auto simp: pack_inv_def)
  then show ?case using AddSealed_inv[OF run_frame.IH _ Z run_frame.hyps(3)] by blast
qed

section \<open>Lemmas: sizes\<close>

lemma pk_uvarintLen_loop: "Suc (pk_uvarintLen n v) = n + length (put_Uvarint v)"
proof (induction n v rule: pk_uvarintLen.induct)
  case (1 n v)
  show ?case
  proof (cases "v \<ge> 0x80")
    case True
    then show ?thesis using 1 uvarint_step[OF True] by (simp add: pk_uvarintLen.simps[of n v])
  next
    case False
    then show ?thesis by (simp add: pk_uvarintLen.simps[of n v] put_Uvarint.simps[of v] linorder_not_le[symmetric] del: not_le linorder_not_le)
  qed
qed

lemma pk_uvarintLen_length: "pk_uvarintLen (Suc 0) v = length (put_Uvarint v)"
  using pk_uvarintLen_loop[of 1 v] by simp

lemma length_uvarint_u32: "length (put_Uvarint (ucast (w :: u32))) \<le> 5"
  using unat_lt2p[of w] by (intro length_uvarint_bound) simp_all

lemma length_put_fentry: "length (put_fentry e) \<le> 48"
  using length_uvarint_u32[of "fe_Offset e"] length_uvarint_u32[of "fe_StoredLen e"] length_uvarint_u32[of "fe_RawLen e"]
  by (simp add: put_fentry_def put_U8_def)

lemma pk_length_encodeIndex:
  assumes "length es \<le> MaxChunksPerPack"
  shows "int (length (pk_encodeIndex es)) + 28 \<le> indexBound (int (length es))"
proof -
  have "length (concat (map put_fentry es)) \<le> 48 * length es"
    by (induction es) (auto simp: intro: order_trans[OF add_mono[OF length_put_fentry]])
  moreover have "length (put_Uvarint (of_nat (length es))) \<le> 5"
    using assms by (intro length_uvarint_bound) (simp_all add: unat_of_nat_small)
  ultimately show ?thesis by (simp add: pk_encodeIndex_def indexBound_def put_U16_def)
qed

lemma SealedIndexLen_length:
  assumes "length es \<le> MaxChunksPerPack"
  shows "SealedIndexLen es = of_nat (length (pk_encodeIndex es) + 28)"
proof -
  have "foldl (\<lambda>n e. n + of_nat (32 + pk_uvarintLen 1 (ucast (fe_Offset e)) + pk_uvarintLen 1 (ucast (fe_StoredLen e)) +
      pk_uvarintLen 1 (ucast (fe_RawLen e)) + 1)) (a :: u64) es = a + of_nat (length (concat (map put_fentry es)))" for a
    by (induction es arbitrary: a) (simp_all add: pk_uvarintLen_length put_fentry_def put_U8_def)
  then show ?thesis
    by (simp add: SealedIndexLen_def pk_encodeIndex_def pk_uvarintLen_length put_U16_def)
qed

section \<open>Lemmas: reading a finished pack\<close>

lemma sorted_entries_ok:
  assumes "pw_holds C Z H w cs"
  shows "index_ok (length (pw_buf w)) (sort_key fe_Hash (pw_entries w))"
proof -
  let ?es = "sort_key fe_Hash (pw_entries w)"
  have "distinct (map fe_Hash ?es)" using assms by (simp add: pw_holds_def distinct_map)
  then have "sorted_wrt (<) (map fe_Hash ?es)" by (simp add: strict_sorted_iff)
  moreover have "list_all (fe_ok (length (pw_buf w))) (pw_entries w)"
    using assms by (auto simp: pw_holds_def list_all2_conv_all_nth list_all_length)
  ultimately show ?thesis using assms by (simp add: index_ok_def sorted_wrt_map pw_holds_def list_all_iff frames_apart_def)
qed

lemma ReadInfo_laid:
  assumes b: "b = buf @ sealed @ put_U64 (of_nat (length buf)) @ put_U32 (of_nat (length sealed)) @ ascii ''SCPE''"
    and buf: "take HeaderSize buf = pack_header salt" "HeaderSize \<le> length buf" "length buf < 2 ^ 31" and sl: "length sealed < 2 ^ 31"
    and keys: "DeriveKeys C kr repo salt (\<lambda>_. None) (\<lambda>_. None) = Inr keys"
    and op: "k_Open C (ks_index keys) (pack_header salt) sealed = Inr (pk_encodeIndex es)" and ok: "index_ok (length buf) es"
  shows "ReadInfo C H (pack_Name H b) b kr repo = Inr \<lparr>pi_Name = pack_Name H b, pi_Salt = salt, pi_Size = int (length b), pi_Entries = es\<rparr>"
proof -
  let ?io = "of_nat (length buf) :: u64" and ?il = "of_nat (length sealed) :: u32"
  let ?t = "put_U64 ?io @ put_U32 ?il @ ascii ''SCPE''"
  have u: "unat ?io = length buf" "unat ?il = length sealed" using buf(3) sl by (simp_all add: unat_of_nat_small)
  have uc: "(ucast ?il :: u64) = of_nat (length sealed)" using u(2) sl by (simp add: word_unat_eq_iff unat_of_nat_small)
  have lt: "length ?t = 16" by (simp add: put_U64_def put_U32_def)
  have lb: "length b = length buf + length sealed + 16" using lt by (simp add: b)
  have hd: "take HeaderSize b = pack_header salt" using buf(1,2) by (simp add: b)
  have tl: "drop (length buf + length sealed) b = ?t" by (simp add: b)
  have sum: "unat (?io + ucast ?il) = length buf + length sealed" using u buf(3) sl by (subst unat_add_small) simp_all
  have "\<not> length buf + length sealed < HeaderSize" using buf(2) by simp
  moreover have "?io + ucast ?il = of_nat (length buf) + of_nat (length sealed)" by (simp add: uc)
  moreover have "\<not> ?io < 40" using u buf(2) by (simp add: word_less_nat_alt)
  moreover have "go_slice b ?io (?io + ucast ?il) = Inr sealed"
    using sum u lb by (simp add: go_slice_def word_le_nat_alt b)
  moreover have "pk_decodeIndex (pk_encodeIndex es) ?io = Inr es" using ok u(1) by (intro pk_decodeIndex_encode) simp
  moreover have "NewReader (take HeaderSize b) = rd_at [] (ascii ''SCPK'' @ put_U16 1 @ put_U16 0 @ hbytes salt)"
    by (simp add: hd pack_header_def NewReader_at)
  ultimately show ?thesis using lb keys op
    by (simp add: ReadInfo_def hd tl NewReader_at wire_simps at_done Let_def)
qed

lemma Finish_ReadInfo:
  assumes inv: "pack_inv C Z H kr repo w pool cs" and C: "crypto_ok C" and f: "Finish C H w = (Inr bt, w')"
  shows "ReadInfo C H (bt_Name bt) (bt_Bytes bt) kr repo = Inr (bt_Info bt)"
    and "\<exists>rest. bt_Bytes bt = pw_buf w @ rest" and "pi_Entries (bt_Info bt) = sort_key fe_Hash (pw_entries w)"
    and "pi_Salt (bt_Info bt) = pw_salt w" and "int (length (bt_Bytes bt)) \<le> pw_Size w"
    and "length (bt_Bytes bt) = length (pw_buf w) + length (pk_encodeIndex (sort_key fe_Hash (pw_entries w))) + 44"
    and "pi_Name (bt_Info bt) = pack_Name H (bt_Bytes bt)" and "pi_Size (bt_Info bt) = int (length (bt_Bytes bt))"
proof -
  let ?es = "sort_key fe_Hash (pw_entries w)"
  have h: "pw_holds C Z H w cs" "pw_keyed C kr repo w" "\<not> pw_finished w" using inv by (auto simp: pack_inv_def)
  have hd: "take HeaderSize (pw_buf w) = pack_header (pw_salt w)" using h(1) by (simp add: pw_holds_def)
  obtain sealed k where s: "k_Seal C (pack_header (pw_salt w)) (pk_encodeIndex ?es) (ks_index (pw_keys w)) = (Inr sealed, k)"
    and bt: "bt_Bytes bt = pw_buf w @ sealed @ put_U64 (of_nat (length (pw_buf w))) @ put_U32 (of_nat (length sealed)) @ ascii ''SCPE''"
      "bt_Name bt = pack_Name H (bt_Bytes bt)"
      "bt_Info bt = \<lparr>pi_Name = bt_Name bt, pi_Salt = pw_salt w, pi_Size = int (length (bt_Bytes bt)), pi_Entries = ?es\<rparr>"
    using f h(3) hd by (auto simp: Finish_def Let_def result_simps split: prod.splits)
  obtain keys where keys: "DeriveKeys C kr repo (pw_salt w) (\<lambda>_. None) (\<lambda>_. None) = Inr keys"
    and same: "same_key (ks_index keys) (ks_index (pw_keys w))" using h(2) by (auto simp: pw_keyed_def)
  have op: "k_Open C (ks_index (pw_keys w)) (pack_header (pw_salt w)) sealed = Inr (pk_encodeIndex ?es)"
    and l: "length sealed = length (pk_encodeIndex ?es) + 28"
    using k_Open_Seal[OF C _ s, of "ks_index (pw_keys w)"] h(2) by (auto simp: pw_keyed_def)
  have n: "length (pw_entries w) \<le> MaxChunksPerPack" using h(1) by (simp add: pw_holds_def)
  have ib: "int (length sealed) \<le> indexBound (int (length (pw_entries w)))" using pk_length_encodeIndex[of ?es] n l by simp
  then have "length sealed < 2 ^ 31" using n by (simp add: indexBound_def)
  then show "ReadInfo C H (bt_Name bt) (bt_Bytes bt) kr repo = Inr (bt_Info bt)"
    using ReadInfo_laid[OF bt(1) hd _ _ _ keys _ sorted_entries_ok[OF h(1)], of H] h(1) op same_key_open[OF same] bt(2,3)
    by (simp add: pw_holds_def)
  show "int (length (bt_Bytes bt)) \<le> pw_Size w" using ib by (simp add: bt(1) pw_Size_def put_U64_def put_U32_def)
  show "length (bt_Bytes bt) = length (pw_buf w) + length (pk_encodeIndex ?es) + 44" using l by (simp add: bt(1) put_U64_def put_U32_def)
  show "pi_Name (bt_Info bt) = pack_Name H (bt_Bytes bt)" "pi_Size (bt_Info bt) = int (length (bt_Bytes bt))" using bt by simp_all
qed (use f in \<open>auto simp: Finish_def Let_def result_simps split: prod.splits if_splits\<close>)

section \<open>A small pack\<close>

definition plain_zcodec :: zcodec where
  "plain_zcodec = \<lparr>z_enc = \<lambda>d. d, z_dec = Some\<rparr>"

lemma plain_zcodec_ok: "zcodec_ok plain_zcodec"
  by (simp add: zcodec_ok_def plain_zcodec_def)

lemma plain_seal: "k_destroyed k = False \<Longrightarrow> k_seals k < k_limit k \<Longrightarrow> k_nonces k = plain_nonces \<Longrightarrow>
    \<exists>c. k_Seal plain_crypto ctx p k = (Inr c, k\<lparr>k_seals := Suc (k_seals k)\<rparr>)"
  by (simp add: k_Seal_def aead_Seal_def plain_nonces_def plain_crypto_def k_aad_def Let_def)

lemma plain_pack:
  "\<exists>w. pack_run plain_crypto plain_zcodec (\<lambda>_. zero_hash) plain_keyring [] w [] [[1, 2, 3]] \<and>
     (\<exists>bt w'. Finish plain_crypto (\<lambda>_. zero_hash) w = (Inr bt, w'))"
proof -
  let ?H = "\<lambda>_ :: bytes. zero_hash"
  obtain w where w: "NewWriter plain_crypto plain_keyring [] 1000 (Some zero_hash) plain_nonces plain_nonces = Inr w"
    using plain_keyring_live by (simp add: NewWriter_def DeriveKeys_def kr_Key_def withMaster_def dom_Tag_def domain_tags_def ascii_def)
  have k: "\<not> k_destroyed (ks_chunk (pw_keys w))" "k_seals (ks_chunk (pw_keys w)) < k_limit (ks_chunk (pw_keys w))"
    "k_nonces (ks_chunk (pw_keys w)) = plain_nonces"
    "\<not> k_destroyed (ks_index (pw_keys w))" "k_seals (ks_index (pw_keys w)) < k_limit (ks_index (pw_keys w))"
    "k_nonces (ks_index (pw_keys w)) = plain_nonces" "pw_entries w = []" "\<not> pw_finished w"
    using w plain_keyring_live by (auto simp: NewWriter_def DeriveKeys_def kr_Key_def withMaster_def dom_Tag_def domain_tags_def ascii_def)
  obtain c where c: "k_Seal plain_crypto (hbytes zero_hash) [1, 2, 3] (ks_chunk (pw_keys w)) =
      (Inr c, (ks_chunk (pw_keys w))\<lparr>k_seals := Suc (k_seals (ks_chunk (pw_keys w)))\<rparr>)"
    using plain_seal[of "ks_chunk (pw_keys w)"] k(1-3) by blast
  obtain w1 where w1: "pw_Add plain_crypto plain_zcodec (?H [1, 2, 3]) [1, 2, 3] w = (Inr (), w1)"
    and same: "ks_index (pw_keys w1) = ks_index (pw_keys w)" "\<not> pw_finished w1"
    using k(7,8) c by (simp add: pw_Add_def Compress_def AddCompressed_def pw_Seal_def sbind_def AddSealed_def pw_Has_def)
  have "pack_run plain_crypto plain_zcodec ?H plain_keyring [] w1 [] ([] @ [[1, 2, 3]])"
    using pack_run.run_add[OF pack_run.run_new[OF w plain_nonces_ok plain_nonces_ok] w1] by simp
  moreover have "\<exists>bt w'. Finish plain_crypto ?H w1 = (Inr bt, w')"
  proof -
    let ?es = "sort_key fe_Hash (pw_entries w1)"
    obtain x where "k_Seal plain_crypto (take HeaderSize (pw_buf w1)) (pk_encodeIndex ?es) (ks_index (pw_keys w1)) =
        (Inr x, (ks_index (pw_keys w1))\<lparr>k_seals := Suc (k_seals (ks_index (pw_keys w1)))\<rparr>)"
      using plain_seal[of "ks_index (pw_keys w1)"] k(4-6) same(1) by metis
    then show ?thesis using same(2) by (simp add: Finish_def Let_def)
  qed
  ultimately show ?thesis by auto
qed

section \<open>Properties\<close>

text \<open>C9. What a writer packs, a reader finds: whatever order chunks were added and frames sealed ahead in, the
  finished pack is read under its name with exactly the entries of the chunks accepted, and each chunk's frame,
  opened with the keys derived again from the pack's salt, gives the chunk back. The pack is no longer than the size
  the writer reported, and before it was finished the writer gave the same chunks.\<close>

theorem pack_write_read:
  assumes "pack_run C Z H kr repo w pool cs" and "crypto_ok C" and "zcodec_ok Z" and "Finish C H w = (Inr bt, w')"
  shows "ReadInfo C H (bt_Name bt) (bt_Bytes bt) kr repo = Inr (bt_Info bt) \<and>
    fe_Hash ` set (pi_Entries (bt_Info bt)) = H ` set cs \<and>
    (\<exists>keys. DeriveKeys C kr repo (pi_Salt (bt_Info bt)) (\<lambda>_. None) (\<lambda>_. None) = Inr keys \<and>
       (\<forall>d \<in> set cs. \<exists>e \<in> set (pi_Entries (bt_Info bt)). fe_Hash e = H d \<and> OpenFrame C Z H keys e (frame_of (bt_Bytes bt) e) = Inr d)) \<and>
    int (length (bt_Bytes bt)) \<le> pw_Size w \<and> (\<forall>d \<in> set cs. pw_Get C Z H w (H d) = Some (Inr d))"
proof -
  note inv = pack_run_inv[OF assms(1-3)]
  note f = Finish_ReadInfo[OF inv assms(2,4)]
  have h: "pw_holds C Z H w cs" and k: "pw_keyed C kr repo w" using inv by (auto simp: pack_inv_def)
  obtain keys where keys: "DeriveKeys C kr repo (pw_salt w) (\<lambda>_. None) (\<lambda>_. None) = Inr keys"
    and same: "same_key (ks_chunk keys) (ks_chunk (pw_keys w))" using k by (auto simp: pw_keyed_def)
  have all: "list_all2 (\<lambda>e d. fe_Hash e = H d \<and> fe_ok (length (pw_buf w)) e \<and>
      OpenFrame C Z H (pw_keys w) e (frame_of (pw_buf w) e) = Inr d) (pw_entries w) cs" using h by (simp add: pw_holds_def)
  have hs: "map fe_Hash (pw_entries w) = map H cs" using all by (auto simp: list_all2_conv_all_nth intro!: nth_equalityI)
  have found: "\<exists>e \<in> set (pw_entries w). fe_Hash e = H d \<and> OpenFrame C Z H (pw_keys w) e (frame_of (pw_buf w) e) = Inr d" if d: "d \<in> set cs" for d
  proof -
    obtain i where "i < length cs" "d = cs ! i" using d by (auto simp: in_set_conv_nth)
    then show ?thesis using all by (intro bexI[of _ "pw_entries w ! i"]) (auto simp: list_all2_conv_all_nth)
  qed
  have fr: "frame_of (bt_Bytes bt) e = frame_of (pw_buf w) e" if "e \<in> set (pw_entries w)" for e
    using f(2) h that by (auto simp: pw_holds_def frames_apart_def frame_of_append)
  have "pw_Get C Z H w (H d) = Some (Inr d)" if d: "d \<in> set cs" for d
  proof -
    obtain e where e: "e \<in> set (pw_entries w)" "fe_Hash e = H d" "OpenFrame C Z H (pw_keys w) e (frame_of (pw_buf w) e) = Inr d"
      using found[OF d] by blast
    have u: "x = e" if "x \<in> set (pw_entries w)" "fe_Hash x = H d" for x
      using h that e by (auto simp: pw_holds_def distinct_map inj_on_def)
    obtain x xs where "filter (\<lambda>e. fe_Hash e = H d) (pw_entries w) = x # xs"
      using e by (cases "filter (\<lambda>e. fe_Hash e = H d) (pw_entries w)") (auto simp: filter_empty_conv)
    moreover from this have "x \<in> set (filter (\<lambda>e. fe_Hash e = H d) (pw_entries w))" by simp
    then have "x = e" by (intro u) simp_all
    ultimately show ?thesis using e by (simp add: pw_Get_def)
  qed
  moreover have "fe_Hash ` set (pw_entries w) = H ` set cs" using hs by (metis list.set_map)
  moreover have "\<forall>d \<in> set cs. \<exists>e \<in> set (pi_Entries (bt_Info bt)). fe_Hash e = H d \<and> OpenFrame C Z H keys e (frame_of (bt_Bytes bt) e) = Inr d"
    using found fr by (fastforce simp: f(3) OpenFrame_same[OF same])
  ultimately show ?thesis using f(1,5) keys by (simp add: f(3,4))
qed

theorem pack_write_read_witness:
  "\<exists>w bt w'. Finish plain_crypto (\<lambda>_. zero_hash) w = (Inr bt, w') \<and>
     ReadInfo plain_crypto (\<lambda>_. zero_hash) (bt_Name bt) (bt_Bytes bt) plain_keyring [] = Inr (bt_Info bt) \<and>
     pw_Get plain_crypto plain_zcodec (\<lambda>_. zero_hash) w zero_hash = Some (Inr [1, 2, 3])"
proof -
  obtain w bt w' where w: "pack_run plain_crypto plain_zcodec (\<lambda>_. zero_hash) plain_keyring [] w [] [[1, 2, 3]]"
    and f: "Finish plain_crypto (\<lambda>_. zero_hash) w = (Inr bt, w')" using plain_pack by blast
  show ?thesis using pack_write_read[OF w plain_crypto_ok plain_zcodec_ok f] f by auto
qed

text \<open>C19. The pack index has one encoding: an index is read as \<open>es\<close> exactly when it is the encoding of \<open>es\<close> and \<open>es\<close> is
  well formed (at most 2^16 entries, hashes strictly increasing, lengths that agree with the codec, frames between the
  header and the index and no two overlapping). It holds while the index starts below 2^32.\<close>

theorem pack_index_canonical:
  assumes "unat io < 2 ^ 32"
  shows "pk_decodeIndex b io = Inr es \<longleftrightarrow> b = pk_encodeIndex es \<and> index_ok (unat io) es"
  using pk_decodeIndex_inv[OF _ assms] pk_decodeIndex_encode by blast

theorem pack_index_canonical_witness:
  "pk_decodeIndex (pk_encodeIndex [\<lparr>fe_Hash = zero_hash, fe_Offset = 40, fe_StoredLen = 31, fe_RawLen = 3, fe_Codec = CodecRaw\<rparr>]) 71 =
     Inr [\<lparr>fe_Hash = zero_hash, fe_Offset = 40, fe_StoredLen = 31, fe_RawLen = 3, fe_Codec = CodecRaw\<rparr>]"
proof -
  have "unat (71 :: u64) < 2 ^ 32" by simp
  from pack_index_canonical[OF this] show ?thesis by (simp add: index_ok_def fe_ok_def frames_apart_def)
qed

lemma ReadInfo_inv:
  assumes "ReadInfo C H name b kr repo = Inr info" and l: "length b < 2 ^ 32"
  shows "pack_Name H b = name" and "\<exists>io. io + TrailerSize \<le> length b \<and> index_ok io (pi_Entries info)"
proof -
  obtain t il indexOffset plain where name: "pack_Name H b = name"
    and s: "indexOffset + ucast (il :: u32) + 16 = (of_nat (length b) :: u64)" "go_slice b indexOffset (indexOffset + ucast il) = Inr t"
    and d: "pk_decodeIndex plain indexOffset = Inr (pi_Entries info)"
    using assms(1) by (auto simp: ReadInfo_def result_simps case_Inl_fail Let_def split: prod.splits if_splits)
  show "pack_Name H b = name" by (rule name)
  have g: "indexOffset \<le> indexOffset + ucast il" "unat (indexOffset + ucast il) \<le> length b"
    using s(2) by (auto simp: go_slice_def split: if_splits)
  have "unat (indexOffset + ucast il + 16) = unat (indexOffset + ucast il) + 16" using g(2) l by (subst unat_add_small) simp_all
  moreover have "unat (of_nat (length b) :: u64) = length b" using l by (simp add: unat_of_nat_small)
  ultimately have io: "unat indexOffset + TrailerSize \<le> length b"
    using arg_cong[OF s(1), of unat] g(1)[unfolded word_le_nat_alt] by linarith
  then show "\<exists>io. io + TrailerSize \<le> length b \<and> index_ok io (pi_Entries info)" using pk_decodeIndex_inv(2)[OF d] l by auto
qed

text \<open>C18. Nothing a pack claims is believed unchecked: of a pack accepted under a name, whatever wrote it, the bytes hash
  to the name, the entries' hashes strictly increase, and their frames lie between header and trailer with no two
  overlapping; and whatever bytes are read as an entry's frame, what opening it returns hashes to the entry's hash and
  is of the entry's length, at most a chunk's.\<close>

theorem pack_reads_checked:
  assumes "ReadInfo C H name b kr repo = Inr info" and "length b < 2 ^ 32"
  shows "pack_Name H b = name \<and> sorted_wrt (\<lambda>x y. fe_Hash x < fe_Hash y) (pi_Entries info) \<and>
    frames_apart (length b - TrailerSize) (pi_Entries info) \<and>
    (\<forall>e \<in> set (pi_Entries info). \<forall>keys s d. OpenFrame C Z H keys e s = Inr d \<longrightarrow>
       H d = fe_Hash e \<and> length d = unat (fe_RawLen e) \<and> length d \<le> pk_MaxChunkSize)"
proof -
  note r = ReadInfo_inv[OF assms]
  then obtain io where io: "io + TrailerSize \<le> length b" "index_ok io (pi_Entries info)" by blast
  moreover from this have "frames_apart (length b - TrailerSize) (pi_Entries info)" by (fastforce simp: index_ok_def frames_apart_def)
  ultimately show ?thesis using r(1) OpenFrame_verified[of C Z H] by (fastforce simp: index_ok_def list_all_iff fe_ok_def)
qed

theorem pack_reads_checked_witness:
  "\<exists>name b info. ReadInfo plain_crypto (\<lambda>_. zero_hash) name b plain_keyring [] = Inr info \<and> pack_Name (\<lambda>_. zero_hash) b = name \<and>
     frames_apart (length b - TrailerSize) (pi_Entries info)"
proof -
  obtain w bt w' where w: "pack_run plain_crypto plain_zcodec (\<lambda>_. zero_hash) plain_keyring [] w [] [[1, 2, 3]]"
    and f: "Finish plain_crypto (\<lambda>_. zero_hash) w = (Inr bt, w')" using plain_pack by blast
  note i = pack_run_inv[OF w plain_crypto_ok plain_zcodec_ok]
  note r = Finish_ReadInfo[OF i plain_crypto_ok f]
  have "length (bt_Bytes bt) < 2 ^ 32" using r(5) i by (simp add: pw_Size_def indexBound_def pack_inv_def pw_holds_def)
  from pack_reads_checked[OF r(1) this] r(1) show ?thesis by blast
qed

text \<open>C28. The length \<^verbatim>\<open>SealedIndexLen\<close> computes for a pack's entries is the length of the sealed index the writer
  writes, and the bound the writer keeps free for it is enough.\<close>

theorem pack_index_sized:
  assumes "length es \<le> MaxChunksPerPack" and "crypto_ok C" and "nonces_ok (k_nonces k)" and "k_Seal C ctx (pk_encodeIndex es) k = (Inr sealed, k')"
  shows "unat (SealedIndexLen es) = length sealed \<and> int (length sealed) \<le> indexBound (int (length es))"
proof (cases "k_destroyed k")
  case True
  then show ?thesis using assms(4) by (simp add: k_Seal_def)
next
  case False
  have l: "length sealed = length (pk_encodeIndex es) + 28" using k_Open_Seal(2)[OF assms(2-4) refl refl False] .
  note b = pk_length_encodeIndex[OF assms(1)]
  then have "length (pk_encodeIndex es) + 28 < 2 ^ 64" using assms(1) by (simp add: indexBound_def)
  then show ?thesis using l b SealedIndexLen_length[OF assms(1)] by (simp add: unat_of_nat_small del: of_nat_add)
qed

theorem pack_index_sized_witness:
  "\<exists>k sealed k'. k_Seal plain_crypto [] (pk_encodeIndex []) k = (Inr sealed, k') \<and> unat (SealedIndexLen []) = length sealed"
proof -
  let ?k = "\<lparr>k_aead = [], k_tag = [], k_seals = 0, k_limit = 1, k_destroyed = False, k_nonces = plain_nonces\<rparr>"
  obtain c where c: "k_Seal plain_crypto [] (pk_encodeIndex []) ?k = (Inr c, ?k\<lparr>k_seals := Suc (k_seals ?k)\<rparr>)"
    using plain_seal[of ?k] by auto
  have "nonces_ok (k_nonces ?k)" using plain_nonces_ok by simp
  from pack_index_sized[OF _ plain_crypto_ok this c] c show ?thesis by auto
qed

text \<open>C29. The trailer check of \<^verbatim>\<open>ReadInfo\<close> adds the index's offset and length in 64 bits, where they wrap: a pack of
  56 bytes, a header and a trailer that puts the index at 2^64 - 1 with 41 bytes, passes it, whatever the keys, and the
  slice of the index then panics instead of reporting corruption.\<close>

theorem pack_trailer_wraps:
  assumes "\<not> kr_destroyed kr"
  shows "ReadInfo C H (pack_Name H (pack_header salt @ put_U64 (- 1) @ put_U32 41 @ ascii ''SCPE''))
    (pack_header salt @ put_U64 (- 1) @ put_U32 41 @ ascii ''SCPE'') kr repo = Inl (Panic ''slice bounds out of range'')"
proof -
  let ?t = "put_U64 (- 1) @ put_U32 41 @ ascii ''SCPE''"
  have h: "NewReader (pack_header salt) = rd_at [] (ascii ''SCPK'' @ put_U16 1 @ put_U16 0 @ hbytes salt)"
    by (simp add: pack_header_def NewReader_at)
  have l: "length ?t = 16" by (simp add: put_U64_def put_U32_def)
  have "\<exists>keys. DeriveKeys C kr repo salt (\<lambda>_. None) (\<lambda>_. None) = Inr keys"
    using assms by (simp add: DeriveKeys_def kr_Key_def withMaster_def dom_Tag_def domain_tags_def ascii_def)
  moreover have "\<not> (- 1 :: u64) \<le> 40" by code_simp
  ultimately show ?thesis using l
    by (auto simp: ReadInfo_def h NewReader_at[of ?t] wire_simps at_done Let_def go_slice_def)
qed

theorem pack_trailer_wraps_witness:
  "\<exists>b. ReadInfo plain_crypto (\<lambda>_. zero_hash) (pack_Name (\<lambda>_. zero_hash) b) b plain_keyring [] = Inl (Panic ''slice bounds out of range'')"
  using pack_trailer_wraps[OF plain_keyring_live] by blast

end
