(* ===== verification/Dedup.thy ===== *)
theory Dedup
  imports Pack
begin

text \<open>
  \<^verbatim>\<open>core/dedup/dedup.go\<close>: index objects, the sealed records of which chunks a batch of packs holds, and the
  in-memory index from chunk hash to location. The Go maps are partial functions.
\<close>

section \<open>Index objects\<close>

abbreviation MaxPacksPerObject :: nat where "MaxPacksPerObject \<equiv> 2 ^ 16"
abbreviation MaxObjectSize :: nat where "MaxObjectSize \<equiv> 64 * 2 ^ 20"
abbreviation dd_headerSize :: nat where "dd_headerSize \<equiv> 38"

definition PackSum :: "bytes \<Rightarrow> hash result" where
  "PackSum name =
     (if length name \<noteq> 9 + 64 then Inl ErrDedupCorrupt
      else case hex_decode (drop 9 name) of
        None \<Rightarrow> Inl ErrDedupCorrupt
      | Some b \<Rightarrow> if length b \<noteq> 32 then Inl ErrDedupCorrupt
          else let s = copy_hash b in if PackName s \<noteq> name then Inl ErrDedupCorrupt else Inr s)"

fun pack_sums :: "packinfo list \<Rightarrow> (hash \<times> packinfo) list result" where
  "pack_sums [] = Inr []"
| "pack_sums (p # ps) = rbind (PackSum (pi_Name p)) (\<lambda>s. rbind (pack_sums ps) (\<lambda>rs. Inr ((s, p) # rs)))"

definition put_packrec :: "hash \<times> packinfo \<Rightarrow> bytes" where
  "put_packrec = (\<lambda>(s, p). hbytes s @ hbytes (pi_Salt p) @ put_Uvarint (word_of_int (pi_Size p)) @
     put_Uvarint (of_nat (length (pi_Entries p))) @ concat (map put_fentry (pi_Entries p)))"

text \<open>\<^verbatim>\<open>encodePlain\<close>: packs of one sum stay in the order given, one of those \<^verbatim>\<open>sort.Slice\<close> may leave them in.\<close>

definition dd_encodePlain :: "packinfo list \<Rightarrow> bytes result" where
  "dd_encodePlain packs =
     rbind (pack_sums packs) (\<lambda>recs.
       let recs = sort_key fst recs in
       Inr (ascii ''SCIP'' @ put_U16 1 @ put_Uvarint (of_nat (length recs)) @ concat (map put_packrec recs)))"

definition frameLengthsAgree :: "byte \<Rightarrow> u64 \<Rightarrow> u64 \<Rightarrow> bool" where
  "frameLengthsAgree codec stored raw =
     (if codec = CodecRaw then stored = raw + 28
      else if codec = CodecZstd then stored \<ge> 28 \<and> stored < raw + 28
      else True)"

definition framesFit :: "fentry list \<Rightarrow> u64 \<Rightarrow> bool" where
  "framesFit es sz =
     (let index = SealedIndexLen es in
      if index > sz - 16 then False
      else let indexOffset = sz - 16 - index in
        case frames_end 40 (sort_key fe_Offset es) of None \<Rightarrow> False | Some at \<Rightarrow> at \<le> indexOffset)"

definition rd_ientry :: "u64 \<Rightarrow> fentry option \<Rightarrow> reader \<Rightarrow> err + (fentry \<times> fentry option \<times> reader)" where
  "rd_ientry framesEnd prev r =
     (let (h, r) = rd_hash r; (off, r) = rd_Uvarint r; (stored, r) = rd_Uvarint r; (raw, r) = rd_Uvarint r; (codec, r) = rd_U8 r;
          e = \<lparr>fe_Hash = h, fe_Offset = ucast off, fe_StoredLen = ucast stored, fe_RawLen = ucast raw, fe_Codec = codec\<rparr> in
      if rd_err r \<noteq> None \<or> off > framesEnd \<or> stored > framesEnd - off \<or> raw > 2 ^ 20 \<or>
         \<not> frameLengthsAgree codec stored raw \<or> (codec \<noteq> CodecRaw \<and> codec \<noteq> CodecZstd) \<or>
         (case prev of None \<Rightarrow> False | Some p \<Rightarrow> fe_Hash p \<ge> h)
      then Inl ErrDedupCorrupt else Inr (e, Some e, r))"

definition rd_packrec :: "hash option \<Rightarrow> reader \<Rightarrow> err + (packinfo \<times> hash option \<times> reader)" where
  "rd_packrec prev r =
     (let (s, r) = rd_hash r; (salt, r) = rd_hash r; (sz, r) = rd_Uvarint r; (count, r) = rd_Uvarint r in
      if rd_err r \<noteq> None \<or> sz < 56 \<or> sz > 2 ^ 30 \<or> count > 2 ^ 16 \<or> (case prev of None \<Rightarrow> False | Some p \<Rightarrow> p \<ge> s)
      then Inl ErrDedupCorrupt
      else rbind (rd_loop (rd_ientry (sz - 16)) (unat count) None r) (\<lambda>(es, _, r).
        if \<not> framesFit es sz then Inl ErrDedupCorrupt
        else Inr (\<lparr>pi_Name = PackName s, pi_Salt = salt, pi_Size = uint sz, pi_Entries = es\<rparr>, Some s, r)))"

definition dd_decodePlain :: "bytes \<Rightarrow> packinfo list result" where
  "dd_decodePlain b =
     (let r = NewReader b; (magic, r) = rd_Fixed 4 r; (v, r) = rd_U16 r; (n, r) = rd_Uvarint r in
      if rd_err r \<noteq> None \<or> magic \<noteq> ascii ''SCIP'' \<or> v \<noteq> 1 \<or> n > 2 ^ 16 then Inl ErrDedupCorrupt
      else rbind (rd_loop rd_packrec (unat n) None r) (\<lambda>(packs, _, r).
        if rd_Done r \<noteq> None then Inl ErrDedupCorrupt else Inr packs))"

definition indexName :: "hash \<Rightarrow> bytes" where
  "indexName s = ascii ''index/'' @ hex_encode (hbytes s)"

text \<open>\<^verbatim>\<open>EncodeObject\<close>, with the salt and the nonce it draws.\<close>

definition EncodeObject :: "crypto \<Rightarrow> (bytes \<Rightarrow> hash) \<Rightarrow> keyring \<Rightarrow> bytes \<Rightarrow> packinfo list \<Rightarrow> hash option \<Rightarrow> (nat \<Rightarrow> bytes option) \<Rightarrow> (bytes \<times> bytes) result" where
  "EncodeObject C H kr repo packs rnd nonces =
     (if length packs > MaxPacksPerObject then Inl (ErrOther ''dedup: packs in one object'')
      else rbind (dd_encodePlain packs) (\<lambda>plain.
        case rnd of
          None \<Rightarrow> Inl (ErrOther ''crypto/rand'')
        | Some salt \<Rightarrow>
            rbind (kr_Key C kr dom_Index repo salt nonces) (\<lambda>key.
              let header = ascii ''SCIX'' @ put_U16 1 @ hbytes salt in
              rbind (fst (k_Seal C header plain key)) (\<lambda>sealed.
                let b = header @ sealed in
                if length b > MaxObjectSize then Inl (ErrOther ''dedup: index object'')
                else Inr (indexName (H b), b)))))"

definition DecodeObject :: "crypto \<Rightarrow> (bytes \<Rightarrow> hash) \<Rightarrow> keyring \<Rightarrow> bytes \<Rightarrow> bytes \<Rightarrow> bytes \<Rightarrow> packinfo list result" where
  "DecodeObject C H kr repo name b =
     (if name \<noteq> indexName (H b) then Inl ErrDedupCorrupt
      else if length b < dd_headerSize \<or> length b > MaxObjectSize then Inl ErrDedupCorrupt
      else let h = NewReader (take dd_headerSize b); (magic, h) = rd_Fixed 4 h; (v, h) = rd_U16 h; (salt, h) = rd_hash h in
        if rd_Done h \<noteq> None \<or> magic \<noteq> ascii ''SCIX'' \<or> v \<noteq> 1 then Inl ErrDedupCorrupt
        else rbind (kr_Key C kr dom_Index repo salt (\<lambda>_. None)) (\<lambda>key.
          case k_Open C key (take dd_headerSize b) (drop dd_headerSize b) of
            Inl _ \<Rightarrow> Inl ErrDedupCorrupt
          | Inr plain \<Rightarrow> dd_decodePlain plain))"

section \<open>The index in memory\<close>

record packref =
  pr_Name :: bytes
  pr_Salt :: hash
  pr_Size :: int

record location =
  lo_Pack :: packref
  lo_Entry :: fentry

record loc =
  lc_pack :: nat
  lc_offset :: u32
  lc_stored :: u32
  lc_raw :: u32
  lc_codec :: byte

record dindex =
  dx_packs :: "packref list"
  dx_byName :: "bytes \<rightharpoonup> nat"
  dx_chunks :: "hash \<rightharpoonup> loc"

definition dx_New :: dindex where
  "dx_New = \<lparr>dx_packs = [], dx_byName = Map.empty, dx_chunks = Map.empty\<rparr>"

definition dx_chunk :: "nat \<Rightarrow> fentry \<Rightarrow> (hash \<rightharpoonup> loc) \<Rightarrow> (hash \<rightharpoonup> loc)" where
  "dx_chunk i e m = (if m (fe_Hash e) \<noteq> None then m
     else m(fe_Hash e \<mapsto> \<lparr>lc_pack = i, lc_offset = fe_Offset e, lc_stored = fe_StoredLen e, lc_raw = fe_RawLen e, lc_codec = fe_Codec e\<rparr>))"

definition dx_Add :: "packinfo \<Rightarrow> dindex \<Rightarrow> dindex" where
  "dx_Add p x =
     (let (i, x) = (case dx_byName x (pi_Name p) of
          Some i \<Rightarrow> (i, x)
        | None \<Rightarrow> (length (dx_packs x), x\<lparr>dx_packs := dx_packs x @ [\<lparr>pr_Name = pi_Name p, pr_Salt = pi_Salt p, pr_Size = pi_Size p\<rparr>],
                     dx_byName := (dx_byName x)(pi_Name p \<mapsto> length (dx_packs x))\<rparr>)) in
      x\<lparr>dx_chunks := fold (dx_chunk i) (pi_Entries p) (dx_chunks x)\<rparr>)"

definition dx_HasPack :: "dindex \<Rightarrow> bytes \<Rightarrow> bool" where
  "dx_HasPack x name \<longleftrightarrow> dx_byName x name \<noteq> None"

definition dx_Lookup :: "dindex \<Rightarrow> hash \<Rightarrow> location option" where
  "dx_Lookup x h = (case dx_chunks x h of
     None \<Rightarrow> None
   | Some l \<Rightarrow> Some \<lparr>lo_Pack = dx_packs x ! lc_pack l,
       lo_Entry = \<lparr>fe_Hash = h, fe_Offset = lc_offset l, fe_StoredLen = lc_stored l, fe_RawLen = lc_raw l, fe_Codec = lc_codec l\<rparr>\<rparr>)"

section \<open>Lemmas: names\<close>

lemma PackSum_PackName [simp]: "PackSum (PackName s) = Inr s"
proof -
  have "length (hex_encode (hbytes s)) = 64" by simp
  then have "drop 9 (PackName s) = hex_encode (hbytes s)" "length (PackName s) = 73"
    by (simp_all add: PackName_def Let_def ascii_def)
  then show ?thesis by (simp add: PackSum_def hex_decode_encode)
qed

lemma PackSum_Inr: "PackSum name = Inr s \<Longrightarrow> name = PackName s"
  by (auto simp: PackSum_def Let_def split: if_splits option.splits)

lemma PackName_inj: "PackName a = PackName b \<longleftrightarrow> a = b"
  by (metis PackSum_PackName Inr_inject)

definition sum_of :: "packinfo \<Rightarrow> hash" where
  "sum_of p = projr (PackSum (pi_Name p))"

definition named :: "packinfo \<Rightarrow> bool" where
  "named p \<longleftrightarrow> pi_Name p = PackName (sum_of p)"

lemma pack_sums_Inr: "pack_sums ps = Inr rs \<longleftrightarrow> list_all named ps \<and> rs = map (\<lambda>p. (sum_of p, p)) ps"
proof (induction ps arbitrary: rs)
  case (Cons p ps)
  have "named p \<longleftrightarrow> (\<exists>s. PackSum (pi_Name p) = Inr s)" unfolding named_def sum_of_def
    by (metis PackSum_Inr PackSum_PackName sum.sel(2))
  then show ?case using Cons by (auto simp: result_simps sum_of_def)
qed auto

section \<open>Lemmas: records\<close>

definition ie_ok :: "nat \<Rightarrow> fentry \<Rightarrow> bool" where
  "ie_ok fe e \<longleftrightarrow> unat (fe_Offset e) + unat (fe_StoredLen e) \<le> fe \<and> unat (fe_RawLen e) \<le> pk_MaxChunkSize \<and>
     (fe_Codec e = CodecRaw \<and> unat (fe_StoredLen e) = unat (fe_RawLen e) + 28 \<or>
      fe_Codec e = CodecZstd \<and> 28 \<le> unat (fe_StoredLen e) \<and> unat (fe_StoredLen e) < unat (fe_RawLen e) + 28)"

definition ie_fits :: "nat \<Rightarrow> fentry option \<Rightarrow> fentry \<Rightarrow> bool" where
  "ie_fits fe prev e \<longleftrightarrow> ie_ok fe e \<and> (\<forall>p. prev = Some p \<longrightarrow> fe_Hash p < fe_Hash e)"

lemma frameLengthsAgree_iff:
  assumes "unat raw \<le> 2 ^ 20" and "codec = CodecRaw \<or> codec = CodecZstd"
  shows "frameLengthsAgree codec stored raw \<longleftrightarrow>
    (codec = CodecRaw \<and> unat stored = unat raw + 28 \<or> codec = CodecZstd \<and> 28 \<le> unat stored \<and> unat stored < unat raw + 28)"
  using assms unat_add28[OF assms(1)] by (auto simp: frameLengthsAgree_def word_unat_eq_iff word_le_nat_alt word_less_nat_alt)

lemma range_le_iff: "\<not> (off :: u64) > fe \<and> \<not> stored > fe - off \<longleftrightarrow> unat off + unat stored \<le> unat fe"
proof (cases "off \<le> fe")
  case True
  then have "unat (fe - off) = unat fe - unat off" by (simp add: unat_sub)
  then show ?thesis using True by (auto simp: word_less_nat_alt word_le_nat_alt not_less)
qed (auto simp: word_le_nat_alt word_less_nat_alt not_less)

lemma rd_ientry_at:
  assumes "ie_fits (unat fe) prev e"
  shows "rd_ientry fe prev (rd_at pre (put_fentry e @ rest)) = Inr (e, Some e, rd_at (pre @ put_fentry e) rest)"
proof -
  let ?o = "ucast (fe_Offset e) :: u64" and ?s = "ucast (fe_StoredLen e) :: u64" and ?r = "ucast (fe_RawLen e) :: u64"
  have r: "unat ?r \<le> 2 ^ 20" and c: "fe_Codec e = CodecRaw \<or> fe_Codec e = CodecZstd" and p: "\<forall>p. prev = Some p \<longrightarrow> fe_Hash p < fe_Hash e"
    using assms by (auto simp: ie_fits_def ie_ok_def)
  have a: "frameLengthsAgree (fe_Codec e) ?s ?r" using assms by (subst frameLengthsAgree_iff[OF r c]) (auto simp: ie_fits_def ie_ok_def)
  have g: "\<not> ?o > fe" "\<not> ?s > fe - ?o" using assms range_le_iff[where off = ?o and fe = fe and stored = ?s] by (auto simp: ie_fits_def ie_ok_def)
  have "\<not> ?r > 2 ^ 20" using r by (simp add: word_less_nat_alt)
  then show ?thesis using a g p c
    by (cases e) (auto simp: rd_ientry_def put_fentry_def wire_simps Let_def split: option.splits)
qed

lemma rd_ientry_took:
  assumes rd: "rd_ientry fe prev r = Inr (e, st, r')" and io: "unat fe < 2 ^ 32"
  shows "rd_took r (put_fentry e) r' \<and> ie_fits (unat fe) prev e \<and> st = Some e"
proof -
  obtain h r1 off r2 stored r3 raw r4 codec where h: "rd_hash r = (h, r1)" and o: "rd_Uvarint r1 = (off, r2)"
    and s: "rd_Uvarint r2 = (stored, r3)" and w: "rd_Uvarint r3 = (raw, r4)" and c: "rd_U8 r4 = (codec, r')"
    and e: "e = \<lparr>fe_Hash = h, fe_Offset = ucast off, fe_StoredLen = ucast stored, fe_RawLen = ucast raw, fe_Codec = codec\<rparr>"
    and st: "st = Some e" and err: "rd_err r' = None"
    and g: "\<not> off > fe" "\<not> stored > fe - off" "\<not> raw > 2 ^ 20" "frameLengthsAgree codec stored raw"
      "codec = CodecRaw \<or> codec = CodecZstd" "\<forall>p. prev = Some p \<longrightarrow> fe_Hash p < h"
    using rd by (auto simp: rd_ientry_def Let_def not_le split: prod.splits if_splits option.splits)
  have l: "unat off + unat stored \<le> unat fe" using range_le_iff g(1,2) by blast
  have lr: "unat raw \<le> 2 ^ 20" using g(3) by (simp add: word_less_nat_alt)
  note ag = g(4)[unfolded frameLengthsAgree_iff[OF lr g(5)]]
  have u: "ucast (ucast off :: u32) = off" "ucast (ucast stored :: u32) = stored" "ucast (ucast raw :: u32) = raw"
    using l lr io by (auto intro!: ucast_down_up)
  have v: "unat (ucast off :: u32) = unat off" "unat (ucast stored :: u32) = unat stored" "unat (ucast raw :: u32) = unat raw"
    using l lr io by (auto intro!: unat_ucast_small)
  note t5 = rd_U8_took[OF c err]
  note t4 = rd_Uvarint_took[OF w conjunct1[OF rd_tookD[OF t5]]]
  note t3 = rd_Uvarint_took[OF s conjunct1[OF rd_tookD[OF t4]]]
  note t2 = rd_Uvarint_took[OF o conjunct1[OF rd_tookD[OF t3]]]
  note t1 = rd_hash_took[OF h conjunct1[OF rd_tookD[OF t2]]]
  show ?thesis
    using rd_took_trans[OF t1 rd_took_trans[OF t2 rd_took_trans[OF t3 rd_took_trans[OF t4 t5]]]] l lr ag g(6) st e u v
    by (simp add: put_fentry_def ie_fits_def ie_ok_def)
qed

lemma chain_ientries:
  "chain_ok (ie_fits fe) (\<lambda>_ e. Some e) prev es \<longleftrightarrow>
     list_all (ie_ok fe) es \<and> sorted_wrt (\<lambda>a b. fe_Hash a < fe_Hash b) es \<and>
     (\<forall>p e. prev = Some p \<longrightarrow> e \<in> set es \<longrightarrow> fe_Hash p < fe_Hash e)"
  by (induction es arbitrary: prev) (auto simp: ie_fits_def intro: less_trans)

definition rec_ok :: "packinfo \<Rightarrow> bool" where
  "rec_ok p \<longleftrightarrow> named p \<and> 56 \<le> pi_Size p \<and> pi_Size p \<le> MaxPackSize \<and> length (pi_Entries p) \<le> MaxChunksPerPack \<and>
     list_all (ie_ok (nat (pi_Size p) - TrailerSize)) (pi_Entries p) \<and>
     sorted_wrt (\<lambda>a b. fe_Hash a < fe_Hash b) (pi_Entries p) \<and> framesFit (pi_Entries p) (word_of_int (pi_Size p))"

definition rec_fits :: "hash option \<Rightarrow> packinfo \<Rightarrow> bool" where
  "rec_fits prev p \<longleftrightarrow> rec_ok p \<and> (\<forall>s. prev = Some s \<longrightarrow> s < sum_of p)"

lemma rd_packrec_at:
  assumes "rec_fits prev p"
  shows "rd_packrec prev (rd_at pre (put_packrec (sum_of p, p) @ rest)) =
    Inr (p, Some (sum_of p), rd_at (pre @ put_packrec (sum_of p, p)) rest)"
proof -
  let ?sz = "word_of_int (pi_Size p) :: u64" and ?es = "pi_Entries p"
  have ok: "rec_ok p" using assms by (simp add: rec_fits_def)
  have sz: "unat ?sz = nat (pi_Size p)" "uint ?sz = pi_Size p" using ok
    by (auto simp: rec_ok_def unat_eq_nat_uint uint_word_of_int)
  have g: "\<not> ?sz < 56" "\<not> ?sz > 2 ^ 30" using ok sz(1) by (auto simp: rec_ok_def word_less_nat_alt)
  have n: "unat (of_nat (length ?es) :: u64) = length ?es" using ok by (intro unat_of_nat_small) (simp add: rec_ok_def)
  then have c: "\<not> (of_nat (length ?es) :: u64) > 2 ^ 16" using ok by (simp add: rec_ok_def word_less_nat_alt)
  have m: "unat (?sz - 16) = nat (pi_Size p) - 16" using g(1) sz(1) by (simp add: unat_sub word_le_nat_alt word_less_nat_alt)
  have "chain_ok (ie_fits (unat (?sz - 16))) (\<lambda>_ e. Some e) None ?es" using ok by (simp add: chain_ientries rec_ok_def m)
  note lp = rd_loop_at[where step = "rd_ientry (?sz - 16)", OF rd_ientry_at this]
  have pv: "\<not> (case prev of None \<Rightarrow> False | Some q \<Rightarrow> q \<ge> sum_of p)" using assms by (auto simp: rec_fits_def split: option.splits)
  have nm: "PackName (sum_of p) = pi_Name p" "framesFit ?es ?sz" using ok by (simp_all add: rec_ok_def named_def)
  show ?thesis using g c pv nm sz
    by (simp add: rd_packrec_def put_packrec_def wire_simps Let_def n lp)
qed

lemma rd_packrec_took:
  assumes rd: "rd_packrec prev r = Inr (p, st, r')"
  shows "rd_took r (put_packrec (sum_of p, p)) r' \<and> rec_fits prev p \<and> st = Some (sum_of p)"
proof -
  obtain s r1 salt r2 sz r3 count r4 es x where h: "rd_hash r = (s, r1)" "rd_hash r1 = (salt, r2)" "rd_Uvarint r2 = (sz, r3)"
      "rd_Uvarint r3 = (count, r4)" and err: "rd_err r4 = None"
    and g: "\<not> sz < 56" "\<not> sz > 2 ^ 30" "\<not> count > 2 ^ 16" "\<forall>q. prev = Some q \<longrightarrow> q < s"
    and es: "rd_loop (rd_ientry (sz - 16)) (unat count) None r4 = Inr (es, x, r')" and fit: "framesFit es sz"
    and p: "p = \<lparr>pi_Name = PackName s, pi_Salt = salt, pi_Size = uint sz, pi_Entries = es\<rparr>" "st = Some s"
    using rd by (auto simp: rd_packrec_def result_simps Let_def not_le split: prod.splits if_splits option.splits)
  have m: "unat (sz - 16) = unat sz - 16" using g(1) by (simp add: unat_sub word_le_nat_alt word_less_nat_alt)
  have l: "56 \<le> unat sz" "unat sz \<le> 2 ^ 30" "unat count \<le> 2 ^ 16" using g by (simp_all add: word_less_nat_alt)
  have fe: "unat (sz - 16) < 2 ^ 32" using m l by simp
  note t4 = rd_Uvarint_took[OF h(4) err]
  note t3 = rd_Uvarint_took[OF h(3) conjunct1[OF rd_tookD[OF t4]]]
  note t2 = rd_hash_took[OF h(2) conjunct1[OF rd_tookD[OF t3]]]
  note t1 = rd_hash_took[OF h(1) conjunct1[OF rd_tookD[OF t2]]]
  note t5 = rd_loop_took[where enc = put_fentry and P = "ie_fits (unat (sz - 16))" and nxt = "\<lambda>_ e. Some e",
      OF rd_ientry_took[OF _ fe] es rd_took_ok[OF t4]]
  have s: "sum_of p = s" by (simp add: sum_of_def p)
  have cnt: "of_nat (length es) = count" "length es = unat count" using t5 by auto
  have ui: "nat (uint sz) = unat sz" "word_of_int (uint sz) = sz" by simp_all
  have "unat sz \<le> 1073741824" using l(2) by simp
  then have us: "56 \<le> uint sz" "uint sz \<le> 1073741824" using l(1) uint_nat[of sz] by linarith+
  have "list_all (ie_ok (unat sz - 16)) es" "sorted_wrt (\<lambda>a b. fe_Hash a < fe_Hash b) es" using t5 by (simp_all add: chain_ientries m)
  then have "rec_ok p" using l(3) us cnt(2) fit s ui by (simp add: rec_ok_def named_def p)
  then have "rec_fits prev p" using g(4) s by (simp add: rec_fits_def)
  moreover have "rd_took r (put_packrec (sum_of p, p)) r'"
    using rd_took_trans[OF t1 rd_took_trans[OF t2 rd_took_trans[OF t3 rd_took_trans[OF t4 conjunct1[OF t5]]]]] cnt ui s
    by (simp add: put_packrec_def p)
  ultimately show ?thesis using s p by simp
qed

lemma chain_recs:
  "chain_ok rec_fits (\<lambda>_ p. Some (sum_of p)) prev ps \<longleftrightarrow>
     list_all rec_ok ps \<and> sorted_wrt (\<lambda>a b. sum_of a < sum_of b) ps \<and> (\<forall>s p. prev = Some s \<longrightarrow> p \<in> set ps \<longrightarrow> s < sum_of p)"
  by (induction ps arbitrary: prev) (auto simp: rec_fits_def intro: less_trans)

section \<open>Lemmas: objects\<close>

definition object_ok :: "packinfo list \<Rightarrow> bool" where
  "object_ok ps \<longleftrightarrow> length ps \<le> MaxPacksPerObject \<and> list_all rec_ok ps \<and> sorted_wrt (\<lambda>a b. sum_of a < sum_of b) ps"

lemma insort_key_pair: "insort_key fst (f x, x) (map (\<lambda>p. (f p, p)) xs) = map (\<lambda>p. (f p, p)) (insort_key f x xs)"
  by (induction xs) auto

lemma sort_key_pairs: "sort_key fst (map (\<lambda>p. (f p, p)) xs) = map (\<lambda>p. (f p, p)) (sort_key f xs)"
  by (induction xs) (auto simp: insort_key_pair)

lemma dd_encodePlain_Inr:
  "dd_encodePlain ps = Inr b \<longleftrightarrow> list_all named ps \<and>
     b = ascii ''SCIP'' @ put_U16 1 @ put_Uvarint (of_nat (length ps)) @ concat (map (\<lambda>p. put_packrec (sum_of p, p)) (sort_key sum_of ps))"
  by (auto simp: dd_encodePlain_def result_simps pack_sums_Inr sort_key_pairs Let_def comp_def)

lemma dd_decode_laid:
  assumes "object_ok ps"
  shows "dd_decodePlain (ascii ''SCIP'' @ put_U16 1 @ put_Uvarint (of_nat (length ps)) @ concat (map (\<lambda>p. put_packrec (sum_of p, p)) ps)) = Inr ps"
proof -
  have n: "unat (of_nat (length ps) :: u64) = length ps" using assms by (intro unat_of_nat_small) (simp add: object_ok_def)
  then have "\<not> (of_nat (length ps) :: u64) > 2 ^ 16" using assms by (simp add: object_ok_def word_less_nat_alt)
  moreover have "chain_ok rec_fits (\<lambda>_ p. Some (sum_of p)) None ps" using assms by (simp add: chain_recs object_ok_def)
  note rd_loop_at[where step = rd_packrec and enc = "\<lambda>p. put_packrec (sum_of p, p)", OF rd_packrec_at this, of _ "[]"]
  ultimately show ?thesis by (simp add: dd_decodePlain_def NewReader_at wire_simps at_done n Let_def)
qed

lemma dd_decode_inv:
  assumes "dd_decodePlain b = Inr ps"
  shows "b = ascii ''SCIP'' @ put_U16 1 @ put_Uvarint (of_nat (length ps)) @ concat (map (\<lambda>p. put_packrec (sum_of p, p)) ps)" and "object_ok ps"
proof -
  obtain magic r1 v r2 n r3 st r4 where m: "rd_Fixed 4 (NewReader b) = (magic, r1)" and v: "rd_U16 r1 = (v, r2)"
    and n: "rd_Uvarint r2 = (n, r3)" and ok: "rd_err r3 = None" "magic = ascii ''SCIP''" "v = 1" "\<not> n > 2 ^ 16"
    and ps: "rd_loop rd_packrec (unat n) None r3 = Inr (ps, st, r4)" and dn: "rd_Done r4 = None"
    using assms by (auto simp: dd_decodePlain_def result_simps Let_def split: prod.splits if_splits)
  note t3 = rd_Uvarint_took[OF n ok(1)]
  note t2 = rd_U16_took[OF v conjunct1[OF rd_tookD[OF t3]]]
  note t1 = rd_Fixed_took[OF m conjunct1[OF rd_tookD[OF t2]]]
  note t4 = rd_loop_took[where enc = "\<lambda>p. put_packrec (sum_of p, p)" and P = rec_fits and nxt = "\<lambda>_ p. Some (sum_of p)",
      OF rd_packrec_took ps rd_took_ok[OF t3]]
  have l: "of_nat (length ps) = n" "length ps = unat n" using t4 by auto
  show "b = ascii ''SCIP'' @ put_U16 1 @ put_Uvarint (of_nat (length ps)) @ concat (map (\<lambda>p. put_packrec (sum_of p, p)) ps)"
    using rd_took_all[OF rd_took_trans[OF conjunct1[OF t1] rd_took_trans[OF t2 rd_took_trans[OF t3 conjunct1[OF t4]]]] dn] ok l by simp
  show "object_ok ps" using t4 l ok(4) by (simp add: object_ok_def chain_recs word_less_nat_alt)
qed

lemma sort_sums_ok:
  assumes "length ps \<le> MaxPacksPerObject" and "list_all rec_ok ps" and "distinct (map sum_of ps)"
  shows "object_ok (sort_key sum_of ps)"
proof -
  have "distinct (map sum_of (sort_key sum_of ps))" using assms(3) by (simp add: distinct_map)
  then have "sorted_wrt (<) (map sum_of (sort_key sum_of ps))" by (simp add: strict_sorted_iff)
  then show ?thesis using assms by (simp add: object_ok_def sorted_wrt_map list_all_iff)
qed

lemma object_sorted: "object_ok ps \<Longrightarrow> sort_key sum_of ps = ps"
  by (intro sort_key_id_if_sorted) (simp add: object_ok_def sorted_wrt_map strict_sorted_imp_sorted flip: sorted_wrt_map)

lemma DecodeObject_Encode:
  assumes C: "crypto_ok C" and ns: "nonces_ok nonces" and e: "EncodeObject C H kr repo ps rnd nonces = Inr (name, b)"
    and ok: "list_all rec_ok ps" "distinct (map sum_of ps)"
  shows "DecodeObject C H kr repo name b = Inr (sort_key sum_of ps)"
proof -
  obtain salt key plain sealed where len: "length ps \<le> MaxPacksPerObject" and plain: "dd_encodePlain ps = Inr plain"
    and key: "kr_Key C kr dom_Index repo salt nonces = Inr key"
    and sl: "fst (k_Seal C (ascii ''SCIX'' @ put_U16 1 @ hbytes salt) plain key) = Inr sealed"
    and b: "b = ascii ''SCIX'' @ put_U16 1 @ hbytes salt @ sealed" "\<not> length b > MaxObjectSize" "name = indexName (H b)"
    using e by (auto simp: EncodeObject_def result_simps Let_def split: if_splits option.splits)
  let ?h = "ascii ''SCIX'' @ put_U16 1 @ hbytes salt"
  have lh: "length ?h = 38" by (simp add: put_U16_def)
  have parts: "take 38 b = ?h" "drop 38 b = sealed" "\<not> length b < 38" using lh by (simp_all add: b(1) flip: append_assoc)
  obtain k2 where k2: "kr_Key C kr dom_Index repo salt (\<lambda>_. None) = Inr k2" "k_aead k2 = k_aead key" "k_tag k2 = k_tag key" "\<not> k_destroyed k2"
    and kn: "k_nonces key = nonces" using key by (auto simp: kr_Key_def withMaster_def Let_def split: if_splits)
  obtain k' where "k_Seal C ?h plain key = (Inr sealed, k')" using sl by (cases "k_Seal C ?h plain key") auto
  then have op: "k_Open C k2 ?h sealed = Inr plain" using k_Open_Seal(1)[OF C _ _ k2(2-4)] kn ns by simp
  have "dd_decodePlain plain = Inr (sort_key sum_of ps)"
    using dd_decode_laid[OF sort_sums_ok[OF len ok]] plain by (simp add: dd_encodePlain_Inr)
  moreover have "NewReader (take 38 b) = rd_at [] (ascii ''SCIX'' @ put_U16 1 @ hbytes salt)" by (simp add: parts NewReader_at)
  ultimately show ?thesis using b(2,3) k2(1) op parts
    by (simp add: DecodeObject_def NewReader_at wire_simps at_done Let_def)
qed

section \<open>Lemmas: the index in memory\<close>

text \<open>What a list of packs says of where chunks are: the first entry of the first pack that has one.\<close>

definition pack_locs :: "packinfo \<Rightarrow> (hash \<times> location) list" where
  "pack_locs p = map (\<lambda>e. (fe_Hash e, \<lparr>lo_Pack = \<lparr>pr_Name = pi_Name p, pr_Salt = pi_Salt p, pr_Size = pi_Size p\<rparr>, lo_Entry = e\<rparr>)) (pi_Entries p)"

definition dx_ok :: "packinfo list \<Rightarrow> dindex \<Rightarrow> bool" where
  "dx_ok ps x \<longleftrightarrow>
     (\<forall>n i. dx_byName x n = Some i \<longrightarrow> i < length (dx_packs x) \<and> pr_Name (dx_packs x ! i) = n \<and>
        (\<exists>p \<in> set ps. dx_packs x ! i = \<lparr>pr_Name = pi_Name p, pr_Salt = pi_Salt p, pr_Size = pi_Size p\<rparr>)) \<and>
     (\<forall>h l. dx_chunks x h = Some l \<longrightarrow> lc_pack l < length (dx_packs x))"

lemma dx_chunks_fold:
  "fold (dx_chunk i) es m h = (case m h of Some l \<Rightarrow> Some l
     | None \<Rightarrow> map_option (\<lambda>e. \<lparr>lc_pack = i, lc_offset = fe_Offset e, lc_stored = fe_StoredLen e, lc_raw = fe_RawLen e, lc_codec = fe_Codec e\<rparr>)
         (map_of (map (\<lambda>e. (fe_Hash e, e)) es) h))"
  by (induction es arbitrary: m) (auto simp: dx_chunk_def split: option.splits)

text \<open>A pack's name is the hash of its bytes: two records of one name agree on its salt and size.\<close>

definition agree :: "packinfo list \<Rightarrow> bool" where
  "agree ps \<longleftrightarrow> (\<forall>p \<in> set ps. \<forall>q \<in> set ps. pi_Name p = pi_Name q \<longrightarrow> pi_Salt p = pi_Salt q \<and> pi_Size p = pi_Size q)"

lemma map_of_pack_locs:
  "map_of (pack_locs p) h = map_option (\<lambda>e. \<lparr>lo_Pack = \<lparr>pr_Name = pi_Name p, pr_Salt = pi_Salt p, pr_Size = pi_Size p\<rparr>, lo_Entry = e\<rparr>)
     (map_of (map (\<lambda>e. (fe_Hash e, e)) (pi_Entries p)) h)"
proof -
  have "map_of (map (\<lambda>e. (fe_Hash e, f e)) es) h = map_option f (map_of (map (\<lambda>e. (fe_Hash e, e)) es) h)" for f es
    by (induction es) auto
  then show ?thesis by (simp add: pack_locs_def)
qed

lemma dx_ok_mono: "dx_ok ps x \<Longrightarrow> dx_ok (ps @ qs) x"
  unfolding dx_ok_def set_append by (intro conjI allI impI) (blast | simp)+

lemma dx_Add_chunks:
  assumes "dx_ok ps x" and "agree (ps @ [p])"
  shows "dx_ok (ps @ [p]) (dx_Add p x)"
    and "dx_Lookup (dx_Add p x) h = (case dx_Lookup x h of Some l \<Rightarrow> Some l | None \<Rightarrow> map_of (pack_locs p) h)"
proof -
  let ?r = "\<lparr>pr_Name = pi_Name p, pr_Salt = pi_Salt p, pr_Size = pi_Size p\<rparr>"
  obtain i y where iy: "i < length (dx_packs y)" "dx_packs y ! i = ?r" "dx_chunks y = dx_chunks x" "dx_ok (ps @ [p]) y"
      "\<And>j. j < length (dx_packs x) \<Longrightarrow> dx_packs y ! j = dx_packs x ! j" "length (dx_packs x) \<le> length (dx_packs y)"
    and add: "dx_Add p x = y\<lparr>dx_chunks := fold (dx_chunk i) (pi_Entries p) (dx_chunks x)\<rparr>"
  proof (cases "dx_byName x (pi_Name p)")
    case (Some i)
    then obtain q where i: "i < length (dx_packs x)" "pr_Name (dx_packs x ! i) = pi_Name p" and q: "q \<in> set ps"
        "dx_packs x ! i = \<lparr>pr_Name = pi_Name q, pr_Salt = pi_Salt q, pr_Size = pi_Size q\<rparr>"
      using assms(1) unfolding dx_ok_def by blast
    have nq: "pi_Name q = pi_Name p" using i(2) unfolding q(2) by simp
    have "q \<in> set (ps @ [p])" "p \<in> set (ps @ [p])" using q(1) by simp_all
    then have "pi_Salt q = pi_Salt p \<and> pi_Size q = pi_Size p" using assms(2) nq unfolding agree_def by blast
    with nq have "dx_packs x ! i = ?r" using q(2) by simp
    moreover have "dx_ok (ps @ [p]) x" using assms(1) by (rule dx_ok_mono)
    ultimately show ?thesis using i(1) by (intro that[of i x]) (simp_all add: dx_Add_def Some)
  next
    case None
    let ?y = "x\<lparr>dx_packs := dx_packs x @ [?r], dx_byName := (dx_byName x)(pi_Name p \<mapsto> length (dx_packs x))\<rparr>"
    have "i < length (dx_packs ?y) \<and> pr_Name (dx_packs ?y ! i) = n \<and>
        (\<exists>q \<in> set (ps @ [p]). dx_packs ?y ! i = \<lparr>pr_Name = pi_Name q, pr_Salt = pi_Salt q, pr_Size = pi_Size q\<rparr>)"
      if "dx_byName ?y n = Some i" for n i
    proof (cases "n = pi_Name p")
      case True
      then show ?thesis using that by (auto simp: nth_append)
    next
      case False
      then have "dx_byName x n = Some i" using that by simp
      then have "i < length (dx_packs x) \<and> pr_Name (dx_packs x ! i) = n \<and>
          (\<exists>q \<in> set ps. dx_packs x ! i = \<lparr>pr_Name = pi_Name q, pr_Salt = pi_Salt q, pr_Size = pi_Size q\<rparr>)"
        using assms(1) unfolding dx_ok_def by blast
      then show ?thesis by (auto simp: nth_append)
    qed
    moreover have "lc_pack l < length (dx_packs ?y)" if "dx_chunks ?y h = Some l" for h l using assms(1) that by (auto simp: dx_ok_def less_Suc_eq)
    ultimately have "dx_ok (ps @ [p]) ?y" unfolding dx_ok_def by blast
    then show ?thesis by (intro that[of "length (dx_packs x)" ?y]) (simp_all add: dx_Add_def None nth_append)
  qed
  show "dx_ok (ps @ [p]) (dx_Add p x)"
    using iy by (auto simp: add dx_ok_def dx_chunks_fold split: option.splits)
  have e: "e = \<lparr>fe_Hash = h, fe_Offset = fe_Offset e, fe_StoredLen = fe_StoredLen e, fe_RawLen = fe_RawLen e, fe_Codec = fe_Codec e\<rparr>"
    if "map_of (map (\<lambda>e. (fe_Hash e, e)) (pi_Entries p)) h = Some e" for e
    using map_of_SomeD[OF that] by auto
  have "dx_chunks x h = Some l \<Longrightarrow> lc_pack l < length (dx_packs x)" for l using assms(1) by (simp add: dx_ok_def)
  then show "dx_Lookup (dx_Add p x) h = (case dx_Lookup x h of Some l \<Rightarrow> Some l | None \<Rightarrow> map_of (pack_locs p) h)"
    using iy e by (auto simp: dx_Lookup_def add dx_chunks_fold map_of_pack_locs split: option.splits)
qed

lemma dx_fold:
  "agree ps \<Longrightarrow> dx_ok ps (fold dx_Add ps dx_New) \<and> dx_Lookup (fold dx_Add ps dx_New) h = map_of (concat (map pack_locs ps)) h"
proof (induction ps arbitrary: h rule: rev_induct)
  case Nil
  then show ?case by (simp add: dx_ok_def dx_New_def dx_Lookup_def)
next
  case (snoc p ps)
  have "agree ps" using snoc.prems unfolding agree_def set_append by blast
  note ih = snoc.IH[OF this]
  note a = dx_Add_chunks[OF conjunct1[OF ih] snoc.prems]
  show ?case using a(1) a(2)[of h] ih by (simp add: map_add_def)
qed

section \<open>Lemmas: finished packs\<close>

lemma framesFit_apart:
  assumes "index_ok io es" and sz: "unat sz = io + length (pk_encodeIndex es) + 44" and "io < 2 ^ 32"
  shows "framesFit es sz"
proof -
  have n: "length es \<le> MaxChunksPerPack" using assms(1) by (simp add: index_ok_def)
  have len: "length (pk_encodeIndex es) + 28 < 2 ^ 32" using pk_length_encodeIndex[OF n] n by (simp add: indexBound_def)
  have ix: "unat (SealedIndexLen es) = length (pk_encodeIndex es) + 28"
    using SealedIndexLen_length[OF n] len by (simp add: unat_of_nat_small del: of_nat_add)
  have s16: "unat (sz - 16) = unat sz - 16" using sz by (simp add: unat_sub word_le_nat_alt)
  have le: "\<not> SealedIndexLen es > sz - 16" using ix s16 sz by (simp add: word_less_nat_alt)
  then have io: "unat (sz - 16 - SealedIndexLen es) = io" using ix s16 sz by (simp add: unat_sub word_le_nat_alt word_less_nat_alt)
  have "\<exists>z. frames_end 40 (sort_key fe_Offset es) = Some z \<and> unat z \<le> io"
    using assms(1) sorted_hash_distinct[of es]
    by (intro frames_end_walks) (auto simp: index_ok_def list_all_iff fe_ok_def frames_apart_def)
  then show ?thesis using le io by (auto simp: framesFit_def Let_def word_le_nat_alt)
qed

lemma finished_rec_ok:
  assumes inv: "pack_inv C Z H kr repo w pool cs" and C: "crypto_ok C" and f: "Finish C H w = (Inr bt, w')"
  shows "rec_ok (bt_Info bt)"
proof -
  let ?es = "sort_key fe_Hash (pw_entries w)" and ?i = "bt_Info bt"
  have h: "pw_holds C Z H w cs" using inv by (simp add: pack_inv_def)
  note r = Finish_ReadInfo[OF inv C f]
  note ix = sorted_entries_ok[OF h]
  have n: "length (pw_entries w) \<le> MaxChunksPerPack" "40 \<le> length (pw_buf w)" "length (pw_buf w) < 2 ^ 31" "pw_maxSize w \<le> MaxPackSize"
    using h by (simp_all add: pw_holds_def)
  have "pw_Size w \<le> MaxPackSize"
  proof (cases "length (pw_entries w) \<le> 1")
    case True
    then show ?thesis using h by (auto simp: pw_holds_def pw_room_def pw_Size_def indexBound_def)
  next
    case False
    then show ?thesis using h by (auto simp: pw_holds_def pw_room_def pw_Size_def)
  qed
  then have sz: "int (length (bt_Bytes bt)) \<le> 2 ^ 30" using r(5) by linarith
  have nm: "named ?i" by (simp add: named_def sum_of_def r(7) pack_Name_def)
  have "list_all (ie_ok (length (bt_Bytes bt) - 16)) ?es"
  proof -
    have "ie_ok (length (bt_Bytes bt) - 16) e" if e: "e \<in> set ?es" for e
    proof -
      have "fe_ok (length (pw_buf w)) e" "unat (fe_Offset e) + unat (fe_StoredLen e) \<le> length (pw_buf w)"
        using ix e by (auto simp: index_ok_def list_all_iff frames_apart_def)
      then show ?thesis using r(6) by (auto simp: ie_ok_def fe_ok_def)
    qed
    then show ?thesis by (simp add: list_all_iff)
  qed
  moreover have "unat (of_nat (length (bt_Bytes bt)) :: u64) = length (bt_Bytes bt)" using sz by (intro unat_of_nat_small) simp
  then have "framesFit ?es (of_nat (length (bt_Bytes bt)))" using r(6) n(3) by (intro framesFit_apart[OF ix]) simp_all
  then have "framesFit ?es (word_of_int (pi_Size ?i))" by (simp only: r(8) of_int_of_nat_eq)
  moreover have "nat (pi_Size ?i) = length (bt_Bytes bt)" by (simp add: r(8))
  moreover have "56 \<le> pi_Size ?i" "pi_Size ?i \<le> MaxPackSize" using sz n(2) r(6) by (simp_all add: r(8))
  ultimately show ?thesis unfolding rec_ok_def r(3) using nm n(1) ix by (simp add: index_ok_def)
qed

section \<open>Properties\<close>


text \<open>C14. What writers finish, the index lists: of packs each finished by a writer, in any order and number an object takes,
  no two of one hash, the index object sealed for them opens, under its name and the repository's key, to exactly
  their records in hash order.\<close>

theorem finished_packs_listed:
  assumes "crypto_ok C" and "nonces_ok nonces" and "distinct (map sum_of ps)"
    and "\<forall>p \<in> set ps. \<exists>Z w pool cs bt w'. zcodec_ok Z \<and> pack_run C Z H kr repo w pool cs \<and> Finish C H w = (Inr bt, w') \<and> p = bt_Info bt"
    and "EncodeObject C H kr repo ps rnd nonces = Inr (name, b)"
  shows "DecodeObject C H kr repo name b = Inr (sort_key sum_of ps)"
proof -
  have "rec_ok p" if p: "p \<in> set ps" for p
  proof -
    obtain Z w pool cs bt w' where "zcodec_ok Z" "pack_run C Z H kr repo w pool cs" "Finish C H w = (Inr bt, w')" "p = bt_Info bt"
      using assms(4) p by blast
    then show ?thesis using finished_rec_ok[OF pack_run_inv[OF _ assms(1)] assms(1)] by simp
  qed
  then show ?thesis using DecodeObject_Encode[OF assms(1,2,5) _ assms(3)] by (simp add: list_all_iff)
qed

theorem finished_packs_listed_witness:
  "\<exists>p name b. EncodeObject plain_crypto (\<lambda>_. zero_hash) plain_keyring [] [p] (Some zero_hash) plain_nonces = Inr (name, b) \<and>
     DecodeObject plain_crypto (\<lambda>_. zero_hash) plain_keyring [] name b = Inr [p]"
proof -
  let ?H = "\<lambda>_ :: bytes. zero_hash"
  obtain w bt w' where w: "pack_run plain_crypto plain_zcodec ?H plain_keyring [] w [] [[1, 2, 3]]"
    and f: "Finish plain_crypto ?H w = (Inr bt, w')" using plain_pack by blast
  let ?p = "bt_Info bt"
  note inv = pack_run_inv[OF w plain_crypto_ok plain_zcodec_ok]
  have nm: "named ?p" using finished_rec_ok[OF inv plain_crypto_ok f] by (simp add: rec_ok_def)
  have one: "length (pi_Entries ?p) \<le> 1" using Finish_ReadInfo(3)[OF inv plain_crypto_ok f] inv
    by (auto simp: pack_inv_def pw_holds_def dest: list_all2_lengthD)
  obtain name b where e: "EncodeObject plain_crypto ?H plain_keyring [] [?p] (Some zero_hash) plain_nonces = Inr (name, b)"
  proof -
    have "\<exists>plain. dd_encodePlain [?p] = Inr plain \<and> length plain \<le> 4 + 2 + 10 + (64 + 10 + 10 + 48)"
    proof -
      have "length (concat (map put_fentry (pi_Entries ?p))) \<le> 48"
        using one length_put_fentry by (cases "pi_Entries ?p") auto
      moreover have "length (put_Uvarint v) \<le> 10" for v using unat_lt2p[of v] by (intro length_uvarint_bound) simp_all
      note this[of "word_of_int (pi_Size ?p)"] this[of "of_nat (length (pi_Entries ?p))"] this[of 1]
      ultimately show ?thesis using nm by (simp add: dd_encodePlain_Inr put_packrec_def put_U16_def)
    qed
    then obtain plain where plain: "dd_encodePlain [?p] = Inr plain" "length plain \<le> 148" by auto
    obtain key where key: "kr_Key plain_crypto plain_keyring dom_Index [] zero_hash plain_nonces = Inr key"
      "\<not> k_destroyed key" "k_seals key < k_limit key" "k_nonces key = plain_nonces"
      using plain_keyring_live by (simp add: kr_Key_def withMaster_def dom_Tag_def domain_tags_def ascii_def)
    let ?h = "ascii ''SCIX'' @ put_U16 1 @ hbytes zero_hash"
    obtain c where c: "k_Seal plain_crypto ?h plain key = (Inr c, key\<lparr>k_seals := Suc (k_seals key)\<rparr>)"
      using plain_seal[of key ?h plain] key(2-4) by auto
    have "length c = length plain + 28" using k_Open_Seal(2)[OF plain_crypto_ok _ c refl refl key(2)] key(4) plain_nonces_ok by simp
    then show ?thesis using that plain key(1) c by (simp add: EncodeObject_def put_U16_def)
  qed
  have a: "\<forall>p \<in> set [?p]. \<exists>Z w pool cs bt w'. zcodec_ok Z \<and> pack_run plain_crypto Z ?H plain_keyring [] w pool cs \<and> Finish plain_crypto ?H w = (Inr bt, w') \<and> p = bt_Info bt"
    using w f plain_zcodec_ok by auto
  show ?thesis using finished_packs_listed[OF plain_crypto_ok plain_nonces_ok _ a e] e by auto
qed



end
