(* ===== verification/Table.thy ===== *)
theory Table
  imports Hash
begin

text \<open>
  \<^verbatim>\<open>core/dedup/table.go\<close>: a table of hash-keyed records built by sorting runs and merging them, and read with two
  searches over samples and one over a block. The table's file is its bytes; a spilled run, which only the
  builder reads back record by record, is the list of its records. Failures of the file system are not modelled.
\<close>

abbreviation tableHeader :: nat where "tableHeader \<equiv> 32"
abbreviation sampleEvery :: nat where "sampleEvery \<equiv> 256"
abbreviation MaxValueLen :: nat where "MaxValueLen \<equiv> 255"
abbreviation mergeFanIn :: nat where "mergeFanIn \<equiv> 32"

type_synonym trec = "hash \<times> bytes"

section \<open>The builder\<close>

record tbuilder =
  tb_valueLen :: nat
  tb_runSize :: nat
  tb_buf :: "trec list"
  tb_runs :: "trec list list"

definition NewBuilder :: "int \<Rightarrow> tbuilder result" where
  "NewBuilder valueLen =
     (if valueLen < 0 \<or> valueLen > int MaxValueLen then Inl (ErrOther ''dedup: table value length'')
      else Inr \<lparr>tb_valueLen = nat valueLen, tb_runSize = 2 ^ 19, tb_buf = [], tb_runs = []\<rparr>)"

text \<open>\<^verbatim>\<open>spill\<close>: the sort is stable.\<close>

definition tb_spill :: "tbuilder \<Rightarrow> tbuilder" where
  "tb_spill b = (if tb_buf b = [] then b else b\<lparr>tb_runs := tb_runs b @ [sort_key fst (tb_buf b)], tb_buf := []\<rparr>)"

definition tb_Add :: "hash \<Rightarrow> bytes \<Rightarrow> (tbuilder, unit) comp" where
  "tb_Add h v b =
     (if length v \<noteq> tb_valueLen b then (Inl (ErrOther ''dedup: table value''), b)
      else let b = b\<lparr>tb_buf := tb_buf b @ [(h, v)]\<rparr> in
        (Inr (), if length (tb_buf b) \<ge> tb_runSize b then tb_spill b else b))"

text \<open>The heap of runs: the record of the least key, of the earliest run among those that have it, and the runs
  without it.\<close>

fun merge_pop :: "trec list list \<Rightarrow> (trec \<times> trec list list) option" where
  "merge_pop [] = None"
| "merge_pop ([] # rs) = (case merge_pop rs of None \<Rightarrow> None | Some (y, rs') \<Rightarrow> Some (y, [] # rs'))"
| "merge_pop ((x # xs) # rs) =
     (case merge_pop rs of
        None \<Rightarrow> Some (x, xs # rs)
      | Some (y, rs') \<Rightarrow> if fst y < fst x then Some (y, (x # xs) # rs') else Some (x, xs # rs))"

lemma merge_pop_size: "merge_pop rs = Some (y, rs') \<Longrightarrow> length (concat rs) = Suc (length (concat rs'))"
  by (induction rs arbitrary: y rs' rule: merge_pop.induct) (auto split: option.splits if_splits)

function tb_merge :: "hash option \<Rightarrow> trec list list \<Rightarrow> trec list" where
  "tb_merge prev rs =
     (case merge_pop rs of
        None \<Rightarrow> []
      | Some (r, rs') \<Rightarrow> if prev = Some (fst r) then tb_merge prev rs' else r # tb_merge (Some (fst r)) rs')"
  by pat_completeness auto
termination tb_merge
  by (relation "measure (\<lambda>(prev, rs). length (concat rs))") (auto dest: merge_pop_size)

declare tb_merge.simps [simp del]

text \<open>One pass over too many runs, in groups of the fan-in, in order.\<close>

function merge_groups :: "trec list list \<Rightarrow> trec list list" where
  "merge_groups rs = (if rs = [] then [] else tb_merge None (take mergeFanIn rs) # merge_groups (drop mergeFanIn rs))"
  by pat_completeness auto
termination merge_groups
  by (relation "measure length") (auto simp: length_greater_0_conv[symmetric] simp del: length_greater_0_conv)

declare merge_groups.simps [simp del]

lemma length_merge_groups: "length (merge_groups rs) = (length rs + 31) div 32"
proof (induction rs rule: merge_groups.induct)
  case (1 rs)
  show ?case
  proof (cases "rs = []")
    case True
    then show ?thesis by (simp add: merge_groups.simps)
  next
    case False
    then have "length (merge_groups rs) = Suc ((length rs - 32 + 31) div 32)" using 1 by (simp add: merge_groups.simps[of rs])
    moreover have "Suc ((n - 32 + 31) div 32) = (n + 31) div 32" if "0 < n" for n :: nat
    proof (cases "n \<le> 32")
      case True
      then have "(n + 31) div 32 = 1" using that by (intro div_nat_eqI) simp_all
      then show ?thesis using True by simp
    next
      case False
      then have "n + 31 = (n - 32 + 31) + 32" by simp
      then show ?thesis by (simp del: add_diff_inverse_nat)
    qed
    ultimately show ?thesis using False by simp
  qed
qed

function merge_runs :: "trec list list \<Rightarrow> trec list list" where
  "merge_runs rs = (if length rs > mergeFanIn then merge_runs (merge_groups rs) else rs)"
  by pat_completeness auto
termination merge_runs
  by (relation "measure length") (auto simp: length_merge_groups)

declare merge_runs.simps [simp del]

definition tb_samples :: "trec list \<Rightarrow> hash list" where
  "tb_samples rs = map (\<lambda>i. fst (rs ! (i * sampleEvery))) [0..<(length rs + 255) div 256]"

definition table_header :: "nat \<Rightarrow> nat \<Rightarrow> bytes" where
  "table_header valueLen count =
     ascii ''SCTB'' @ put_U16 1 @ put_U16 (of_nat valueLen) @ put_U64 (of_nat count) @ put_U32 256 @ replicate 12 0"

definition table_file :: "nat \<Rightarrow> trec list \<Rightarrow> bytes" where
  "table_file valueLen rs = table_header valueLen (length rs) @ concat (map (\<lambda>(h, v). hbytes h @ v) rs) @ concat (map hbytes (tb_samples rs))"

section \<open>The table\<close>

record htable =
  t_f :: bytes
  t_valueLen :: nat
  t_rec :: nat
  t_count :: nat
  t_samples :: nat
  t_l1 :: "hash list"

definition ReadAt :: "bytes \<Rightarrow> nat \<Rightarrow> nat \<Rightarrow> bytes result" where
  "ReadAt f n off = (if off + n \<le> length f then Inr (take n (drop off f)) else Inl (ErrOther ''EOF''))"

fun table_l1 :: "bytes \<Rightarrow> nat \<Rightarrow> nat list \<Rightarrow> hash list result" where
  "table_l1 f base [] = Inr []"
| "table_l1 f base (j # js) = rbind (ReadAt f 32 (base + j * sampleEvery * 32)) (\<lambda>k. rbind (table_l1 f base js) (\<lambda>ks. Inr (copy_hash k # ks)))"

definition openTable :: "bytes \<Rightarrow> htable result" where
  "openTable f =
     (if length f < tableHeader then Inl ErrDedupCorrupt
      else rbind (ReadAt f tableHeader 0) (\<lambda>hdr.
        let valueLen = unat (le_word (take 2 (drop 6 hdr)) :: u16); count = unat (le_word (take 8 (drop 8 hdr)) :: u64) in
        if take 4 hdr \<noteq> ascii ''SCTB'' then Inl ErrDedupCorrupt
        else if (le_word (take 2 (drop 4 hdr)) :: u16) \<noteq> 1 then Inl ErrDedupCorrupt
        else if valueLen > MaxValueLen then Inl ErrDedupCorrupt
        else if (le_word (take 4 (drop 16 hdr)) :: u32) \<noteq> 256 then Inl ErrDedupCorrupt
        else if drop 20 hdr \<noteq> replicate 12 0 then Inl ErrDedupCorrupt
        else let rc = 32 + valueLen in
          if count > (length f - tableHeader) div rc then Inl ErrDedupCorrupt
          else let samples = (count + 255) div 256 in
            if tableHeader + count * rc + samples * 32 \<noteq> length f then Inl ErrDedupCorrupt
            else rbind (table_l1 f (tableHeader + count * rc) [0..<(samples + 255) div 256]) (\<lambda>l1.
              Inr \<lparr>t_f = f, t_valueLen = valueLen, t_rec = rc, t_count = count, t_samples = samples, t_l1 = l1\<rparr>)))"

definition tb_Finish :: "tbuilder \<Rightarrow> htable result" where
  "tb_Finish b = (let b = tb_spill b in openTable (table_file (tb_valueLen b) (tb_merge None (merge_runs (tb_runs b)))))"

definition t_sampleOff :: "htable \<Rightarrow> nat \<Rightarrow> nat" where
  "t_sampleOff t j = tableHeader + t_count t * t_rec t + j * 32"

definition t_recordOff :: "htable \<Rightarrow> nat \<Rightarrow> nat" where
  "t_recordOff t i = tableHeader + i * t_rec t"

definition t_Lookup :: "htable \<Rightarrow> hash \<Rightarrow> bytes option result" where
  "t_Lookup t h =
     (if t_count t = 0 then Inr None
      else let i1 = sort_Search (length (t_l1 t)) (\<lambda>i. t_l1 t ! i > h) in
        if i1 = 0 then Inr None
        else let at = (i1 - 1) * sampleEvery; n = min sampleEvery (t_samples t - at) in
          rbind (ReadAt (t_f t) (n * 32) (t_sampleOff t at)) (\<lambda>keys.
            let j = sort_Search n (\<lambda>i. take 32 (drop (i * 32) keys) > hbytes h) in
            if j = 0 then Inr None
            else let block = at + (j - 1); first = block * sampleEvery; n = min sampleEvery (t_count t - first) in
              rbind (ReadAt (t_f t) (n * t_rec t) (t_recordOff t first)) (\<lambda>recs.
                let k = sort_Search n (\<lambda>i. take 32 (drop (i * t_rec t) recs) \<ge> hbytes h) in
                if k = n \<or> take 32 (drop (k * t_rec t) recs) \<noteq> hbytes h then Inr None
                else Inr (Some (drop (k * t_rec t + 32) (take ((k + 1) * t_rec t) recs))))))"

definition t_Has :: "htable \<Rightarrow> hash \<Rightarrow> bool result" where
  "t_Has t h = rbind (t_Lookup t h) (\<lambda>v. Inr (v \<noteq> None))"

record tcursor =
  cu_r :: bytes
  cu_left :: nat
  cu_rec :: nat

definition t_Cursor :: "htable \<Rightarrow> tcursor" where
  "t_Cursor t = \<lparr>cu_r = take (t_count t * t_rec t) (drop tableHeader (t_f t)), cu_left = t_count t, cu_rec = t_rec t\<rparr>"

definition cu_Next :: "(tcursor, trec option) comp" where
  "cu_Next c =
     (if cu_left c = 0 then (Inr None, c)
      else if length (cu_r c) < cu_rec c then (Inl (ErrOther ''dedup: reading the table''), c\<lparr>cu_r := []\<rparr>)
      else let b = take (cu_rec c) (cu_r c) in
        (Inr (Some (copy_hash b, drop 32 b)), c\<lparr>cu_r := drop (cu_rec c) (cu_r c), cu_left := cu_left c - 1\<rparr>))"

section \<open>Lemmas: merging\<close>

lemma merge_pop_None: "merge_pop rs = None \<longleftrightarrow> concat rs = []"
  by (induction rs rule: merge_pop.induct) (auto split: option.splits if_splits)

lemma merge_pop_least:
  "merge_pop rs = Some (y, rs') \<Longrightarrow> \<forall>r \<in> set rs. sorted (map fst r) \<Longrightarrow>
     (\<forall>x \<in> set (concat rs). fst y \<le> fst x) \<and> (\<forall>r \<in> set rs'. sorted (map fst r)) \<and> set (concat rs) = insert y (set (concat rs')) \<and>
     map_of (concat rs) (fst y) = Some (snd y) \<and> (\<forall>k. k \<noteq> fst y \<longrightarrow> map_of (concat rs) k = map_of (concat rs') k)"
proof (induction rs arbitrary: y rs' rule: merge_pop.induct)
  case (2 rs)
  then obtain zs where z: "merge_pop rs = Some (y, zs)" "rs' = [] # zs" by (auto split: option.splits)
  have "\<forall>r \<in> set rs. sorted (map fst r)" using 2(3) by simp
  with 2(1)[OF z(1)] show ?case by (simp add: z(2) del: set_concat)
next
  case (3 x xs rs)
  show ?case
  proof (cases "merge_pop rs")
    case None
    then have "concat rs = []" by (simp add: merge_pop_None)
    then show ?thesis using 3 None by (auto simp: map_add_def)
  next
    case (Some p)
    obtain z zs where p: "p = (z, zs)" by fastforce
    note ih = "3.IH"[OF Some[unfolded p]]
    have srt: "\<forall>r \<in> set rs. sorted (map fst r)" "sorted (map fst (x # xs))" using "3.prems"(2) by auto
    show ?thesis
    proof (cases "fst z < fst x")
      case True
      then have y: "y = z" "rs' = (x # xs) # zs" using "3.prems"(1) by (auto simp: Some p)
      have lt: "fst z < fst w" if "w \<in> set (x # xs)" for w using True srt(2) that by auto
      then have nz: "map_of (x # xs) (fst z) = None" unfolding map_of_eq_None_iff by (metis imageE less_irrefl)
      have cc: "concat ((x # xs) # q) = (x # xs) @ concat q" for q by simp
      have le: "\<forall>w \<in> set (concat ((x # xs) # rs)). fst y \<le> fst w"
        unfolding cc set_append y using ih[OF srt(1)] lt less_imp_le by blast
      have "set (concat ((x # xs) # rs)) = insert y (set (concat rs'))" unfolding y cc set_append using ih[OF srt(1)] by blast
      moreover have "map_of (concat ((x # xs) # rs)) (fst y) = Some (snd y)"
        unfolding y cc map_of_append map_add_def using ih[OF srt(1)] nz by simp
      moreover have "map_of (concat ((x # xs) # rs)) k = map_of (concat rs') k" if "k \<noteq> fst y" for k
        unfolding y cc map_of_append map_add_def using ih[OF srt(1)] that y(1) by (simp split: option.splits)
      moreover have "\<forall>r \<in> set rs'. sorted (map fst r)" using ih[OF srt(1)] srt(2) y by simp
      ultimately show ?thesis using le by blast
    next
      case False
      then have y: "y = x" "rs' = xs # rs" using "3.prems"(1) by (auto simp: Some p)
      have cc: "concat ((x # xs) # q) = (x # xs) @ concat q" for q by simp
      have "fst x \<le> fst w" if "w \<in> set (concat rs)" for w
        using ih[OF srt(1)] that False by (meson le_less_trans not_le)
      moreover have "fst x \<le> fst w" if "w \<in> set (x # xs)" for w using srt(2) that by auto
      ultimately have "\<forall>w \<in> set (concat ((x # xs) # rs)). fst y \<le> fst w" unfolding cc set_append y by blast
      moreover have "map_of (concat ((x # xs) # rs)) (fst y) = Some (snd y)" "\<forall>k. k \<noteq> fst y \<longrightarrow> map_of (concat ((x # xs) # rs)) k = map_of (concat rs') k"
        by (simp_all add: y map_add_def)
      moreover have "set (concat ((x # xs) # rs)) = insert y (set (concat rs'))" by (simp add: y)
      moreover have "\<forall>r \<in> set rs'. sorted (map fst r)" using srt y by simp
      ultimately show ?thesis by blast
    qed
  qed
qed auto

lemma tb_merge_spec:
  assumes "\<forall>r \<in> set rs. sorted (map fst r)" and "\<forall>l. prev = Some l \<longrightarrow> (\<forall>x \<in> set (concat rs). l \<le> fst x)"
  shows "sorted_wrt (<) (map fst (tb_merge prev rs)) \<and> set (tb_merge prev rs) \<subseteq> set (concat rs) \<and>
    (\<forall>l. prev = Some l \<longrightarrow> (\<forall>x \<in> set (tb_merge prev rs). l < fst x)) \<and>
    (\<forall>k. map_of (tb_merge prev rs) k = (if prev = Some k then None else map_of (concat rs) k))"
  using assms
proof (induction prev rs rule: tb_merge.induct)
  case (1 prev rs)
  show ?case
  proof (cases "merge_pop rs")
    case None
    then have c: "concat rs = []" using merge_pop_None[of rs] by blast
    show ?thesis unfolding tb_merge.simps[of prev rs] None c by simp
  next
    case (Some p)
    obtain r rs' where p: "p = (r, rs')" by fastforce
    note l = merge_pop_least[OF Some[unfolded p] "1.prems"(1)]
    have bnd: "\<forall>x \<in> set (concat rs'). fst r \<le> fst x" and srt: "\<forall>r \<in> set rs'. sorted (map fst r)"
      and sub: "set (concat rs') \<subseteq> set (concat rs)" using l by blast+
    have bs: "\<forall>l. Some (fst r) = Some l \<longrightarrow> (\<forall>x \<in> set (concat rs'). l \<le> fst x)" using bnd by blast
    show ?thesis
    proof (cases "prev = Some (fst r)")
      case True
      have eq: "tb_merge prev rs = tb_merge prev rs'" unfolding tb_merge.simps[of prev rs] Some p using True by simp
      note ih = "1.IH"(1)[OF Some p[symmetric] True srt bs[folded True]]
      have "(if prev = Some k then None else map_of (concat rs') k) = (if prev = Some k then None else map_of (concat rs) k)" for k
        using l True by auto
      moreover have "set (tb_merge prev rs') \<subseteq> set (concat rs)" using ih sub by (meson order_trans)
      ultimately show ?thesis unfolding eq using ih by simp
    next
      case False
      have eq: "tb_merge prev rs = r # tb_merge (Some (fst r)) rs'" using False by (simp add: tb_merge.simps[of prev rs] Some p)
      note ih = "1.IH"(2)[OF Some p[symmetric] False srt bs]
      have lt: "l' < fst r" if "prev = Some l'" for l'
        using "1.prems"(2) that l False by (metis insertI1 order.not_eq_order_implies_strict)
      have i: "sorted_wrt (<) (map fst (tb_merge (Some (fst r)) rs'))" "set (tb_merge (Some (fst r)) rs') \<subseteq> set (concat rs')"
        "\<forall>x \<in> set (tb_merge (Some (fst r)) rs'). fst r < fst x"
        "\<And>k. map_of (tb_merge (Some (fst r)) rs') k = (if fst r = k then None else map_of (concat rs') k)"
        using ih by auto
      have m: "map_of (tb_merge prev rs) k = (if prev = Some k then None else map_of (concat rs) k)" for k
      proof (cases "k = fst r")
        case True
        then show ?thesis using False l by (simp add: eq)
      next
        case kr: False
        have "prev = Some k \<Longrightarrow> map_of (concat rs') k = None"
          using lt[of k] bnd unfolding map_of_eq_None_iff by fastforce
        then show ?thesis using kr l i(4)[of k] by (auto simp: eq)
      qed
      have "\<forall>l. prev = Some l \<longrightarrow> (\<forall>x \<in> set (tb_merge prev rs). l < fst x)" unfolding eq using lt i(3) by (auto intro: less_trans)
      moreover have "sorted_wrt (<) (map fst (tb_merge prev rs))" unfolding eq using i(1,3) by simp
      moreover have "set (tb_merge prev rs) \<subseteq> set (concat rs)" unfolding eq using i(2) l by (simp del: set_concat) blast
      ultimately show ?thesis using m by blast
    qed
  qed
qed

lemma tb_merge_None:
  assumes "\<forall>r \<in> set rs. sorted (map fst r)"
  shows "sorted_wrt (<) (map fst (tb_merge None rs))" and "set (tb_merge None rs) \<subseteq> set (concat rs)" and "map_of (tb_merge None rs) = map_of (concat rs)"
  using tb_merge_spec[of rs None] assms by auto

lemma merge_groups_spec:
  "\<forall>r \<in> set rs. sorted (map fst r) \<Longrightarrow> (\<forall>r \<in> set (merge_groups rs). sorted (map fst r)) \<and>
     set (concat (merge_groups rs)) \<subseteq> set (concat rs) \<and> map_of (concat (merge_groups rs)) = map_of (concat rs)"
proof (induction rs rule: merge_groups.induct)
  case (1 rs)
  show ?case
  proof (cases "rs = []")
    case True
    then show ?thesis by (simp add: merge_groups.simps)
  next
    case False
    let ?g = "take mergeFanIn rs" and ?d = "drop mergeFanIn rs"
    have s: "\<forall>r \<in> set ?g. sorted (map fst r)" "\<forall>r \<in> set ?d. sorted (map fst r)" using 1(2) by (auto dest: in_set_takeD in_set_dropD)
    note g = tb_merge_None[OF s(1)] and ih = 1(1)[OF False s(2)]
    have eq: "merge_groups rs = tb_merge None ?g # merge_groups ?d" using False by (simp add: merge_groups.simps[of rs])
    have cc: "concat rs = concat ?g @ concat ?d" by (metis append_take_drop_id concat_append)
    show ?thesis unfolding eq using g ih cc by (auto simp: strict_sorted_imp_sorted)
  qed
qed

lemma merge_runs_spec:
  "\<forall>r \<in> set rs. sorted (map fst r) \<Longrightarrow> (\<forall>r \<in> set (merge_runs rs). sorted (map fst r)) \<and>
     set (concat (merge_runs rs)) \<subseteq> set (concat rs) \<and> map_of (concat (merge_runs rs)) = map_of (concat rs)"
proof (induction rs rule: merge_runs.induct)
  case (1 rs)
  show ?case
  proof (cases "length rs > mergeFanIn")
    case True
    note g = merge_groups_spec[OF 1(2)]
    note h = 1(1)[OF True conjunct1[OF g]]
    have "merge_runs rs = merge_runs (merge_groups rs)" using True by (simp add: merge_runs.simps[of rs])
    moreover have "set (concat (merge_runs (merge_groups rs))) \<subseteq> set (concat rs)" using g h by (meson order_trans)
    ultimately show ?thesis using g h by simp
  next
    case False
    then show ?thesis using 1(2) by (simp add: merge_runs.simps[of rs])
  qed
qed

section \<open>Lemmas: building\<close>

lemma map_of_filter_key: "map_of xs k = (case filter (\<lambda>x. fst x = k) xs of [] \<Rightarrow> None | x # _ \<Rightarrow> Some (snd x))"
  by (induction xs) (auto split: if_splits)

lemma map_of_sort_key: "map_of (sort_key fst xs) = map_of xs"
proof
  fix k
  have "filter (\<lambda>x. fst x = k) (sort_key fst xs) = filter (\<lambda>x. fst x = k) xs"
    by (rule sort_key_stable)
  then show "map_of (sort_key fst xs) k = map_of xs k" by (simp add: map_of_filter_key[of _ k])
qed

text \<open>A builder that has taken the records \<open>rs\<close>.\<close>

definition tb_holds :: "nat \<Rightarrow> trec list \<Rightarrow> tbuilder \<Rightarrow> bool" where
  "tb_holds n rs b \<longleftrightarrow> tb_valueLen b = n \<and> (\<forall>r \<in> set (tb_runs b). sorted (map fst r)) \<and>
     set (concat (tb_runs b) @ tb_buf b) = set rs \<and> map_of (concat (tb_runs b) @ tb_buf b) = map_of rs"

lemma tb_spill_holds: "tb_holds n rs b \<Longrightarrow> tb_holds n rs (tb_spill b) \<and> tb_buf (tb_spill b) = []"
  by (auto simp: tb_holds_def tb_spill_def map_of_sort_key)

lemma tb_Add_holds:
  assumes "tb_holds n rs b" and "length v = n"
  shows "fst (tb_Add h v b) = Inr ()" and "tb_holds n (rs @ [(h, v)]) (snd (tb_Add h v b))"
proof -
  have n: "length v = tb_valueLen b" using assms by (simp add: tb_holds_def)
  have a: "tb_holds n (rs @ [(h, v)]) (b\<lparr>tb_buf := tb_buf b @ [(h, v)]\<rparr>)"
    using assms by (simp add: tb_holds_def flip: append_assoc)
  show "fst (tb_Add h v b) = Inr ()" using n by (simp add: tb_Add_def Let_def)
  show "tb_holds n (rs @ [(h, v)]) (snd (tb_Add h v b))"
    using n a tb_spill_holds[OF a] by (simp add: tb_Add_def Let_def)
qed

definition tb_Adds :: "trec list \<Rightarrow> tbuilder \<Rightarrow> tbuilder" where
  "tb_Adds rs b = fold (\<lambda>(h, v) b. snd (tb_Add h v b)) rs b"

lemma tb_Adds_holds: "tb_holds n qs b \<Longrightarrow> \<forall>(h, v) \<in> set rs. length v = n \<Longrightarrow> tb_holds n (qs @ rs) (tb_Adds rs b)"
proof (induction rs arbitrary: qs b)
  case (Cons r rs)
  obtain h v where r: "r = (h, v)" by fastforce
  have "tb_holds n (qs @ [(h, v)]) (snd (tb_Add h v b))" using Cons.prems by (intro tb_Add_holds) (auto simp: r)
  from Cons.IH[OF this] Cons.prems(2) show ?case by (simp add: r tb_Adds_def)
qed (simp add: tb_Adds_def)

section \<open>Lemmas: blocks of bytes\<close>

lemma length_concat_same: "\<forall>x \<in> set xs. length x = w \<Longrightarrow> length (concat xs) = length xs * w"
  by (induction xs) auto

lemma drop_concat_same: "\<forall>x \<in> set xs. length x = w \<Longrightarrow> drop (a * w) (concat xs) = concat (drop a xs)"
proof (induction xs arbitrary: a)
  case (Cons x xs)
  then show ?case by (cases a) auto
qed simp

lemma take_concat_same: "\<forall>x \<in> set xs. length x = w \<Longrightarrow> take (a * w) (concat xs) = concat (take a xs)"
proof (induction xs arbitrary: a)
  case (Cons x xs)
  then show ?case by (cases a) auto
qed simp

lemma nth_concat_same:
  assumes "\<forall>x \<in> set xs. length x = w" and "i < length xs"
  shows "take w (drop (i * w) (concat xs)) = xs ! i"
proof -
  have "take (1 * w) (concat (drop i xs)) = concat (take 1 (drop i xs))"
    using assms(1) by (intro take_concat_same) (blast dest: in_set_dropD)
  moreover have "take 1 (drop i xs) = [xs ! i]" using assms(2) by (simp add: take_Suc_conv_app_nth)
  ultimately show ?thesis using drop_concat_same[OF assms(1), of i] by simp
qed

section \<open>Lemmas: searching by samples\<close>

lemma strict_nth_le: "sorted_wrt (<) (xs :: 'a::linorder list) \<Longrightarrow> i \<le> j \<Longrightarrow> j < length xs \<Longrightarrow> xs ! i \<le> xs ! j"
  by (metis le_neq_implies_less less_imp_le order_refl sorted_wrt_nth_less)

text \<open>One key in \<open>s\<close> of a sorted list says which block of \<open>s\<close> a key can be in.\<close>

lemma stride_block:
  fixes xs :: "'a::linorder list" and h :: 'a
  assumes srt: "sorted_wrt (<) xs" and s: "0 < s" and ne: "xs \<noteq> []"
  defines "m \<equiv> (length xs + s - 1) div s"
  defines "i \<equiv> sort_Search m (\<lambda>i. xs ! (i * s) > h)"
  shows "i = 0 \<Longrightarrow> \<forall>x \<in> set xs. h < x"
    and "0 < i \<Longrightarrow> (i - 1) * s < length xs \<and> xs ! ((i - 1) * s) \<le> h \<and>
      (\<forall>p < length xs. xs ! p \<le> h \<longrightarrow> p < (i - 1) * s + min s (length xs - (i - 1) * s))"
proof -
  have inx: "a * s < length xs" if "a < m" for a
  proof -
    have "(a + 1) * s \<le> m * s" using that by (intro mult_right_mono) simp_all
    also have "m * s \<le> length xs + s - 1" by (simp add: m_def div_times_less_eq_dividend)
    finally show ?thesis using s ne by (simp add: algebra_simps)
  qed
  have mono: "xs ! (b * s) > h" if "a \<le> b" "b < m" "xs ! (a * s) > h" for a b
    using strict_nth_le[OF srt, of "a * s" "b * s"] that inx[of b] by (simp add: mult_le_mono1) 
  have least: "i \<le> m" "\<And>k. k < i \<Longrightarrow> \<not> xs ! (k * s) > h" "i < m \<Longrightarrow> xs ! (i * s) > h"
    unfolding i_def using sort_Search_least[of m "\<lambda>i. xs ! (i * s) > h"] mono by blast+
  have l0: "0 < length xs" using ne by simp
  then have "s \<le> length xs + s - 1" by linarith
  then have m0: "0 < m" using s unfolding m_def by (simp add: div_greater_zero_iff)
  show "\<forall>x \<in> set xs. h < x" if "i = 0"
  proof
    fix x assume "x \<in> set xs"
    then obtain p where p: "p < length xs" "x = xs ! p" by (auto simp: in_set_conv_nth)
    have "h < xs ! 0" using least(3) that m0 by simp
    also have "xs ! 0 \<le> xs ! p" using strict_nth_le[OF srt, of 0 p] p by simp
    finally show "h < x" using p by simp
  qed
  show "(i - 1) * s < length xs \<and> xs ! ((i - 1) * s) \<le> h \<and>
      (\<forall>p < length xs. xs ! p \<le> h \<longrightarrow> p < (i - 1) * s + min s (length xs - (i - 1) * s))" if i0: "0 < i"
  proof (intro conjI allI impI)
    show b: "(i - 1) * s < length xs" using inx[of "i - 1"] least(1) i0 by simp
    show "xs ! ((i - 1) * s) \<le> h" using least(2)[of "i - 1"] i0 by (simp add: not_less)
    fix p assume p: "p < length xs" "xs ! p \<le> h"
    have "p < i * s"
    proof (cases "i < m")
      case True
      then have "h < xs ! (i * s)" using least(3) by simp
      then show ?thesis using strict_nth_le[OF srt, of "i * s" p] p by (meson leD not_less order_trans)
    next
      case False
      then have "i = m" using least(1) by simp
      moreover have "length xs \<le> m * s"
      proof -
        have "length xs + s - 1 < m * s + s" using s dividend_less_times_div[of s "length xs + s - 1"] by (simp add: m_def mult.commute)
        then show ?thesis using s by linarith
      qed
      ultimately show ?thesis using p by simp
    qed
    then show "p < (i - 1) * s + min s (length xs - (i - 1) * s)" using p b i0 by (cases i) (auto simp: min_def)
  qed
qed

lemma search_from_cong: "(\<And>k. k < j \<Longrightarrow> f k = g k) \<Longrightarrow> search_from f i j = search_from g i j"
proof (induction f i j rule: search_from.induct)
  case (1 f i j)
  show ?case
  proof (cases "i < j")
    case True
    let ?h = "(i + j) div 2"
    have h: "?h < j" using True by simp
    have "search_from f (?h + 1) j = search_from g (?h + 1) j" if "\<not> f ?h" using "1.IH"(1)[OF True refl that] "1.prems" by simp
    moreover have "search_from f i ?h = search_from g i ?h" if "f ?h" using "1.IH"(2)[OF True refl] that "1.prems" h by simp
    ultimately show ?thesis using True "1.prems"[OF h] by (simp add: search_from.simps[of f i j] search_from.simps[of g i j] Let_def)
  qed (simp add: search_from.simps)
qed

lemma sort_Search_cong: "(\<And>k. k < n \<Longrightarrow> f k = g k) \<Longrightarrow> sort_Search n f = sort_Search n g"
  unfolding sort_Search_def by (rule search_from_cong)

lemma length_samples: "length (tb_samples rs) = (length rs + 255) div 256"
  by (simp add: tb_samples_def)

lemma sample_in:
  assumes "i < length (tb_samples rs)"
  shows "i * 256 < length rs" and "tb_samples rs ! i = map fst rs ! (i * 256)"
proof -
  have "(i + 1) * 256 \<le> (length rs + 255) div 256 * 256" using assms by (intro mult_right_mono) (simp_all add: length_samples)
  also have "\<dots> \<le> length rs + 255" by simp
  finally show "i * 256 < length rs" by simp
  then show "tb_samples rs ! i = map fst rs ! (i * 256)" using assms by (simp add: tb_samples_def)
qed

lemma samples_sorted:
  assumes "sorted_wrt (<) (map fst rs)"
  shows "sorted_wrt (<) (tb_samples rs)"
  unfolding sorted_wrt_iff_nth_less
proof (intro allI impI)
  fix i j assume "i < j" "j < length (tb_samples rs)"
  then show "tb_samples rs ! i < tb_samples rs ! j"
    using sample_in[of i rs] sample_in[of j rs] sorted_wrt_nth_less[OF assms, of "i * 256" "j * 256"] by simp
qed

text \<open>The two searches over samples leave one block a key can be in.\<close>

lemma block_located:
  fixes h :: hash
  assumes srt: "sorted_wrt (<) (map fst rs)" and ne: "rs \<noteq> []"
  defines "ks \<equiv> map fst rs" and "ss \<equiv> tb_samples rs"
  defines "i1 \<equiv> sort_Search ((length ss + 255) div 256) (\<lambda>i. ss ! (i * 256) > h)"
  defines "at \<equiv> (i1 - 1) * 256"
  defines "n \<equiv> min 256 (length ss - at)"
  defines "j \<equiv> sort_Search n (\<lambda>i. ss ! (at + i) > h)"
  defines "first \<equiv> (at + (j - 1)) * 256"
  shows "i1 = 0 \<Longrightarrow> h \<notin> set ks"
    and "0 < i1 \<Longrightarrow> at + n \<le> length ss \<and> 0 < j \<and> first < length ks \<and>
      (\<forall>p < length ks. ks ! p = h \<longrightarrow> first \<le> p \<and> p < first + min 256 (length ks - first))"
proof -
  have l0: "0 < length rs" using ne by simp
  then have "0 < length ss" by (simp add: ss_def length_samples div_greater_zero_iff Suc_le_eq del: length_greater_0_conv)
  then have ssne: "ss \<noteq> []" by auto
  have kne: "ks \<noteq> []" using ne by (simp add: ks_def)
  have ssrt: "sorted_wrt (<) ss" using samples_sorted[OF srt] by (simp add: ss_def)
  have m: "(length ss + 256 - 1) div 256 = (length ss + 255) div 256" by simp
  note b1 = stride_block[OF ssrt _ ssne, of 256 h, unfolded m, folded i1_def]
  show "h \<notin> set ks" if "i1 = 0"
  proof
    assume "h \<in> set ks"
    then obtain p where p: "p < length ks" "ks ! p = h" by (auto simp: in_set_conv_nth)
    have "h < ss ! 0" using b1(1) that \<open>0 < length ss\<close> by simp
    also have "ss ! 0 = ks ! 0" using sample_in(2)[of 0 rs] \<open>0 < length ss\<close> by (simp add: ss_def ks_def)
    also have "\<dots> \<le> ks ! p" using strict_nth_le[OF srt, of 0 p] p by (simp add: ks_def)
    finally show False using p by simp
  qed
  show "at + n \<le> length ss \<and> 0 < j \<and> first < length ks \<and>
      (\<forall>p < length ks. ks ! p = h \<longrightarrow> first \<le> p \<and> p < first + min 256 (length ks - first))" if i: "0 < i1"
  proof -
    have a: "at < length ss" "ss ! at \<le> h" "\<And>p. p < length ss \<Longrightarrow> ss ! p \<le> h \<Longrightarrow> p < at + n"
      using b1(2)[OF _ i] by (simp_all add: at_def n_def)
    have an: "at + n \<le> length ss" using a(1) by (simp add: n_def)
    have n0: "0 < n" using a(1) by (simp add: n_def)
    have mono: "ss ! (at + y) > h" if "x \<le> y" "y < n" "ss ! (at + x) > h" for x y
      using strict_nth_le[OF ssrt, of "at + x" "at + y"] that an by simp
    have lj: "j \<le> n" "\<And>k. k < j \<Longrightarrow> \<not> ss ! (at + k) > h" "j < n \<Longrightarrow> ss ! (at + j) > h"
      unfolding j_def using sort_Search_least[of n "\<lambda>i. ss ! (at + i) > h"] mono by blast+
    have j0: "0 < j" using lj(3) n0 a(2) by (cases "j = 0") auto
    have S: "sort_Search (length ss) (\<lambda>i. ss ! i > h) = at + j"
    proof (rule sort_Search_eq)
      show "ss ! y > h" if "x \<le> y" "y < length ss" "ss ! x > h" for x y
        using strict_nth_le[OF ssrt, of x y] that by simp
      show "at + j \<le> length ss" using lj(1) an by simp
      show "\<not> ss ! k > h" if k: "k < at + j" for k
      proof (cases "k < at")
        case True
        then show ?thesis using strict_nth_le[OF ssrt, of k at] a by simp
      next
        case False
        then show ?thesis using lj(2)[of "k - at"] k by simp
      qed
      show "ss ! (at + j) > h" if lt: "at + j < length ss"
      proof (cases "j < n")
        case True
        then show ?thesis by (rule lj(3))
      next
        case False
        then show ?thesis using a(3)[OF lt] lj(1) by (meson linorder_not_less nat_add_left_cancel_less)
      qed
    qed
    have "sort_Search (length ss) (\<lambda>i. ks ! (i * 256) > h) = sort_Search (length ss) (\<lambda>i. ss ! i > h)"
      by (intro sort_Search_cong) (simp add: ss_def ks_def sample_in)
    moreover have "(length ks + 256 - 1) div 256 = length ss" by (simp add: ks_def ss_def length_samples)
    ultimately have K: "sort_Search ((length ks + 256 - 1) div 256) (\<lambda>i. ks ! (i * 256) > h) = at + j" using S by simp
    have "0 < at + j" using j0 by simp
    note b2 = stride_block(2)[OF srt[folded ks_def] _ kne, of 256 h, unfolded K, OF _ this]
    have fi: "(at + j - 1) * 256 = first" using j0 by (simp add: first_def)
    have f: "first < length ks" "ks ! first \<le> h" "\<And>p. p < length ks \<Longrightarrow> ks ! p \<le> h \<Longrightarrow> p < first + min 256 (length ks - first)"
      using b2 unfolding fi by simp_all
    have "first \<le> p" if "p < length ks" "ks ! p = h" for p
      using sorted_wrt_nth_less[OF srt[folded ks_def], of p first] f(1,2) that by (meson leD not_le)
    then show ?thesis using an j0 f by simp
  qed
qed

section \<open>Lemmas: the table's file\<close>

lemma length_puts [simp]: "length (put_U16 a) = 2" "length (put_U32 b) = 4" "length (put_U64 c) = 8"
  by (simp_all add: put_U16_def put_U32_def put_U64_def)

lemma table_l1_read:
  "\<forall>j \<in> set js. base + j * 256 * 32 + 32 \<le> length f \<Longrightarrow> table_l1 f base js = Inr (map (\<lambda>j. copy_hash (take 32 (drop (base + j * 256 * 32) f))) js)"
  by (induction js) (auto simp: ReadAt_def)

definition table_of :: "nat \<Rightarrow> trec list \<Rightarrow> htable" where
  "table_of vl rs = \<lparr>t_f = table_file vl rs, t_valueLen = vl, t_rec = 32 + vl, t_count = length rs, t_samples = length (tb_samples rs),
     t_l1 = map (\<lambda>i. tb_samples rs ! (i * 256)) [0..<(length (tb_samples rs) + 255) div 256]\<rparr>"

definition recs_ok :: "nat \<Rightarrow> trec list \<Rightarrow> bool" where
  "recs_ok vl rs \<longleftrightarrow> sorted_wrt (<) (map fst rs) \<and> vl \<le> MaxValueLen \<and> (\<forall>(h, v) \<in> set rs. length v = vl) \<and> length rs < 2 ^ 48"

lemma file_parts:
  assumes "recs_ok vl rs"
  defines "R \<equiv> map (\<lambda>(h, v). hbytes h @ v) rs" and "S \<equiv> map hbytes (tb_samples rs)"
  shows "\<forall>x \<in> set R. length x = 32 + vl" and "\<forall>x \<in> set S. length x = 32" and "length (table_header vl (length rs)) = 32"
    and "table_file vl rs = table_header vl (length rs) @ concat R @ concat S" and "length (concat R) = length rs * (32 + vl)"
    and "length (concat S) = length (tb_samples rs) * 32"
proof -
  show R: "\<forall>x \<in> set R. length x = 32 + vl" and S: "\<forall>x \<in> set S. length x = 32"
    using assms(1) by (auto simp: R_def S_def recs_ok_def)
  show "length (table_header vl (length rs)) = 32" by (simp add: table_header_def)
  show "table_file vl rs = table_header vl (length rs) @ concat R @ concat S" by (simp add: table_file_def R_def S_def)
  show "length (concat R) = length rs * (32 + vl)" "length (concat S) = length (tb_samples rs) * 32"
    using length_concat_same[OF R] length_concat_same[OF S] by (simp_all add: R_def S_def)
qed

lemma read_samples:
  assumes ok: "recs_ok vl rs" and an: "at + n \<le> length (tb_samples rs)"
  shows "ReadAt (table_file vl rs) (n * 32) (32 + length rs * (32 + vl) + at * 32) = Inr (concat (map hbytes (take n (drop at (tb_samples rs)))))"
proof -
  note p = file_parts[OF ok]
  let ?S = "map hbytes (tb_samples rs)"
  have "drop (32 + length rs * (32 + vl) + at * 32) (table_file vl rs) = drop (at * 32) (concat ?S)"
    using p(3,5) by (simp add: p(4) add.assoc)
  also have "\<dots> = concat (drop at ?S)" by (rule drop_concat_same[OF p(2)])
  finally have d: "drop (32 + length rs * (32 + vl) + at * 32) (table_file vl rs) = concat (drop at ?S)" .
  have "take (n * 32) (concat (drop at ?S)) = concat (take n (drop at ?S))"
    using p(2) by (intro take_concat_same) (blast dest: in_set_dropD)
  moreover have "(at + n) * 32 \<le> length (tb_samples rs) * 32" using an by (intro mult_right_mono) simp_all
  then have "32 + length rs * (32 + vl) + at * 32 + n * 32 \<le> length (table_file vl rs)"
    using p(3,5,6) by (simp add: p(4) add_mult_distrib)
  ultimately show ?thesis by (simp add: ReadAt_def d drop_map take_map)
qed

lemma read_records:
  assumes ok: "recs_ok vl rs" and an: "a + n \<le> length rs"
  shows "ReadAt (table_file vl rs) (n * (32 + vl)) (32 + a * (32 + vl)) = Inr (concat (map (\<lambda>(h, v). hbytes h @ v) (take n (drop a rs))))"
proof -
  note p = file_parts[OF ok]
  let ?R = "map (\<lambda>(h, v). hbytes h @ v) rs" and ?w = "32 + vl"
  have le: "(a + n) * ?w \<le> length rs * ?w" using an by (rule mult_le_mono1)
  then have al: "a * ?w + n * ?w \<le> length (concat ?R)" by (simp add: p(5) add_mult_distrib)
  have "take (n * ?w) (drop (32 + a * ?w) (table_file vl rs)) = take (n * ?w) (drop (a * ?w) (concat ?R @ concat (map hbytes (tb_samples rs))))"
    using p(3) by (simp add: p(4))
  also have "\<dots> = take (n * ?w) (drop (a * ?w) (concat ?R))" using al by simp
  also have "\<dots> = concat (take n (drop a ?R))"
    unfolding drop_concat_same[OF p(1)] using p(1) by (intro take_concat_same) (blast dest: in_set_dropD)
  finally show ?thesis using al p(3) by (simp add: ReadAt_def p(4) drop_map take_map)
qed

lemma header_fields:
  assumes "vl \<le> MaxValueLen" and "c < 2 ^ 48"
  defines "hdr \<equiv> table_header vl c"
  shows "take 4 hdr = ascii ''SCTB''" and "(le_word (take 2 (drop 4 hdr)) :: u16) = 1" and "unat (le_word (take 2 (drop 6 hdr)) :: u16) = vl"
    and "unat (le_word (take 8 (drop 8 hdr)) :: u64) = c" and "(le_word (take 4 (drop 16 hdr)) :: u32) = 256" and "drop 20 hdr = replicate 12 0"
proof -
  have m: "length (ascii ''SCTB'') = 4" by simp
  show "take 4 hdr = ascii ''SCTB''" by (simp add: hdr_def table_header_def)
  have "take 2 (drop 4 hdr) = put_U16 1" by (simp add: hdr_def table_header_def)
  then show "(le_word (take 2 (drop 4 hdr)) :: u16) = 1" by (simp add: put_U16_def le_word_le_bytes_exact)
  have "take 2 (drop 6 hdr) = put_U16 (of_nat vl)" by (simp add: hdr_def table_header_def)
  then show "unat (le_word (take 2 (drop 6 hdr)) :: u16) = vl" using assms(1) by (simp add: put_U16_def le_word_le_bytes_exact unat_of_nat)
  have "take 8 (drop 8 hdr) = put_U64 (of_nat c)" by (simp add: hdr_def table_header_def)
  then show "unat (le_word (take 8 (drop 8 hdr)) :: u64) = c" using assms(2) by (simp add: put_U64_def le_word_le_bytes_exact unat_of_nat)
  have "take 4 (drop 16 hdr) = put_U32 256" by (simp add: hdr_def table_header_def)
  then show "(le_word (take 4 (drop 16 hdr)) :: u32) = 256" by (simp add: put_U32_def le_word_le_bytes_exact)
  show "drop 20 hdr = replicate 12 0" by (simp add: hdr_def table_header_def)
qed

lemma stride_in: "i < (n + 255) div 256 \<Longrightarrow> i * 256 < (n :: nat)"
proof -
  assume "i < (n + 255) div 256"
  then have "(i + 1) * 256 \<le> (n + 255) div 256 * 256" by (intro mult_right_mono) simp_all
  also have "\<dots> \<le> n + 255" by simp
  finally show ?thesis by simp
qed

lemma openTable_file:
  assumes ok: "recs_ok vl rs"
  shows "openTable (table_file vl rs) = Inr (table_of vl rs)"
proof -
  note p = file_parts[OF ok]
  let ?f = "table_file vl rs" and ?S = "length (tb_samples rs)"
  have vl: "vl \<le> MaxValueLen" "length rs < 2 ^ 48" using ok by (simp_all add: recs_ok_def)
  have len: "length ?f = 32 + length rs * (32 + vl) + ?S * 32" using p(3,5,6) by (simp add: p(4))
  have hdr: "ReadAt ?f tableHeader 0 = Inr (table_header vl (length rs))" using p(3) by (simp add: ReadAt_def p(4))
  have rd: "take 32 (drop (32 + length rs * (32 + vl) + j * 256 * 32) ?f) = hbytes (tb_samples rs ! (j * 256))" if "j * 256 < ?S" for j
    using read_samples[OF ok, of "j * 256" 1] that by (simp add: ReadAt_def take_Suc_conv_app_nth split: if_splits)
  have inr: "32 + length rs * (32 + vl) + j * 256 * 32 + 32 \<le> length ?f" if "j * 256 < ?S" for j using that by (simp add: len)
  have "table_l1 ?f (32 + length rs * (32 + vl)) [0..<(?S + 255) div 256] =
      Inr (map (\<lambda>j. copy_hash (take 32 (drop (32 + length rs * (32 + vl) + j * 256 * 32) ?f))) [0..<(?S + 255) div 256])"
    using inr stride_in by (intro table_l1_read) auto
  also have "\<dots> = Inr (map (\<lambda>i. tb_samples rs ! (i * 256)) [0..<(?S + 255) div 256])"
    using rd stride_in by simp
  finally have l1: "table_l1 ?f (32 + length rs * (32 + vl)) [0..<(?S + 255) div 256] = Inr (map (\<lambda>i. tb_samples rs ! (i * 256)) [0..<(?S + 255) div 256])" .
  have "length rs \<le> (length ?f - 32) div (32 + vl)" by (simp add: len less_eq_div_iff_mult_less_eq)
  then show ?thesis
    using l1 vl len by (simp add: openTable_def hdr header_fields[OF vl] result_simps Let_def table_of_def length_samples)
qed

text \<open>A search of the records of one block, or none.\<close>

lemma block_search:
  fixes h :: hash
  assumes srt: "sorted_wrt (<) (map fst rs)" and an: "first + n \<le> length rs"
    and loc: "\<And>p. p < length rs \<Longrightarrow> fst (rs ! p) = h \<Longrightarrow> first \<le> p \<and> p < first + n"
  defines "k \<equiv> sort_Search n (\<lambda>i. h \<le> fst (rs ! (first + i)))"
  shows "map_of rs h = (if k = n \<or> fst (rs ! (first + k)) \<noteq> h then None else Some (snd (rs ! (first + k))))" and "k \<le> n"
proof -
  have mono: "h \<le> fst (rs ! (first + y))" if "x \<le> y" "y < n" "h \<le> fst (rs ! (first + x))" for x y
    using strict_nth_le[OF srt, of "first + x" "first + y"] that an by simp
  have l: "k \<le> n" "\<And>i. i < k \<Longrightarrow> \<not> h \<le> fst (rs ! (first + i))" "k < n \<Longrightarrow> h \<le> fst (rs ! (first + k))"
    unfolding k_def using sort_Search_least[of n "\<lambda>i. h \<le> fst (rs ! (first + i))"] mono by blast+
  show "k \<le> n" by (rule l(1))
  have dk: "distinct (map fst rs)" using srt by (simp add: strict_sorted_iff)
  show "map_of rs h = (if k = n \<or> fst (rs ! (first + k)) \<noteq> h then None else Some (snd (rs ! (first + k))))"
  proof (cases "k = n \<or> fst (rs ! (first + k)) \<noteq> h")
    case True
    have "h \<notin> fst ` set rs"
    proof
      assume "h \<in> fst ` set rs"
      then obtain p where p: "p < length rs" "fst (rs ! p) = h" by (auto simp: in_set_conv_nth)
      define i where "i = p - first"
      have i: "p = first + i" "i < n" using loc[OF p] unfolding i_def by linarith+
      have "k \<le> i" using l(2)[of i] p i by (cases "i < k") auto
      then have kn: "k < n" using i by simp
      then have "h < fst (rs ! (first + k))" using l(3) True by (metis order.not_eq_order_implies_strict nat_neq_iff)
      then show False using strict_nth_le[OF srt, of "first + k" p] p i \<open>k \<le> i\<close> an by simp
    qed
    then show ?thesis using True by (simp add: map_of_eq_None_iff)
  next
    case False
    then have "first + k < length rs" using l(1) an by simp
    then have "rs ! (first + k) \<in> set rs" by simp
    then have "(h, snd (rs ! (first + k))) \<in> set rs" using False by (metis prod.collapse)
    then show ?thesis using False dk by simp
  qed
qed

lemma rec_at:
  assumes ok: "recs_ok vl rs" and an: "first + n \<le> length rs" and k: "k < n"
  defines "recs \<equiv> concat (map (\<lambda>(h, v). hbytes h @ v) (take n (drop first rs)))"
  shows "take 32 (drop (k * (32 + vl)) recs) = hbytes (fst (rs ! (first + k)))"
    and "drop (k * (32 + vl) + 32) (take ((k + 1) * (32 + vl)) recs) = snd (rs ! (first + k))"
proof -
  let ?bs = "map (\<lambda>(h, v). hbytes h @ v) (take n (drop first rs))"
  obtain h v where hv: "rs ! (first + k) = (h, v)" by fastforce
  have all: "\<forall>x \<in> set ?bs. length x = 32 + vl"
    using ok by (auto simp: recs_ok_def dest!: in_set_takeD in_set_dropD)
  have b: "take (32 + vl) (drop (k * (32 + vl)) recs) = hbytes h @ v"
    using nth_concat_same[OF all, of k] an k by (simp add: recs_def hv)
  have "take 32 (take (32 + vl) (drop (k * (32 + vl)) recs)) = hbytes h" by (simp add: b)
  then show "take 32 (drop (k * (32 + vl)) recs) = hbytes (fst (rs ! (first + k)))" by (simp add: hv)
  have "drop (k * (32 + vl) + 32) (take ((k + 1) * (32 + vl)) recs) = drop 32 (take (32 + vl) (drop (k * (32 + vl)) recs))"
    by (simp add: drop_take add.commute)
  then show "drop (k * (32 + vl) + 32) (take ((k + 1) * (32 + vl)) recs) = snd (rs ! (first + k))" by (simp add: b hv)
qed

lemma t_Lookup_file:
  assumes ok: "recs_ok vl rs"
  shows "t_Lookup (table_of vl rs) h = Inr (map_of rs h)"
proof (cases "rs = []")
  case True
  then show ?thesis by (simp add: t_Lookup_def table_of_def)
next
  case False
  let ?ss = "tb_samples rs" and ?t = "table_of vl rs"
  have srt: "sorted_wrt (<) (map fst rs)" using ok by (simp add: recs_ok_def)
  define i1 where "i1 = sort_Search ((length ?ss + 255) div 256) (\<lambda>i. ?ss ! (i * 256) > h)"
  define at where "at = (i1 - 1) * 256"
  define n where "n = min 256 (length ?ss - at)"
  define j where "j = sort_Search n (\<lambda>i. ?ss ! (at + i) > h)"
  define first where "first = (at + (j - 1)) * 256"
  define m where "m = min 256 (length rs - first)"
  define k where "k = sort_Search m (\<lambda>i. h \<le> fst (rs ! (first + i)))"
  note b = block_located[OF srt False, of h, folded i1_def, folded at_def, folded n_def, folded j_def, folded first_def]
  have i1: "sort_Search (length (t_l1 ?t)) (\<lambda>i. t_l1 ?t ! i > h) = i1"
    unfolding i1_def by (simp add: table_of_def) (rule sort_Search_cong, simp)
  show ?thesis
  proof (cases "i1 = 0")
    case True
    then have "map_of rs h = None" using b(1) by (simp add: map_of_eq_None_iff)
    then show ?thesis using True i1 by (simp add: t_Lookup_def Let_def)
  next
    case i: False
    then have b1: "at + n \<le> length ?ss" "0 < j" "first < length rs"
      "\<And>p. p < length rs \<Longrightarrow> fst (rs ! p) = h \<Longrightarrow> first \<le> p \<and> p < first + m"
      using b(2) by (simp_all add: m_def)
    have "first + m \<le> length rs" using b1(3) unfolding m_def by linarith
    note b2 = b1(1-3) this b1(4)
    note s = block_search[OF srt b2(4), of h, OF b2(5), folded k_def]
    define recs where "recs = concat (map (\<lambda>(h, v). hbytes h @ v) (take m (drop first rs)))"
    note r = rec_at[OF ok b2(4), folded recs_def]
    define keys where "keys = concat (map hbytes (take n (drop at ?ss)))"
    have keyat: "take 32 (drop (i * 32) keys) = hbytes (?ss ! (at + i))" if "i < n" for i
      using nth_concat_same[of "map hbytes (take n (drop at ?ss))" 32 i] that b2(1) by (simp add: keys_def)
    have j: "sort_Search n (\<lambda>i. take 32 (drop (i * 32) keys) > hbytes h) = j"
      unfolding j_def by (intro sort_Search_cong) (simp add: keyat less_hash_def)
    have k: "sort_Search m (\<lambda>i. take 32 (drop (i * (32 + vl)) recs) \<ge> hbytes h) = k"
      unfolding k_def by (intro sort_Search_cong) (simp add: r less_eq_hash_def)
    have rk: "ReadAt (t_f ?t) (n * 32) (t_sampleOff ?t at) = Inr keys"
      using read_samples[OF ok b2(1)] by (simp add: keys_def table_of_def t_sampleOff_def)
    have rr: "ReadAt (t_f ?t) (m * t_rec ?t) (t_recordOff ?t first) = Inr recs"
      using read_records[OF ok b2(4)] by (simp add: recs_def table_of_def t_recordOff_def)
    have f: "t_count ?t \<noteq> 0" "t_samples ?t = length ?ss" "t_count ?t = length rs" "t_rec ?t = 32 + vl"
      using False by (simp_all add: table_of_def)
    have "t_Lookup ?t h = (if k = m \<or> take 32 (drop (k * (32 + vl)) recs) \<noteq> hbytes h then Inr None
        else Inr (Some (drop (k * (32 + vl) + 32) (take ((k + 1) * (32 + vl)) recs))))"
      unfolding t_Lookup_def Let_def i1 f(2-4) at_def[symmetric] n_def[symmetric] rk rbind_simps j first_def[symmetric] m_def[symmetric] 
      using rr i b2(2) False by (simp add: f(4) k result_simps)
    also have "\<dots> = Inr (map_of rs h)"
      using s r[of k] by (cases "k = m") (simp_all add: hash_eq_iff)
    finally show ?thesis .
  qed
qed

section \<open>Lemmas: the cursor\<close>

text \<open>The records a cursor gives, until it has no more.\<close>

function cu_all :: "tcursor \<Rightarrow> trec list result" where
  "cu_all c =
     (case cu_Next c of
        (Inl e, _) \<Rightarrow> Inl e
      | (Inr None, _) \<Rightarrow> Inr []
      | (Inr (Some r), c') \<Rightarrow> rbind (cu_all c') (\<lambda>rs. Inr (r # rs)))"
  by pat_completeness auto
termination cu_all
  by (relation "measure cu_left") (auto simp: cu_Next_def Let_def split: if_splits)

declare cu_all.simps [simp del]

lemma cu_all_records:
  "\<forall>(h, v) \<in> set rs. length v = vl \<Longrightarrow>
     cu_all \<lparr>cu_r = concat (map (\<lambda>(h, v). hbytes h @ v) rs), cu_left = length rs, cu_rec = 32 + vl\<rparr> = Inr rs"
proof (induction rs)
  case (Cons r rs)
  obtain h v where r: "r = (h, v)" by fastforce
  have v: "length v = vl" using Cons.prems by (simp add: r)
  have "copy_hash (hbytes h @ v) = h" by (simp add: hash_eq_iff copy_into_def)
  then show ?case using Cons v by (simp add: cu_all.simps[of "\<lparr>cu_r = _, cu_left = _, cu_rec = _\<rparr>"] cu_Next_def Let_def r)
qed (simp add: cu_all.simps cu_Next_def)

lemma t_Cursor_file:
  assumes ok: "recs_ok vl rs"
  shows "cu_all (t_Cursor (table_of vl rs)) = Inr rs"
proof -
  note p = file_parts[OF ok]
  have "t_Cursor (table_of vl rs) = \<lparr>cu_r = concat (map (\<lambda>(h, v). hbytes h @ v) rs), cu_left = length rs, cu_rec = 32 + vl\<rparr>"
    using p(3,5) by (simp add: t_Cursor_def table_of_def p(4))
  then show ?thesis using cu_all_records ok by (simp add: recs_ok_def)
qed

lemma strict_set_length:
  fixes qs rs :: "trec list"
  assumes "sorted_wrt (<) (map fst qs)" and "set qs \<subseteq> set rs"
  shows "length qs \<le> length rs"
proof -
  have "distinct (map fst qs)" using assms(1) by (simp add: strict_sorted_iff)
  then have "length qs = card (set qs)" by (simp add: distinct_card distinct_map)
  also have "\<dots> \<le> card (set rs)" using assms(2) by (intro card_mono) simp_all
  also have "\<dots> \<le> length rs" by (rule card_length)
  finally show ?thesis .
qed

lemma tb_Finish_holds:
  assumes b: "tb_holds vl rs b" and vl: "vl \<le> MaxValueLen" and v: "\<forall>(h, v) \<in> set rs. length v = vl" and n: "length rs < 2 ^ 48"
  shows "\<exists>qs. tb_Finish b = Inr (table_of vl qs) \<and> recs_ok vl qs \<and> map_of qs = map_of rs"
proof -
  define qs where "qs = tb_merge None (merge_runs (tb_runs (tb_spill b)))"
  have h: "tb_holds vl rs (tb_spill b)" "tb_buf (tb_spill b) = []" using tb_spill_holds[OF b] by simp_all
  then have srt: "\<forall>r \<in> set (tb_runs (tb_spill b)). sorted (map fst r)" by (simp add: tb_holds_def)
  note m = merge_runs_spec[OF srt]
  have m': "\<forall>r \<in> set (merge_runs (tb_runs (tb_spill b))). sorted (map fst r)" using m by blast
  note q = tb_merge_None[OF m', folded qs_def]
  have "set qs \<subseteq> set (concat (tb_runs (tb_spill b)))" using q(2) m by (meson order_trans)
  moreover have "set (concat (tb_runs (tb_spill b))) = set rs" using h by (simp add: tb_holds_def)
  ultimately have sub: "set qs \<subseteq> set rs" by simp
  have "map_of qs = map_of rs" using q(3) m h by (simp add: tb_holds_def)
  moreover have ok: "recs_ok vl qs"
    using q(1) vl v sub strict_set_length[OF q(1) sub] n by (auto simp: recs_ok_def)
  moreover have "tb_Finish b = Inr (table_of vl qs)"
    using openTable_file[OF ok] h(1) by (simp add: tb_Finish_def Let_def qs_def[symmetric] tb_holds_def)
  ultimately show ?thesis by blast
qed

lemma NewBuilder_holds:
  assumes "NewBuilder valueLen = Inr b"
  shows "tb_holds (nat valueLen) [] (b\<lparr>tb_runSize := k\<rparr>)" and "nat valueLen \<le> MaxValueLen"
  using assms by (auto simp: NewBuilder_def tb_holds_def split: if_splits)

text \<open>C10. A finished table answers for every key what a map of the added records does, the first record of a key
  standing, whatever the run size and so the number of spilled runs and of merge passes; and a cursor over it gives
  its records once each, in key order.\<close>

theorem table_lookup_exact:
  assumes "NewBuilder valueLen = Inr b" and "\<forall>(h, v) \<in> set rs. length v = nat valueLen" and "length rs < 2 ^ 48"
  shows "\<exists>t qs. tb_Finish (tb_Adds rs (b\<lparr>tb_runSize := k\<rparr>)) = Inr t \<and> (\<forall>h. t_Lookup t h = Inr (map_of rs h)) \<and>
    (\<forall>h. t_Has t h = Inr (h \<in> fst ` set rs)) \<and>
    cu_all (t_Cursor t) = Inr qs \<and> sorted_wrt (<) (map fst qs) \<and> map_of qs = map_of rs"
proof -
  note nb = NewBuilder_holds[OF assms(1)]
  have "tb_holds (nat valueLen) rs (tb_Adds rs (b\<lparr>tb_runSize := k\<rparr>))" using tb_Adds_holds[OF nb(1) assms(2)] by simp
  from tb_Finish_holds[OF this nb(2) assms(2,3)] obtain qs where
    q: "tb_Finish (tb_Adds rs (b\<lparr>tb_runSize := k\<rparr>)) = Inr (table_of (nat valueLen) qs)" "recs_ok (nat valueLen) qs" "map_of qs = map_of rs"
    by blast
  have "(map_of rs h \<noteq> None) = (h \<in> fst ` set rs)" for h by (simp only: map_of_eq_None_iff not_not)
  then show ?thesis using q t_Lookup_file[OF q(2)] t_Cursor_file[OF q(2)] by (simp add: t_Has_def recs_ok_def)
qed

theorem table_lookup_exact_witness:
  "\<exists>t qs. tb_Finish (tb_Adds [(copy_hash [2], [5]), (copy_hash [1], [6]), (copy_hash [2], [7])]
      (\<lparr>tb_valueLen = 1, tb_runSize = 2 ^ 19, tb_buf = [], tb_runs = []\<rparr>\<lparr>tb_runSize := 1\<rparr>)) = Inr t \<and>
    (\<forall>h. t_Lookup t h = Inr (map_of [(copy_hash [2], [5]), (copy_hash [1], [6]), (copy_hash [2], [7])] h)) \<and>
    (\<forall>h. t_Has t h = Inr (h \<in> fst ` set [(copy_hash [2], [5 :: 8 word]), (copy_hash [1], [6]), (copy_hash [2], [7])])) \<and>
    cu_all (t_Cursor t) = Inr qs \<and> sorted_wrt (<) (map fst qs) \<and>
    map_of qs = map_of [(copy_hash [2], [5]), (copy_hash [1], [6]), (copy_hash [2], [7])]"
  by (rule table_lookup_exact[where valueLen = 1]) (simp_all add: NewBuilder_def)

end
