(* ===== verification/Manifest.thy ===== *)
theory Manifest
  imports Dedup
begin

text \<open>
  \<^verbatim>\<open>core/chunk/packstore/manifest.go\<close>: the manifest, the value a pack store keeps as its backend's root: the root
  chunk, the index objects, the collection generation and what collection has condemned. Its plaintext is canonical
  and it is sealed under the Refs domain. A time is an int64 of nanoseconds, kept as a 64-bit word that \<^const>\<open>sint\<close> reads.
\<close>

record condemned =
  co_kind :: byte
  co_sum :: hash
  co_at :: u64

record manifest =
  mf_seq :: u64
  mf_gcGen :: u64
  mf_root :: hash
  mf_indexes :: "hash list"
  mf_condemned :: "condemned list"

abbreviation condemnedPack :: byte where "condemnedPack \<equiv> 1"
abbreviation condemnedIndex :: byte where "condemnedIndex \<equiv> 2"
abbreviation deletedPack :: byte where "deletedPack \<equiv> 3"
abbreviation deletedIndex :: byte where "deletedIndex \<equiv> 4"
abbreviation repackedPack :: byte where "repackedPack \<equiv> 5"
abbreviation mf_headerLen :: nat where "mf_headerLen \<equiv> 38"
abbreviation maxIndexes :: nat where "maxIndexes \<equiv> 100000"
abbreviation maxCondemned :: nat where "maxCondemned \<equiv> 100000"

text \<open>\<^verbatim>\<open>strings.TrimPrefix(name, "index/")\<close> in hexadecimal, or an error.\<close>

definition indexSum :: "bytes \<Rightarrow> hash result" where
  "indexSum name =
     (case hex_decode (if take 6 name = ascii ''index/'' then drop 6 name else name) of
        None \<Rightarrow> Inl (ErrOther ''packstore: index object name'')
      | Some b \<Rightarrow> if length b \<noteq> 32 \<or> indexName (copy_hash b) \<noteq> name then Inl (ErrOther ''packstore: index object name'') else Inr (copy_hash b))"

definition put_condemned :: "condemned \<Rightarrow> bytes" where
  "put_condemned c = put_U8 (co_kind c) @ hbytes (co_sum c) @ put_U64 (co_at c)"

definition mf_encodePlain :: "manifest \<Rightarrow> bytes" where
  "mf_encodePlain m =
     (let idx = sort (mf_indexes m) in
      ascii ''SCMP'' @ put_U16 1 @ put_U64 (mf_seq m) @ put_U64 (mf_gcGen m) @ hbytes (mf_root m) @
      put_Uvarint (of_nat (length idx)) @ concat (map hbytes idx) @
      put_Uvarint (of_nat (length (mf_condemned m))) @ concat (map put_condemned (mf_condemned m)))"

definition rd_index :: "hash option \<Rightarrow> reader \<Rightarrow> err + (hash \<times> hash option \<times> reader)" where
  "rd_index prev r =
     (let (s, r) = rd_hash r in
      if rd_err r \<noteq> None \<or> (case prev of None \<Rightarrow> False | Some p \<Rightarrow> p \<ge> s) then Inl ErrManifest else Inr (s, Some s, r))"

definition rd_condemned :: "unit \<Rightarrow> reader \<Rightarrow> err + (condemned \<times> unit \<times> reader)" where
  "rd_condemned u r =
     (let (kind, r) = rd_U8 r; (s, r) = rd_hash r; (at, r) = rd_U64 r in
      if rd_err r \<noteq> None \<or> kind < condemnedPack \<or> kind > repackedPack then Inl ErrManifest
      else Inr (\<lparr>co_kind = kind, co_sum = s, co_at = at\<rparr>, (), r))"

definition mf_decodePlain :: "bytes \<Rightarrow> manifest result" where
  "mf_decodePlain b =
     (let r = NewReader b; (magic, r) = rd_Fixed 4 r; (v, r) = rd_U16 r; (sq, r) = rd_U64 r; (gen, r) = rd_U64 r;
          (root, r) = rd_hash r; (n, r) = rd_Uvarint r in
      if rd_err r \<noteq> None \<or> magic \<noteq> ascii ''SCMP'' \<or> v \<noteq> 1 \<or> n > of_nat maxIndexes then Inl ErrManifest
      else rbind (rd_loop rd_index (unat n) None r) (\<lambda>(idx, _, r).
        let (c, r) = rd_Uvarint r in
        if rd_err r \<noteq> None \<or> c > of_nat maxCondemned then Inl ErrManifest
        else rbind (rd_loop rd_condemned (unat c) () r) (\<lambda>(cs, _, r).
          if rd_Done r \<noteq> None then Inl ErrManifest
          else Inr \<lparr>mf_seq = sq, mf_gcGen = gen, mf_root = root, mf_indexes = idx, mf_condemned = cs\<rparr>)))"

text \<open>\<^verbatim>\<open>seal\<close>, with the salt and the nonces it draws.\<close>

definition mf_seal :: "crypto \<Rightarrow> keyring \<Rightarrow> bytes \<Rightarrow> hash option \<Rightarrow> (nat \<Rightarrow> bytes option) \<Rightarrow> manifest \<Rightarrow> bytes result" where
  "mf_seal C kr repo rnd nonces m =
     (case rnd of
        None \<Rightarrow> Inl (ErrOther ''crypto/rand'')
      | Some salt \<Rightarrow>
          rbind (kr_Key C kr dom_Refs repo salt nonces) (\<lambda>key.
            let header = ascii ''SCMF'' @ put_U16 1 @ hbytes salt in
            rbind (fst (k_Seal C header (mf_encodePlain m) key)) (\<lambda>sealed. Inr (header @ sealed))))"

definition openManifest :: "crypto \<Rightarrow> keyring \<Rightarrow> bytes \<Rightarrow> bytes \<Rightarrow> manifest result" where
  "openManifest C kr repo b =
     (if length b < mf_headerLen then Inl ErrManifest
      else let h = NewReader (take mf_headerLen b); (magic, h) = rd_Fixed 4 h; (v, h) = rd_U16 h; (salt, h) = rd_hash h in
        if rd_Done h \<noteq> None \<or> magic \<noteq> ascii ''SCMF'' \<or> v \<noteq> 1 then Inl ErrManifest
        else rbind (kr_Key C kr dom_Refs repo salt (\<lambda>_. None)) (\<lambda>key.
          case k_Open C key (take mf_headerLen b) (drop mf_headerLen b) of
            Inl _ \<Rightarrow> Inl ErrManifest
          | Inr plain \<Rightarrow> mf_decodePlain plain))"

section \<open>Lemmas: the plaintext\<close>

definition kind_ok :: "condemned \<Rightarrow> bool" where
  "kind_ok c \<longleftrightarrow> co_kind c \<in> {1, 2, 3, 4, 5}"

definition manifest_ok :: "manifest \<Rightarrow> bool" where
  "manifest_ok m \<longleftrightarrow> length (mf_indexes m) \<le> maxIndexes \<and> sorted_wrt (<) (mf_indexes m) \<and>
     length (mf_condemned m) \<le> maxCondemned \<and> list_all kind_ok (mf_condemned m)"

lemma kind_ok_iff: "kind_ok c \<longleftrightarrow> \<not> co_kind c < condemnedPack \<and> \<not> co_kind c > repackedPack"
proof -
  have "\<not> k < 1 \<and> \<not> k > 5 \<longleftrightarrow> k \<in> {1, 2, 3, 4, 5}" for k :: byte
  proof -
    have "unat k \<in> {1, 2, 3, 4, 5} \<longleftrightarrow> 1 \<le> unat k \<and> unat k \<le> 5" by auto
    then show ?thesis by (simp add: word_less_nat_alt word_unat_eq_iff not_less Suc_le_eq)
  qed
  then show ?thesis by (simp add: kind_ok_def)
qed

definition index_after :: "hash option \<Rightarrow> hash \<Rightarrow> bool" where
  "index_after prev s \<longleftrightarrow> (\<forall>p. prev = Some p \<longrightarrow> p < s)"

lemma rd_index_at: "index_after prev s \<Longrightarrow> rd_index prev (rd_at pre (hbytes s @ rest)) = Inr (s, Some s, rd_at (pre @ hbytes s) rest)"
  by (auto simp: rd_index_def index_after_def wire_simps Let_def split: option.splits)

lemma rd_index_took: "rd_index prev r = Inr (s, st, r') \<Longrightarrow> rd_took r (hbytes s) r' \<and> index_after prev s \<and> st = Some s"
  by (auto simp: rd_index_def index_after_def Let_def not_le dest: rd_hash_took split: prod.splits if_splits option.splits)

lemma chain_index: "chain_ok index_after (\<lambda>_ s. Some s) prev ss \<longleftrightarrow> sorted_wrt (<) ss \<and> (\<forall>p s. prev = Some p \<longrightarrow> s \<in> set ss \<longrightarrow> p < s)"
  by (induction ss arbitrary: prev) (auto simp: index_after_def intro: less_trans)

lemma rd_condemned_at: "kind_ok c \<Longrightarrow> rd_condemned u (rd_at pre (put_condemned c @ rest)) = Inr (c, (), rd_at (pre @ put_condemned c) rest)"
  by (cases c) (simp add: kind_ok_iff rd_condemned_def put_condemned_def wire_simps Let_def)

lemma rd_condemned_took:
  assumes rd: "rd_condemned u r = Inr (c, st, r')"
  shows "rd_took r (put_condemned c) r' \<and> kind_ok c \<and> st = ()"
proof -
  obtain k r1 s r2 at where h: "rd_U8 r = (k, r1)" "rd_hash r1 = (s, r2)" "rd_U64 r2 = (at, r')" "rd_err r' = None"
    and g: "\<not> k < 1" "\<not> k > 5" and c: "c = \<lparr>co_kind = k, co_sum = s, co_at = at\<rparr>"
    using rd by (auto simp: rd_condemned_def Let_def split: prod.splits if_splits)
  note t3 = rd_U64_took[OF h(3,4)]
  note t2 = rd_hash_took[OF h(2) conjunct1[OF rd_tookD[OF t3]]]
  note t1 = rd_U8_took[OF h(1) conjunct1[OF rd_tookD[OF t2]]]
  show ?thesis using rd_took_trans[OF t1 rd_took_trans[OF t2 t3]] g by (simp add: c kind_ok_iff put_condemned_def)
qed

lemma chain_condemned: "chain_ok (\<lambda>_ c. kind_ok c) (\<lambda>_ _. ()) u cs \<longleftrightarrow> list_all kind_ok cs"
  by (induction cs arbitrary: u) auto

lemma mf_encode_sorted: "manifest_ok m \<Longrightarrow> sort (mf_indexes m) = mf_indexes m"
  by (intro sorted_sort_id strict_sorted_imp_sorted) (simp add: manifest_ok_def)

lemma mf_decode_encode:
  assumes ok: "manifest_ok m"
  shows "mf_decodePlain (mf_encodePlain m) = Inr m"
proof -
  let ?i = "mf_indexes m" and ?c = "mf_condemned m"
  have n: "unat (of_nat (length ?i) :: u64) = length ?i" "unat (of_nat (length ?c) :: u64) = length ?c"
    using ok by (auto intro!: unat_of_nat_small simp: manifest_ok_def)
  then have g: "\<not> (of_nat (length ?i) :: u64) > of_nat maxIndexes" "\<not> (of_nat (length ?c) :: u64) > of_nat maxCondemned"
    using ok by (simp_all add: manifest_ok_def word_less_nat_alt)
  have "chain_ok index_after (\<lambda>_ s. Some s) None ?i" using ok by (simp add: chain_index manifest_ok_def)
  note li = rd_loop_at[where step = rd_index and enc = hbytes, OF rd_index_at this]
  have "chain_ok (\<lambda>_ c. kind_ok c) (\<lambda>_ _. ()) () ?c" using ok by (simp add: chain_condemned manifest_ok_def)
  note lc = rd_loop_at[where step = rd_condemned and enc = put_condemned, OF rd_condemned_at this, of _ "[]", unfolded append_Nil2]
  show ?thesis using g n mf_encode_sorted[OF ok]
    by (simp add: mf_encodePlain_def mf_decodePlain_def NewReader_at wire_simps at_done Let_def li lc)
qed

lemma mf_decode_inv:
  assumes d: "mf_decodePlain b = Inr m"
  shows "mf_encodePlain m = b \<and> manifest_ok m"
proof -
  obtain magic r1 v r2 sq r3 gen r4 root r5 n r6 where
    h: "rd_Fixed 4 (NewReader b) = (magic, r1)" "rd_U16 r1 = (v, r2)" "rd_U64 r2 = (sq, r3)" "rd_U64 r3 = (gen, r4)"
      "rd_hash r4 = (root, r5)" "rd_Uvarint r5 = (n, r6)"
    by (meson surj_pair)
  obtain idx st r7 where ok: "rd_err r6 = None" "magic = ascii ''SCMP''" "v = 1" "\<not> n > of_nat maxIndexes"
    and idx: "rd_loop rd_index (unat n) None r6 = Inr (idx, st, r7)"
    using d by (auto simp: mf_decodePlain_def h result_simps Let_def split: if_splits)
  obtain c r8 where c: "rd_Uvarint r7 = (c, r8)" by fastforce
  obtain cs st' r9 where ok2: "rd_err r8 = None" "\<not> c > of_nat maxCondemned"
    and cs: "rd_loop rd_condemned (unat c) () r8 = Inr (cs, st', r9)" and dn: "rd_Done r9 = None"
    and m: "m = \<lparr>mf_seq = sq, mf_gcGen = gen, mf_root = root, mf_indexes = idx, mf_condemned = cs\<rparr>"
    using d ok by (auto simp: mf_decodePlain_def h idx c result_simps Let_def split: if_splits)
  note t6 = rd_Uvarint_took[OF h(6) ok(1)]
  note t5 = rd_hash_took[OF h(5) conjunct1[OF rd_tookD[OF t6]]]
  note t4 = rd_U64_took[OF h(4) conjunct1[OF rd_tookD[OF t5]]]
  note t3 = rd_U64_took[OF h(3) conjunct1[OF rd_tookD[OF t4]]]
  note t2 = rd_U16_took[OF h(2) conjunct1[OF rd_tookD[OF t3]]]
  note t1 = rd_Fixed_took[OF h(1) conjunct1[OF rd_tookD[OF t2]]]
  note ti = rd_loop_took[where enc = hbytes and P = index_after and nxt = "\<lambda>_ s. Some s", OF rd_index_took idx rd_took_ok[OF t6]]
  note tc = rd_Uvarint_took[OF c ok2(1)]
  note tcs = rd_loop_took[where enc = put_condemned and P = "\<lambda>_ c. kind_ok c" and nxt = "\<lambda>_ _. ()", OF rd_condemned_took cs rd_took_ok[OF tc]]
  have l: "of_nat (length idx) = n" "of_nat (length cs) = c" "length idx = unat n" "length cs = unat c" using ti tcs by auto
  have "manifest_ok m"
    using ti tcs ok(4) ok2(2) l by (simp add: m manifest_ok_def chain_index chain_condemned word_less_nat_alt)
  moreover note rd_took_all[OF rd_took_trans[OF conjunct1[OF t1] rd_took_trans[OF t2 rd_took_trans[OF t3 rd_took_trans[OF t4
    rd_took_trans[OF t5 rd_took_trans[OF t6 rd_took_trans[OF conjunct1[OF ti] rd_took_trans[OF tc conjunct1[OF tcs]]]]]]]]] dn]
  ultimately show ?thesis using ok l mf_encode_sorted[of m] by (simp add: mf_encodePlain_def m)
qed

section \<open>Lemmas: sealing and names\<close>

lemma openManifest_seal:
  assumes C: "crypto_ok C" and ns: "nonces_ok nonces" and e: "mf_seal C kr repo rnd nonces m = Inr b"
  shows "openManifest C kr repo b = mf_decodePlain (mf_encodePlain m)"
proof -
  obtain salt key sealed where key: "kr_Key C kr dom_Refs repo salt nonces = Inr key"
    and sl: "fst (k_Seal C (ascii ''SCMF'' @ put_U16 1 @ hbytes salt) (mf_encodePlain m) key) = Inr sealed"
    and b: "b = ascii ''SCMF'' @ put_U16 1 @ hbytes salt @ sealed"
    using e by (auto simp: mf_seal_def result_simps Let_def split: option.splits)
  let ?h = "ascii ''SCMF'' @ put_U16 1 @ hbytes salt"
  have lh: "length ?h = 38" by (simp add: put_U16_def)
  have parts: "take 38 b = ?h" "drop 38 b = sealed" "\<not> length b < 38" using lh by (simp_all add: b flip: append_assoc)
  obtain k2 where k2: "kr_Key C kr dom_Refs repo salt (\<lambda>_. None) = Inr k2" "k_aead k2 = k_aead key" "k_tag k2 = k_tag key" "\<not> k_destroyed k2"
    and kn: "k_nonces key = nonces" using key by (auto simp: kr_Key_def withMaster_def Let_def split: if_splits)
  obtain k' where "k_Seal C ?h (mf_encodePlain m) key = (Inr sealed, k')" using sl by (cases "k_Seal C ?h (mf_encodePlain m) key") auto
  then have op: "k_Open C k2 ?h sealed = Inr (mf_encodePlain m)" using k_Open_Seal(1)[OF C _ _ k2(2-4)] kn ns by simp
  have "NewReader (take 38 b) = rd_at [] (ascii ''SCMF'' @ put_U16 1 @ hbytes salt)" by (simp add: parts NewReader_at)
  then show ?thesis using k2(1) op parts
    by (simp add: openManifest_def NewReader_at wire_simps at_done Let_def)
qed

lemma indexSum_indexName [simp]: "indexSum (indexName s) = Inr s"
proof -
  have "take 6 (indexName s) = ascii ''index/''" "drop 6 (indexName s) = hex_encode (hbytes s)"
    by (simp_all add: indexName_def ascii_def)
  then show ?thesis by (simp add: indexSum_def hex_decode_encode)
qed

lemma indexSum_Inr: "indexSum name = Inr s \<Longrightarrow> name = indexName s"
  by (auto simp: indexSum_def Let_def split: option.splits if_splits)

section \<open>Properties\<close>

text \<open>C16. A manifest has one plaintext: bytes are read as a manifest exactly when they are its encoding and it is well
  formed (index objects strictly by hash, both lists within their limits, every condemned kind known).\<close>

theorem manifest_canonical:
  "mf_decodePlain b = Inr m \<longleftrightarrow> mf_encodePlain m = b \<and> manifest_ok m"
  using mf_decode_inv[of b m] mf_decode_encode[of m] by blast

end
