(* ===== verification/Spec2Isabelle.thy ===== *)
theory Spec2Isabelle
  imports Prelude Wire Hash Boundary Chunk Cdc Stream StreamRead ProllyNode Prolly ProllyFlush ProllyDiff ProllyTree ProllyRead ProllyEdit ProllyApply ProllyCanon ProllySpec Auth Model Object Merge VcsCodec Vcs VcsGraph VcsBase VcsWalk Blob BlobMem Seal Pack Dedup Table Manifest
begin

text \<open>
  \<^bold>\<open>The program.\<close> The repository is the storage core of a versioned object store, in Go. From the bottom up: a blob
  store holds named immutable objects and one root, swapped by version (\<^verbatim>\<open>core/blob\<close>); packs hold many chunks, each
  compressed and sealed, in one object (\<^verbatim>\<open>core/pack\<close>, \<^verbatim>\<open>core/seal\<close>); a chunk store gives chunks by SHA-256
  (\<^verbatim>\<open>core/chunk\<close>); a byte stream is cut by content into chunks under an index tree (\<^verbatim>\<open>core/cdc\<close>, \<^verbatim>\<open>core/stream\<close>);
  a prolly tree is an ordered map in chunks whose shape depends on its contents only (\<^verbatim>\<open>core/prolly\<close>); a namespace
  is such a map from paths to typed object references (\<^verbatim>\<open>core/object\<close>, \<^verbatim>\<open>core/model\<close>); and a repository is a graph of
  commits, branches, tags and working sets over namespaces, with three-way merges (\<^verbatim>\<open>core/vcs\<close>, \<^verbatim>\<open>core/merge\<close>),
  behind a default-deny authorizer (\<^verbatim>\<open>core/auth\<close>).

  \<^bold>\<open>How it is modelled.\<close> A Go \<^verbatim>\<open>[]byte\<close> or \<^verbatim>\<open>string\<close> is a list of 8-bit words; fixed-width integers stay words where
  they can wrap and are \<open>nat\<close> or \<open>int\<close> where the code bounds them. \<^verbatim>\<open>(T, error)\<close> is \<open>err + T\<close>; a method on shared state is
  a \<open>comp\<close>, a function from the state to the result and the new state (\<open>Prelude\<close>). An interface is a record of its
  methods over the state (\<open>rw\<close>, \<open>blobs\<close>), its documented contract a locale (\<open>chunk_rw\<close>, \<open>blob_store\<close>), interpreted
  on the in-memory stores (\<open>ms\<close>, \<open>mb\<close>). SHA-256 is the parameter \<open>H\<close>; where a theorem needs it free of collisions it
  says so of the finitely many values the store holds. The AEAD, HKDF, Argon2id and X25519 primitives are the
  parameter \<open>crypto\<close> with the laws \<open>crypto_ok\<close>, zstd is \<open>zcodec\<close> with \<open>zcodec_ok\<close>, the chunker's byte table is \<open>tb\<close>.
  Random draws and the clock are sequences in the state or arguments. A loop is a function with a proof of
  termination, by a measure the code's own checks give (a child is a level lower, a reader has fewer bytes left); the
  loops over a version graph are \<open>while_option\<close>, so that not returning is a value; \<open>VcsBase\<close> shows that the merge base's
  search returns. No definition takes fuel.

  \<^bold>\<open>The theories.\<close>
  \<^item> \<open>Prelude\<close>: machine types, errors, the result and state combinators, readers, binary search.
  \<^item> \<open>Wire\<close>, \<open>Hash\<close>, \<open>Boundary\<close>: the canonical encodings of \<^verbatim>\<open>core/wire\<close> (every value has one encoding, and a reader
    accepts only that), hashes and their order, the split rule with its 64-bit thresholds.
  \<^item> \<open>Chunk\<close>: the chunk store port and \<^verbatim>\<open>memstore\<close>. \<open>Cdc\<close>: the content-defined chunker, whose cuts do not depend on how
    reads fall. \<open>Stream\<close>, \<open>StreamRead\<close>: writing a stream and reading it back, whole or at an offset; reads of forged
    indexes stay within what they declare.
  \<^item> \<open>ProllyNode\<close>, \<open>Prolly\<close>, \<open>ProllyFlush\<close>, \<open>ProllyDiff\<close>: nodes, maps, cursors, edits, flush, diff and walk, as in
    \<^verbatim>\<open>node.go\<close>, \<^verbatim>\<open>prolly.go\<close>, \<^verbatim>\<open>cursor.go\<close>, \<^verbatim>\<open>flush.go\<close>, \<^verbatim>\<open>diff.go\<close>, \<^verbatim>\<open>walk.go\<close>. \<open>ProllyTree\<close> gives the tree a
    list of entries stands for; \<open>ProllyRead\<close> shows reads and cursors exact on it, \<open>ProllyEdit\<close> and \<open>ProllyApply\<close> that
    applying edits level by level, reusing what resynchronises, gives the tree of the edited list, \<open>ProllyCanon\<close> that
    growing and collapsing roots ends in that tree, and \<open>ProllySpec\<close> states the map as a refinement of a finite map.
  \<^item> \<open>Auth\<close>, \<open>Model\<close>, \<open>Object\<close>, \<open>Merge\<close>: principals and the check, the model registry, references, paths and
    namespaces, the three-way merge.
  \<^item> \<open>VcsCodec\<close>, \<open>Vcs\<close>, \<open>VcsGraph\<close>, \<open>VcsWalk\<close>: the encodings and names of \<^verbatim>\<open>core/vcs\<close>, every repository operation as a
    compare-and-swap of the root, the log and the merge base, the walk of all a repository reaches. \<open>VcsBase\<close>: the merge
    base is the highest common ancestor, and its search ends.
  \<^item> \<open>Blob\<close>, \<open>BlobMem\<close>: names, checks, the blob store port, the in-memory store with its journal. \<open>Seal\<close>: domains, keys
    with their budget, key files and envelopes. \<open>Pack\<close>: the pack format, its writer and readers.
  \<^item> \<open>Dedup\<close>, \<open>Table\<close>: \<^verbatim>\<open>core/dedup\<close>. Index objects have one plaintext and list exactly what pack writers finished; the index
    in memory gives a chunk's first location; a table built by sorted runs and merge passes answers as a map of the
    records added, whatever the run size. \<open>Manifest\<close>: the manifest of \<^verbatim>\<open>core/chunk/packstore\<close>, its one plaintext, sealing
    and opening.

  \<^bold>\<open>Bounds.\<close> Hypotheses on sizes are the code's own: a chunk of at most 2^20 bytes, lengths below 2^63, at most 2^16
  chunks in a pack, a pack's index below 2^32.

  \<^bold>\<open>Not modelled.\<close> Contexts, mutexes and goroutine pipelines (the parallel paths of \<^verbatim>\<open>cdc\<close>, \<^verbatim>\<open>stream\<close>, \<^verbatim>\<open>packstore\<close>),
  error texts, the capacity of buffers; the stores that are file-system or network I/O (\<^verbatim>\<open>blob/local\<close>, \<^verbatim>\<open>blob/s3\<close>,
  \<^verbatim>\<open>blob/cache\<close>, \<^verbatim>\<open>blob/multivol\<close>); the chunk store over packs with its journal; contract suites and tools.
\<close>

end
